(* ===== verification/Eureka_Prelude.thy ===== *)
theory Eureka_Prelude
  imports Main "HOL-Library.Word"
begin

text \<open>
  Shared vocabulary of the development: the machine integer types of the C++ code, the
  little-endian view of memory (the target is ARM64), the result type of an operation that
  can run into undefined behaviour, and the generic lemmas on words and lists that the
  component theories use.
\<close>

unbundle bit_operations_syntax

type_synonym u8 = "8 word"
type_synonym u32 = "32 word"
type_synonym u64 = "64 word"

named_theorems wf_intros \<open>preservation of the components' well-formedness invariants\<close>
named_theorems mem_simps \<open>how the components' memory writes read back\<close>

text \<open>What the C++ standard leaves undefined, or what the standard library raises.\<close>

datatype cpp_error =
    OutOfBounds      \<comment> \<open>\<open>operator[]\<close> past the end of a vector\<close>
  | EmptyAccess      \<comment> \<open>\<open>front()\<close>/\<open>back()\<close>/\<open>--end()\<close> of an empty sequence\<close>
  | DanglingIterator \<comment> \<open>an iterator to an erased list node\<close>

subsection \<open>Little-endian loads\<close>

text \<open>\<open>memcpy(&k, p, n)\<close> into a zeroed 64-bit integer: byte \<open>i\<close> lands in bits \<open>8i .. 8i+7\<close>.\<close>

primrec load_le :: "string \<Rightarrow> u64" where
  "load_le [] = 0"
| "load_le (c # cs) = of_char c OR push_bit 8 (load_le cs)"

subsection \<open>Words\<close>

lemma single_bit_test [simp]: "(w AND 2 ^ n = 0) \<longleftrightarrow> \<not> bit w n"
  for w :: "'a::len word"
  by (simp add: and_exp_eq_0_iff_not_bit)

lemma bit_exp64 [simp]: "bit (2 ^ n :: u64) m \<longleftrightarrow> m = n \<and> n < 64"
  by (auto simp: bit_exp_iff)

lemma unat_and_63_less [simp]: "unat ((w :: u64) AND 63) < 64"
proof -
  have "w AND 63 \<le> 63" by (rule word_and_le1)
  then show ?thesis by (simp add: word_le_nat_alt)
qed

lemma unat_mod_less: "m \<noteq> 0 \<Longrightarrow> unat (x mod m) < unat m" for x m :: "'a::len word"
  by (simp add: unat_mod unat_gt_0)

lemma mult_inverse_inj:
  fixes c d :: "'a::len word"
  assumes "c * d = 1"
  shows "inj (\<lambda>x. x * c)"
proof (rule injI)
  fix x y assume "x * c = y * c"
  then have "x * c * d = y * c * d" by simp
  with assms show "x = y" by (simp add: mult.assoc)
qed

lemma xorshift_inj:
  assumes "LENGTH('a) \<le> 2 * n"
  shows "inj (\<lambda>x :: 'a::len word. x XOR drop_bit n x)"
proof (rule inj_on_inverseI)
  fix x :: "'a word"
  have "drop_bit n (drop_bit n x) = 0"
    using assms by (auto simp: bit_eq_iff [of "drop_bit n (drop_bit n x)"] bit_simps dest: bit_imp_le_length)
  then show "(x XOR drop_bit n x) XOR drop_bit n (x XOR drop_bit n x) = x"
    by (simp add: drop_bit_xor ac_simps)
qed

lemma shift_or_inj:
  assumes "m + n = LENGTH('a)"
  shows "inj (\<lambda>x :: 'a::len word. push_bit m x OR drop_bit n x)"
proof (rule inj_on_inverseI)
  fix x :: "'a word"
  have "bit (drop_bit m (push_bit m x OR drop_bit n x)
      OR push_bit n (push_bit m x OR drop_bit n x)) i = bit x i" for i
    using assms by (auto simp: bit_simps dest: bit_imp_le_length)
  then show "drop_bit m (push_bit m x OR drop_bit n x)
      OR push_bit n (push_bit m x OR drop_bit n x) = x"
    by (simp add: bit_eq_iff)
qed

lemma xor_cancel_left: "(a :: u64) XOR b = a XOR c \<longleftrightarrow> b = c"
proof
  assume "a XOR b = a XOR c"
  then have "a XOR (a XOR b) = a XOR (a XOR c)" by simp
  then show "b = c" by (simp add: xor.assoc [symmetric])
qed simp

lemma xor_cancel_right: "(b :: u64) XOR a = c XOR a \<longleftrightarrow> b = c"
  using xor_cancel_left [of a b c] by (simp add: xor.commute)

subsection \<open>Little-endian loads are injective\<close>

lemma of_char_less_256: "(of_char c :: nat) < 256"
  by (metis mod_less_divisor of_char_mod_256 zero_less_numeral)

lemma unat_of_char: "unat (of_char c :: u64) = of_char c"
proof -
  have "unat (of_nat (of_char c) :: u64) = of_char c"
    by (simp only: unat_of_nat, rule mod_less, rule less_trans [OF of_char_less_256], simp)
  then show ?thesis by (simp add: of_nat_of_char)
qed

lemma of_char_u64_inj: "(of_char c :: u64) = of_char d \<Longrightarrow> c = d"
  by (metis of_char_eq_iff unat_of_char)

lemma take_bit_of_char: "take_bit 8 (of_char c :: u64) = of_char c"
proof -
  have "unat (take_bit 8 (of_char c :: u64)) = unat (of_char c :: u64)"
    by (simp only: unsigned_take_bit_eq unat_of_char) (simp add: take_bit_eq_mod)
  then show ?thesis by (simp only: word_unat_eq_iff)
qed

lemma bit_of_char_u64: "bit (of_char c :: u64) i \<Longrightarrow> i < 8"
  by (metis bit_take_bit_iff take_bit_of_char)

lemma take_bit_load_le: "length cs \<le> n \<Longrightarrow> take_bit (8 * n) (load_le cs) = load_le cs"
proof (induction cs arbitrary: n)
  case (Cons c cs)
  then obtain m where n: "n = Suc m" and m: "length cs \<le> m" by (cases n) auto
  have "take_bit (8 * n) (of_char c :: u64) = of_char c"
    using n by (metis take_bit_of_char take_bit_take_bit min.absorb2 mult_le_mono2 nat_mult_1_right
        One_nat_def Suc_le_mono zero_le)
  then show ?case
    using Cons.IH [OF m] n by (simp add: take_bit_push_bit)
qed simp

lemma load_le_Cons_parts:
  assumes "length cs \<le> 7"
  shows "take_bit 8 (load_le (c # cs)) = of_char c" "drop_bit 8 (load_le (c # cs)) = load_le cs"
proof -
  show "take_bit 8 (load_le (c # cs)) = of_char c"
    by (simp add: take_bit_of_char take_bit_push_bit)
  have "bit (drop_bit 8 (load_le (c # cs))) i = bit (load_le cs) i" for i
    using take_bit_load_le [OF assms] bit_of_char_u64 [of c "8 + i"] bit_imp_le_length [of "load_le cs" i]
    by (auto simp: bit_simps) (metis bit_take_bit_iff)
  then show "drop_bit 8 (load_le (c # cs)) = load_le cs" by (simp only: bit_eq_iff) simp
qed

lemma load_le_inj:
  assumes "length cs = length ds" "length cs \<le> 8" "load_le cs = load_le ds"
  shows "cs = ds"
  using assms
proof (induction cs ds rule: list_induct2)
  case (Cons c cs d ds)
  then have l: "length cs \<le> 7" "length ds \<le> 7" by simp_all
  have "of_char c = (of_char d :: u64)" "load_le cs = load_le ds"
    using load_le_Cons_parts [OF l(1), of c] load_le_Cons_parts [OF l(2), of d] Cons.prems
    by (simp_all only: l)
  then show ?case using Cons.IH l of_char_u64_inj by auto
qed simp

end
