(* ===== verification/Bloom_Filter.thy ===== *)
theory Bloom_Filter
  imports Eureka_Prelude
begin

text \<open>
  The Bloom filter of \<^verbatim>\<open>include/lex/storage/bloom_filter.hpp\<close>: the MurmurHash3-style hash,
  the constructor, \<open>add\<close>, \<open>contains\<close> and \<open>reset\<close>.
\<close>

section \<open>Model\<close>

record BloomFilter =
  bits :: "u64 list"
  num_words :: u64

definition murmur_c1 :: u64 where "murmur_c1 = 0x87c37b91114253d5"
definition murmur_c2 :: u64 where "murmur_c2 = 0x4cf5ad432745937f"

text \<open>The scrambling of one 64-bit block, the same three statements in the loop and the tail.\<close>

definition murmur_mix_k :: "u64 \<Rightarrow> u64" where
  "murmur_mix_k k0 =
     (let k1 = k0 * murmur_c1;
          k2 = push_bit 31 k1 OR drop_bit 33 k1
      in k2 * murmur_c2)"

text \<open>One iteration of the block loop.\<close>

definition murmur_block :: "u64 \<Rightarrow> u64 \<Rightarrow> u64" where
  "murmur_block k h0 =
     (let h1 = h0 XOR murmur_mix_k k;
          h2 = push_bit 27 h1 OR drop_bit 37 h1
      in h2 * 5 + 0x52dce729)"

text \<open>The finaliser.\<close>

definition murmur_fmix :: "u64 \<Rightarrow> u64" where
  "murmur_fmix h0 =
     (let h1 = h0 XOR drop_bit 33 h0;
          h2 = h1 * 0xff51afd7ed558ccd;
          h3 = h2 XOR drop_bit 33 h2;
          h4 = h3 * 0xc4ceb9fe1a85ec53
      in h4 XOR drop_bit 33 h4)"

definition murmur_hash3 :: "string \<Rightarrow> u32 \<Rightarrow> u64" where
  "murmur_hash3 key seed =
     (let len = length key;
          h0 = ucast seed;
          h1 = fold (\<lambda>i h. murmur_block (load_le (take 8 (drop (i * 8) key))) h) [0..<len div 8] h0;
          rem = len mod 8;
          h2 = (if rem > 0
                then h1 XOR murmur_mix_k (load_le (take rem (drop (len - rem) key)))
                else h1)
      in murmur_fmix (h2 XOR of_nat len))"

definition bloom_new :: "u64 \<Rightarrow> BloomFilter" where
  "bloom_new size_in_bytes =
     (let nw = size_in_bytes div 8;
          nw = (if nw = 0 then 1024 else nw)
      in \<lparr>bits = replicate (unat nw) 0, num_words = nw\<rparr>)"

definition bloom_h1 :: "string \<Rightarrow> u64" where "bloom_h1 key = murmur_hash3 key 0x13579bdf"
definition bloom_h2 :: "string \<Rightarrow> u64" where "bloom_h2 key = murmur_hash3 key 0x2468ace0"

text \<open>The two (word, bit) positions a key is probed at.\<close>

definition bloom_block_idx :: "BloomFilter \<Rightarrow> string \<Rightarrow> u64" where
  "bloom_block_idx f key = bloom_h1 key mod num_words f"

definition set_word_bit :: "u64 list \<Rightarrow> nat \<Rightarrow> nat \<Rightarrow> u64 list" where
  "set_word_bit ws i j = ws[i := (ws ! i) OR push_bit j 1]"

definition bloom_add :: "BloomFilter \<Rightarrow> string \<Rightarrow> BloomFilter" where
  "bloom_add f key =
     (let h1 = bloom_h1 key; h2 = bloom_h2 key;
          block_idx = bloom_block_idx f key;
          b1 = set_word_bit (bits f) (unat block_idx) (unat (h2 AND 63));
          b2 = set_word_bit b1 (unat ((block_idx + 1) mod num_words f)) (unat (drop_bit 6 h1 AND 63))
      in f\<lparr>bits := b2\<rparr>)"

definition bloom_contains :: "BloomFilter \<Rightarrow> string \<Rightarrow> bool" where
  "bloom_contains f key =
     (let h1 = bloom_h1 key; h2 = bloom_h2 key;
          block_idx = bloom_block_idx f key
      in if (bits f ! unat block_idx) AND push_bit (unat (h2 AND 63)) 1 = 0 then False
         else if (bits f ! unat ((block_idx + 1) mod num_words f))
                  AND push_bit (unat (drop_bit 6 h1 AND 63)) 1 = 0 then False
         else True)"

definition bloom_reset :: "BloomFilter \<Rightarrow> BloomFilter" where
  "bloom_reset f = f\<lparr>bits := map (\<lambda>_. 0) (bits f)\<rparr>"

text \<open>Every index the code computes is taken modulo \<open>num_words\<close>, the length of \<open>bits\<close>.\<close>

definition bloom_wf :: "BloomFilter \<Rightarrow> bool" where
  "bloom_wf f \<longleftrightarrow> num_words f \<noteq> 0 \<and> length (bits f) = unat (num_words f)"

text \<open>The abstract content of a filter: the set of (word, bit) positions that are on.\<close>

definition bloom_abs :: "BloomFilter \<Rightarrow> (nat \<times> nat) set" where
  "bloom_abs f = {(i, j). i < length (bits f) \<and> j < 64 \<and> bit (bits f ! i) j}"

definition bloom_probes :: "BloomFilter \<Rightarrow> string \<Rightarrow> (nat \<times> nat) set" where
  "bloom_probes f key =
     {(unat (bloom_block_idx f key), unat (bloom_h2 key AND 63)),
      (unat ((bloom_block_idx f key + 1) mod num_words f), unat (drop_bit 6 (bloom_h1 key) AND 63))}"

section \<open>Lemmas\<close>

lemma length_set_word_bit [simp]: "length (set_word_bit ws i j) = length ws"
  by (simp add: set_word_bit_def)

lemma bit_set_word_bit [mem_simps]:
  assumes "i < length ws" "j < 64"
  shows "bit (set_word_bit ws i j ! i') j' \<longleftrightarrow> (i' = i \<and> j' = j) \<or> bit (ws ! i') j'"
  using assms by (cases "i' = i") (auto simp: set_word_bit_def bit_or_iff bit_push_bit_iff bit_1_iff)

lemma bloom_wf_new [wf_intros]: "bloom_wf (bloom_new n)"
  by (simp add: bloom_wf_def bloom_new_def Let_def)

lemma bloom_wf_add [wf_intros]: "bloom_wf f \<Longrightarrow> bloom_wf (bloom_add f k)"
  by (simp add: bloom_wf_def bloom_add_def Let_def)

lemma bloom_wf_reset [wf_intros]: "bloom_wf f \<Longrightarrow> bloom_wf (bloom_reset f)"
  by (simp add: bloom_wf_def bloom_reset_def)

lemma bloom_index_in_range:
  assumes "bloom_wf f"
  shows "unat (x mod num_words f) < length (bits f)"
  using assms by (simp add: bloom_wf_def unat_mod_less)

lemma bloom_probes_add [simp]: "bloom_probes (bloom_add f k) k' = bloom_probes f k'"
  by (simp add: bloom_probes_def bloom_block_idx_def bloom_add_def Let_def)

lemma bloom_contains_iff_probes:
  assumes "bloom_wf f"
  shows "bloom_contains f k \<longleftrightarrow> bloom_probes f k \<subseteq> bloom_abs f"
  using bloom_index_in_range [OF assms]
  by (auto simp: bloom_contains_def bloom_probes_def bloom_abs_def bloom_block_idx_def Let_def)

lemma bloom_abs_add:
  assumes "bloom_wf f"
  shows "bloom_abs (bloom_add f k) = bloom_abs f \<union> bloom_probes f k"
  using bloom_index_in_range [OF assms]
  by (auto simp: bloom_abs_def bloom_probes_def bloom_add_def bloom_block_idx_def Let_def mem_simps)

lemma bloom_abs_reset: "bloom_abs (bloom_reset f) = {}"
  by (auto simp: bloom_abs_def bloom_reset_def)

lemma bloom_abs_new: "bloom_abs (bloom_new n) = {}"
  by (auto simp: bloom_abs_def bloom_new_def Let_def)

subsection \<open>The interface its clients rely on\<close>

text \<open>
  A membership filter: once added, a key is reported, and stays reported while further keys
  are added. The query planner prunes a row group only on a negative answer, so this is all
  it needs.
\<close>

locale membership_filter =
  fixes add :: "'f \<Rightarrow> 'k \<Rightarrow> 'f"
    and contains :: "'f \<Rightarrow> 'k \<Rightarrow> bool"
    and invar :: "'f \<Rightarrow> bool"
  assumes invar_add: "invar f \<Longrightarrow> invar (add f k)"
    and contains_add: "invar f \<Longrightarrow> contains (add f k) k"
    and contains_mono: "invar f \<Longrightarrow> contains f k \<Longrightarrow> contains (add f k') k"
begin

lemma invar_adds: "invar f \<Longrightarrow> invar (foldl add f ks)"
  by (induction ks arbitrary: f) (auto intro: invar_add)

lemma contains_adds_mono: "invar f \<Longrightarrow> contains f k \<Longrightarrow> contains (foldl add f ks) k"
  by (induction ks arbitrary: f) (auto intro: invar_add contains_mono)

lemma contains_adds: "invar f \<Longrightarrow> k \<in> set ks \<Longrightarrow> contains (foldl add f ks) k"
  by (induction ks arbitrary: f) (auto intro: invar_add contains_add contains_adds_mono)

end

interpretation bloom: membership_filter bloom_add bloom_contains bloom_wf
  by unfold_locales (auto simp: bloom_contains_iff_probes bloom_abs_add bloom_wf_add)

subsection \<open>The hash\<close>

text \<open>
  Every step of the hash is a permutation of the 64-bit words: the multipliers are odd (their
  inverses are the numerals below), the rotations lose no bit, and a shift by 33 is undone by
  repeating it.
\<close>

lemma murmur_mix_k_inj: "inj murmur_mix_k"
proof -
  have c1: "inj (\<lambda>x. x * murmur_c1)"
    by (rule mult_inverse_inj [where d = "0xa98409e882ce4d7d"]) (simp add: murmur_c1_def)
  have r: "inj (\<lambda>x :: u64. push_bit 31 x OR drop_bit 33 x)"
    by (rule shift_or_inj) simp
  have c2: "inj (\<lambda>x. x * murmur_c2)"
    by (rule mult_inverse_inj [where d = "0xa81e14edd9de2c7f"]) (simp add: murmur_c2_def)
  show ?thesis
    using inj_compose [OF c2 inj_compose [OF r c1]]
    by (simp add: murmur_mix_k_def [abs_def] o_def Let_def)
qed

lemma murmur_fmix_inj: "inj murmur_fmix"
proof -
  have x: "inj (\<lambda>x :: u64. x XOR drop_bit 33 x)"
    by (rule xorshift_inj) simp
  have c1: "inj (\<lambda>x :: u64. x * 0xff51afd7ed558ccd)"
    by (rule mult_inverse_inj [where d = "0x4f74430c22a54005"]) simp
  have c2: "inj (\<lambda>x :: u64. x * 0xc4ceb9fe1a85ec53)"
    by (rule mult_inverse_inj [where d = "0x9cb4b2f8129337db"]) simp
  show ?thesis
    using inj_compose [OF x inj_compose [OF c2 inj_compose [OF x inj_compose [OF c1 x]]]]
    by (simp add: murmur_fmix_def [abs_def] o_def Let_def)
qed

lemma murmur_block_inj: "inj (\<lambda>k. murmur_block k h)"
proof -
  have x: "inj (\<lambda>k. h XOR murmur_mix_k k)"
    using murmur_mix_k_inj by (simp add: inj_def xor_cancel_left)
  have r: "inj (\<lambda>x :: u64. push_bit 27 x OR drop_bit 37 x)"
    by (rule shift_or_inj) simp
  have m: "inj (\<lambda>x :: u64. x * 5)"
    by (rule mult_inverse_inj [where d = "0xcccccccccccccccd"]) simp
  have a: "inj (\<lambda>x :: u64. x + 0x52dce729)"
    by (simp add: inj_def)
  show ?thesis
    using inj_compose [OF a inj_compose [OF m inj_compose [OF r x]]]
    by (simp add: murmur_block_def [abs_def] o_def Let_def)
qed

lemma murmur_hash3_short:
  assumes "length key < 8"
  shows "murmur_hash3 key seed =
    murmur_fmix ((if key = [] then ucast seed else ucast seed XOR murmur_mix_k (load_le key))
      XOR of_nat (length key))"
  using assms by (simp add: murmur_hash3_def Let_def)

lemma murmur_hash3_one_block:
  assumes "length key = 8"
  shows "murmur_hash3 key seed = murmur_fmix (murmur_block (load_le key) (ucast seed) XOR 8)"
  using assms by (simp add: murmur_hash3_def Let_def)

lemma murmur_fmix_xor_eqD: "murmur_fmix (a XOR c) = murmur_fmix (b XOR c) \<Longrightarrow> a = b"
  using injD [OF murmur_fmix_inj] xor_cancel_right by blast

lemma murmur_hash3_inj_short:
  assumes len: "length k1 = length k2" "length k1 \<le> 8"
    and eq: "murmur_hash3 k1 seed = murmur_hash3 k2 seed"
  shows "k1 = k2"
proof (cases "length k1 = 8")
  case True
  with len have l2: "length k2 = 8" by simp
  from eq have "murmur_fmix (murmur_block (load_le k1) (ucast seed) XOR 8) =
      murmur_fmix (murmur_block (load_le k2) (ucast seed) XOR 8)"
    by (simp only: murmur_hash3_one_block [OF True] murmur_hash3_one_block [OF l2])
  then have "load_le k1 = load_le k2"
    by (rule injD [OF murmur_block_inj, OF murmur_fmix_xor_eqD])
  with len show ?thesis by (blast intro: load_le_inj)
next
  case False
  with len have l: "length k1 < 8" "length k2 < 8" by simp_all
  show ?thesis
  proof (cases "k1 = []")
    case False
    with len(1) have "k2 \<noteq> []" by auto
    with False eq have "murmur_fmix ((ucast seed XOR murmur_mix_k (load_le k1)) XOR of_nat (length k2)) =
        murmur_fmix ((ucast seed XOR murmur_mix_k (load_le k2)) XOR of_nat (length k2))"
      by (simp only: murmur_hash3_short [OF l(1)] murmur_hash3_short [OF l(2)] len(1) if_False)
    then have "murmur_mix_k (load_le k1) = murmur_mix_k (load_le k2)"
      using murmur_fmix_xor_eqD xor_cancel_left by blast
    then have "load_le k1 = load_le k2" by (rule injD [OF murmur_mix_k_inj])
    with len show ?thesis by (blast intro: load_le_inj)
  qed (use len(1) in auto)
qed

section \<open>Properties\<close>

text \<open>C22: the Bloom filter has no false negatives. Whatever well-formed filter the additions
  start from, every key that was added is reported by \<open>contains\<close>, in any order and with any
  other keys added in between.\<close>

theorem bloom_no_false_negatives:
  assumes "bloom_wf f" "k \<in> set ks"
  shows "bloom_contains (foldl bloom_add f ks) k"
  using assms by (rule bloom.contains_adds)

theorem bloom_no_false_negatives_witness:
  "bloom_contains (foldl bloom_add (bloom_new 64) [''abc-123'', ''def-456'']) ''abc-123''"
  by (rule bloom_no_false_negatives) (simp_all add: bloom_wf_new)

text \<open>what a filter reports is exactly determined by its content. A filter built from the keys
  \<open>ks\<close> reports \<open>k\<close> if and only if both probe positions of \<open>k\<close> are probe positions of added keys
  (so a false positive needs a collision on both), and a reset filter reports nothing.\<close>

theorem bloom_contents_exact:
  "(bloom_contains (foldl bloom_add (bloom_new n) ks) k \<longleftrightarrow>
     bloom_probes (bloom_new n) k \<subseteq> (\<Union>k' \<in> set ks. bloom_probes (bloom_new n) k')) \<and>
   \<not> bloom_contains (bloom_reset (foldl bloom_add (bloom_new n) ks)) k"
proof -
  have wf: "bloom_wf (foldl bloom_add (bloom_new n) ks)" for ks
    by (rule bloom.invar_adds [OF bloom_wf_new])
  have probes: "bloom_probes (foldl bloom_add f ks) k = bloom_probes f k" for f k
    by (induction ks arbitrary: f) auto
  have "bloom_abs (foldl bloom_add f ks) = bloom_abs f \<union> (\<Union>k' \<in> set ks. bloom_probes f k')" if "bloom_wf f" for f
    using that by (induction ks arbitrary: f) (auto simp: bloom_abs_add bloom_wf_add)
  from this [OF bloom_wf_new]
  have abs: "bloom_abs (foldl bloom_add (bloom_new n) ks) = (\<Union>k' \<in> set ks. bloom_probes (bloom_new n) k')"
    by (simp add: bloom_abs_new)
  show ?thesis
    using wf [of ks]
    by (simp add: bloom_contains_iff_probes bloom_wf_reset probes abs bloom_abs_reset)
      (simp add: bloom_probes_def)
qed

text \<open>the hash separates short keys. Two keys of equal length of at most one 8-byte block have
  the same 64-bit MurmurHash3 value, under any seed, only if they are the same key.\<close>

theorem murmur_hash3_injective:
  assumes "length k1 = length k2" "length k1 \<le> 8"
  shows "murmur_hash3 k1 seed = murmur_hash3 k2 seed \<longleftrightarrow> k1 = k2"
  using murmur_hash3_inj_short [OF assms] by blast

theorem murmur_hash3_injective_witness:
  "murmur_hash3 ''abc-123'' 0x13579bdf \<noteq> murmur_hash3 ''abc-124'' 0x13579bdf"
  using murmur_hash3_injective [of "''abc-123''" "''abc-124''" "0x13579bdf"] by simp

end
