(* ===== verification/Zone_Map.thy ===== *)
theory Zone_Map
  imports Eureka_Prelude
begin

text \<open>
  The min/max summaries of \<^verbatim>\<open>include/lex/storage/zone_map.hpp\<close>. The C++ union holds two
  64-bit slots that the three member structs read as unsigned, signed or double values; the
  model keeps the two words and gives each view its comparison.
\<close>

section \<open>Model\<close>

datatype DataType = UINT64 | INT64 | DOUBLE | STRING

record ZoneMap =
  zm_type :: DataType
  zm_min :: u64
  zm_max :: u64
  has_values :: bool

text \<open>\<open>operator<\<close> in the three views of the union. A double is its IEEE 754 bit pattern:
  sign-magnitude order, both zeros equal, every comparison with a NaN false.\<close>

definition lt_u64 :: "u64 \<Rightarrow> u64 \<Rightarrow> bool" where "lt_u64 a b \<longleftrightarrow> a < b"

definition lt_i64 :: "u64 \<Rightarrow> u64 \<Rightarrow> bool" where "lt_i64 a b \<longleftrightarrow> sint a < sint b"

definition dbl_is_nan :: "u64 \<Rightarrow> bool" where
  "dbl_is_nan w \<longleftrightarrow> drop_bit 52 w AND 0x7FF = 0x7FF \<and> take_bit 52 w \<noteq> 0"

definition dbl_key :: "u64 \<Rightarrow> int" where
  "dbl_key w = (if bit w 63 then - uint (take_bit 63 w) else uint (take_bit 63 w))"

definition lt_dbl :: "u64 \<Rightarrow> u64 \<Rightarrow> bool" where
  "lt_dbl a b \<longleftrightarrow> \<not> dbl_is_nan a \<and> \<not> dbl_is_nan b \<and> dbl_key a < dbl_key b"

definition std_min :: "(u64 \<Rightarrow> u64 \<Rightarrow> bool) \<Rightarrow> u64 \<Rightarrow> u64 \<Rightarrow> u64" where
  "std_min lt a b = (if lt b a then b else a)"

definition std_max :: "(u64 \<Rightarrow> u64 \<Rightarrow> bool) \<Rightarrow> u64 \<Rightarrow> u64 \<Rightarrow> u64" where
  "std_max lt a b = (if lt a b then b else a)"

text \<open>\<open>std::numeric_limits\<close> of the three views, as bit patterns.\<close>

definition i64_max :: u64 where "i64_max = 0x7FFFFFFFFFFFFFFF"
definition i64_min :: u64 where "i64_min = 0x8000000000000000"
definition dbl_max :: u64 where "dbl_max = 0x7FEFFFFFFFFFFFFF"
definition dbl_lowest :: u64 where "dbl_lowest = 0xFFEFFFFFFFFFFFFF"

definition zone_reset :: "ZoneMap \<Rightarrow> ZoneMap" where
  "zone_reset z =
     (let z = z\<lparr>has_values := False\<rparr> in
      case zm_type z of
        UINT64 \<Rightarrow> z\<lparr>zm_min := - 1, zm_max := 0\<rparr>
      | INT64 \<Rightarrow> z\<lparr>zm_min := i64_max, zm_max := i64_min\<rparr>
      | DOUBLE \<Rightarrow> z\<lparr>zm_min := dbl_max, zm_max := dbl_lowest\<rparr>
      | STRING \<Rightarrow> z)"

definition zone_default :: ZoneMap where
  "zone_default = \<lparr>zm_type = UINT64, zm_min = - 1, zm_max = 0, has_values = False\<rparr>"

text \<open>The explicit constructor; \<open>lo\<close> and \<open>hi\<close> are the indeterminate contents of the union
  before \<open>reset\<close> runs (they survive for \<open>STRING\<close> only).\<close>

definition zone_new :: "u64 \<Rightarrow> u64 \<Rightarrow> DataType \<Rightarrow> ZoneMap" where
  "zone_new lo hi t = zone_reset \<lparr>zm_type = t, zm_min = lo, zm_max = hi, has_values = False\<rparr>"

definition zone_update :: "(u64 \<Rightarrow> u64 \<Rightarrow> bool) \<Rightarrow> ZoneMap \<Rightarrow> u64 \<Rightarrow> ZoneMap" where
  "zone_update lt z v =
     z\<lparr>has_values := True, zm_min := std_min lt (zm_min z) v, zm_max := std_max lt (zm_max z) v\<rparr>"

definition update_u64 :: "ZoneMap \<Rightarrow> u64 \<Rightarrow> ZoneMap" where "update_u64 = zone_update lt_u64"
definition update_i64 :: "ZoneMap \<Rightarrow> u64 \<Rightarrow> ZoneMap" where "update_i64 = zone_update lt_i64"
definition update_dbl :: "ZoneMap \<Rightarrow> u64 \<Rightarrow> ZoneMap" where "update_dbl = zone_update lt_dbl"

definition check_in_range_u64 :: "ZoneMap \<Rightarrow> u64 \<Rightarrow> u64 \<Rightarrow> bool" where
  "check_in_range_u64 z query_min query_max =
     (if \<not> has_values z then False
      else if zm_type z \<noteq> UINT64 then False
      else \<not> (query_max < zm_min z \<or> query_min > zm_max z))"

section \<open>Summaries of an order\<close>

text \<open>
  What the three views share: a strict weak order on the valid values, and comparisons with an
  invalid value (a NaN) that never hold. The bounds of a summary then enclose every valid
  value that was fed to it.
\<close>

locale range_order =
  fixes lt :: "u64 \<Rightarrow> u64 \<Rightarrow> bool"
    and valid :: "u64 \<Rightarrow> bool"
  assumes lt_asym: "lt a b \<Longrightarrow> \<not> lt b a"
    and lt_valid: "lt a b \<Longrightarrow> valid a \<and> valid b"
    and lt_negtrans: "valid a \<Longrightarrow> valid b \<Longrightarrow> valid c \<Longrightarrow> \<not> lt a b \<Longrightarrow> \<not> lt b c \<Longrightarrow> \<not> lt a c"
begin

lemma lt_irrefl: "\<not> lt a a"
  using lt_asym by blast

lemma lt_trans: "lt a b \<Longrightarrow> lt b c \<Longrightarrow> lt a c"
  using lt_asym lt_negtrans lt_valid by blast

lemma zone_update_has_values [simp]: "has_values (zone_update lt z v)"
  by (simp add: zone_update_def)

lemma zone_update_type [simp]: "zm_type (zone_update lt z v) = zm_type z"
  by (simp add: zone_update_def)

lemma zone_update_valid:
  "valid (zm_min z) \<Longrightarrow> valid (zm_min (zone_update lt z v))"
  "valid (zm_max z) \<Longrightarrow> valid (zm_max (zone_update lt z v))"
  using lt_valid by (auto simp: zone_update_def std_min_def std_max_def)

lemma zone_updates_valid:
  "valid (zm_min z) \<Longrightarrow> valid (zm_min (foldl (zone_update lt) z vs))"
  "valid (zm_max z) \<Longrightarrow> valid (zm_max (foldl (zone_update lt) z vs))"
  by (induction vs arbitrary: z) (auto intro: zone_update_valid)

lemma zone_update_encloses:
  assumes "v = u \<or> \<not> lt v (zm_min z) \<and> \<not> lt (zm_max z) v"
  shows "\<not> lt v (zm_min (zone_update lt z u)) \<and> \<not> lt (zm_max (zone_update lt z u)) v"
  using assms lt_irrefl lt_trans by (auto simp: zone_update_def std_min_def std_max_def)

lemma zone_updates_enclose:
  assumes "v \<in> set vs \<or> \<not> lt v (zm_min z) \<and> \<not> lt (zm_max z) v"
  shows "\<not> lt v (zm_min (foldl (zone_update lt) z vs)) \<and> \<not> lt (zm_max (foldl (zone_update lt) z vs)) v"
  using assms
proof (induction vs arbitrary: z)
  case (Cons u vs)
  then show ?case using zone_update_encloses [of v u z] by auto
qed simp

lemma zone_updates_has_values: "has_values (foldl (zone_update lt) z vs) \<longleftrightarrow> has_values z \<or> vs \<noteq> []"
  by (induction vs arbitrary: z) auto

lemma zone_updates_type [simp]: "zm_type (foldl (zone_update lt) z vs) = zm_type z"
  by (induction vs arbitrary: z) auto

end

text \<open>Where the initial bounds of \<open>reset\<close> are the extreme values of the view, the bounds of a
  non-empty summary are values that were fed to it, so they are tight.\<close>

locale range_order_bounded = range_order +
  fixes top_val :: u64 and bot_val :: u64
  assumes lt_total: "a \<noteq> b \<Longrightarrow> lt a b \<or> lt b a"
    and top_val: "\<not> lt top_val v"
    and bot_val: "\<not> lt v bot_val"
begin

lemma zone_updates_attained:
  assumes "vs \<noteq> []" "zm_min z = top_val" "zm_max z = bot_val"
  shows "zm_min (foldl (zone_update lt) z vs) \<in> set vs \<and> zm_max (foldl (zone_update lt) z vs) \<in> set vs"
proof -
  have step: "zm_min (zone_update lt z v) = v \<and> zm_max (zone_update lt z v) = v" for v
    using assms(2,3) lt_total top_val bot_val
    by (fastforce simp: zone_update_def std_min_def std_max_def)
  have "zm_min (foldl (zone_update lt) z' us) \<in> insert (zm_min z') (set us) \<and>
      zm_max (foldl (zone_update lt) z' us) \<in> insert (zm_max z') (set us)" for z' us
  proof (induction us arbitrary: z')
    case (Cons u us)
    show ?case using Cons.IH [of "zone_update lt z' u"]
      by (auto simp: zone_update_def std_min_def std_max_def split: if_splits)
  qed simp
  from this [of "zone_update lt z (hd vs)" "tl vs"] assms(1) step [of "hd vs"]
  show ?thesis by (cases vs) auto
qed

end

interpretation zone_u64: range_order_bounded lt_u64 "\<lambda>_. True" "- 1" 0
  by unfold_locales (auto simp: lt_u64_def)

interpretation zone_i64: range_order_bounded lt_i64 "\<lambda>_. True" i64_max i64_min
proof unfold_locales
  fix a b v :: u64
  show "a \<noteq> b \<Longrightarrow> lt_i64 a b \<or> lt_i64 b a"
    by (metis lt_i64_def linorder_neqE signed_word_eqI)
  have "sint v < 2 ^ 63" "- (2 ^ 63) \<le> sint v"
    using sint_lt [of v] sint_ge [of v] by simp_all
  then show "\<not> lt_i64 i64_max v" "\<not> lt_i64 v i64_min"
    by (simp_all add: lt_i64_def i64_max_def i64_min_def)
qed (auto simp: lt_i64_def)

interpretation zone_dbl: range_order lt_dbl "\<lambda>v. \<not> dbl_is_nan v"
  by unfold_locales (auto simp: lt_dbl_def)

lemmas zone_fold_defs = update_u64_def update_i64_def update_dbl_def

lemma update_u64_type [simp]: "zm_type (update_u64 z v) = zm_type z"
  by (simp add: update_u64_def)

lemma update_u64_has_values [simp]: "has_values (update_u64 z v)"
  by (simp add: update_u64_def)

lemma zone_u64_bounds:
  assumes "vs \<noteq> []"
  shows "has_values (foldl update_u64 (zone_new lo hi UINT64) vs)"
    "zm_type (foldl update_u64 (zone_new lo hi UINT64) vs) = UINT64"
    "zm_min (foldl update_u64 (zone_new lo hi UINT64) vs) = Min (set vs)"
    "zm_max (foldl update_u64 (zone_new lo hi UINT64) vs) = Max (set vs)"
proof -
  let ?init = "zone_new lo hi UINT64"
  let ?z = "foldl (zone_update lt_u64) ?init vs"
  have z0: "zm_min ?init = - 1" "zm_max ?init = 0" "zm_type ?init = UINT64"
    by (simp_all add: zone_new_def zone_reset_def)
  have "zm_min ?z \<in> set vs \<and> zm_max ?z \<in> set vs"
    by (rule zone_u64.zone_updates_attained [OF assms z0(1,2)])
  moreover have "v \<in> set vs \<Longrightarrow> zm_min ?z \<le> v \<and> v \<le> zm_max ?z" for v
    using zone_u64.zone_updates_enclose [of v vs ?init] by (auto simp: lt_u64_def not_less)
  ultimately have "zm_min ?z = Min (set vs)" "zm_max ?z = Max (set vs)"
    by (auto intro!: Min_eqI [symmetric] Max_eqI [symmetric])
  then show "zm_min (foldl update_u64 ?init vs) = Min (set vs)" "zm_max (foldl update_u64 ?init vs) = Max (set vs)"
    by (simp_all add: zone_fold_defs)
  show "has_values (foldl update_u64 ?init vs)" using assms by (simp add: zone_u64.zone_updates_has_values zone_fold_defs)
  show "zm_type (foldl update_u64 ?init vs) = UINT64" using z0(3) by (simp add: zone_fold_defs)
qed

section \<open>Properties\<close>

text \<open>C32: an unsigned zone map is the exact summary of the values fed to it since its
  construction: it has values as soon as one was fed, its bounds are the least and the greatest
  of them, and \<open>check_in_range_u64\<close> answers whether the query interval and the value interval
  overlap.\<close>

theorem zone_u64_exact:
  assumes "vs \<noteq> []"
  shows "let z = foldl update_u64 (zone_new lo hi UINT64) vs in
    has_values z \<and> zm_min z = Min (set vs) \<and> zm_max z = Max (set vs) \<and>
    (check_in_range_u64 z q1 q2 \<longleftrightarrow> Min (set vs) \<le> q2 \<and> q1 \<le> Max (set vs))"
  using zone_u64_bounds [OF assms, of lo hi]
  by (auto simp: Let_def check_in_range_u64_def)

theorem zone_u64_exact_witness:
  "let z = foldl update_u64 (zone_new 7 7 UINT64) [200, 500, 404] in
    has_values z \<and> zm_min z = 200 \<and> zm_max z = 500 \<and>
    check_in_range_u64 z 300 450 \<and> \<not> check_in_range_u64 z 600 700"
  using zone_u64_exact [of "[200, 500, 404]" 7 7 300 450]
    zone_u64_exact [of "[200, 500, 404]" 7 7 600 700]
  by (simp add: Let_def)

text \<open>the signed and the double view. After any sequence of updates of a freshly constructed
  map, no value lies below the recorded minimum or above the recorded maximum of its view;
  a NaN fed to a double map is ignored by both bounds (they stay comparable), and an empty
  sequence leaves the map without values.\<close>

theorem zone_i64_dbl_enclose:
  "(\<forall>v \<in> set vs. \<not> lt_i64 v (zm_min (foldl update_i64 (zone_new lo hi INT64) vs)) \<and>
      \<not> lt_i64 (zm_max (foldl update_i64 (zone_new lo hi INT64) vs)) v) \<and>
   (\<forall>v \<in> set vs. \<not> lt_dbl v (zm_min (foldl update_dbl (zone_new lo hi DOUBLE) vs)) \<and>
      \<not> lt_dbl (zm_max (foldl update_dbl (zone_new lo hi DOUBLE) vs)) v) \<and>
   \<not> dbl_is_nan (zm_min (foldl update_dbl (zone_new lo hi DOUBLE) vs)) \<and>
   \<not> dbl_is_nan (zm_max (foldl update_dbl (zone_new lo hi DOUBLE) vs)) \<and>
   (has_values (foldl update_dbl (zone_new lo hi DOUBLE) vs) \<longleftrightarrow> vs \<noteq> [])"
proof -
  let ?d = "zone_new lo hi DOUBLE"
  have d: "\<not> dbl_is_nan (zm_min ?d)" "\<not> dbl_is_nan (zm_max ?d)" "\<not> has_values ?d"
    by (simp_all add: zone_new_def zone_reset_def dbl_is_nan_def dbl_max_def dbl_lowest_def take_bit_eq_mask mask_numeral)
  then show ?thesis
    using zone_i64.zone_updates_enclose zone_dbl.zone_updates_enclose zone_dbl.zone_updates_valid
    by (auto simp: zone_fold_defs zone_dbl.zone_updates_has_values)
qed

theorem zone_i64_dbl_enclose_witness:
  "\<not> lt_i64 (- 5) (zm_min (foldl update_i64 (zone_new 0 0 INT64) [7, - 5])) \<and>
   \<not> lt_dbl (zm_max (foldl update_dbl (zone_new 0 0 DOUBLE) [0x7FF8000000000000, 0x3FF0000000000000]))
      0x3FF0000000000000"
  using zone_i64_dbl_enclose [of "[7, - 5]" 0 0]
    zone_i64_dbl_enclose [of "[0x7FF8000000000000, 0x3FF0000000000000]" 0 0] by simp

end
