(* ===== verification/Row_Group.thy ===== *)
theory Row_Group
  imports Bloom_Filter Zone_Map
begin

text \<open>
  The row group of \<^verbatim>\<open>include/lex/storage/row_group.hpp\<close>: its fields, constructors, reference
  count and block-presence (null) maps, and the byte layout of its hot bit-planes.
  The \<open>rw_mutex\<close> member is locked nowhere in the sources and has no counterpart here.
\<close>

section \<open>Model\<close>

record ColumnMetadata =
  field_name :: string
  physical_slot :: u8
  data_type :: DataType
  sect :: u8  \<comment> \<open>0 = HOT, 1 = WARM, 2 = COLD\<close>

record RowGroup =
  ref_count :: u32
  fingerprint_hash :: u64
  hot_column_count :: u32
  warm_column_count :: u32
  null_maps :: "u64 list list"
  zone_maps :: "ZoneMap list"
  string_bloom :: BloomFilter
  hot_data_planes :: "u8 list"
  warm_dict_strings :: "string list"
  cold_sidecar_lz4_frames :: "u8 list"
  raw_chunk_buffer :: "string list"
  is_compacted :: bool

text \<open>The constructor. The sizes are computed in \<open>uint32_t\<close>: the sum of the column counts and
  the product \<open>hot_cols * 64 * 8192\<close> wrap around before they are widened to \<open>size_t\<close>.\<close>

definition RowGroup_new :: "u32 \<Rightarrow> u32 \<Rightarrow> RowGroup" where
  "RowGroup_new hot_cols warm_cols =
     (let total_cols = unat (hot_cols + warm_cols) in
      \<lparr>ref_count = 0, fingerprint_hash = 0,
       hot_column_count = hot_cols, warm_column_count = warm_cols,
       null_maps = replicate total_cols (replicate 16 0),
       zone_maps = replicate total_cols (zone_new 0 0 UINT64),
       string_bloom = bloom_new 8192,
       hot_data_planes = replicate (unat (hot_cols * 64 * 8192)) 0,
       warm_dict_strings = [], cold_sidecar_lz4_frames = [],
       raw_chunk_buffer = [], is_compacted = False\<rparr>)"

text \<open>The copy constructor, member by member.\<close>

definition RowGroup_copy :: "RowGroup \<Rightarrow> RowGroup" where
  "RowGroup_copy other =
     \<lparr>ref_count = ref_count other,
      fingerprint_hash = fingerprint_hash other,
      hot_column_count = hot_column_count other,
      warm_column_count = warm_column_count other,
      null_maps = null_maps other,
      zone_maps = zone_maps other,
      string_bloom = string_bloom other,
      hot_data_planes = hot_data_planes other,
      warm_dict_strings = warm_dict_strings other,
      cold_sidecar_lz4_frames = cold_sidecar_lz4_frames other,
      raw_chunk_buffer = raw_chunk_buffer other,
      is_compacted = is_compacted other\<rparr>"

text \<open>The move constructor: the new object and what is left of the old one. A moved-from
  \<open>std::vector\<close> is empty; the implicit move of the Bloom filter moves its vector but copies
  \<open>num_words\<close>.\<close>

definition RowGroup_move :: "RowGroup \<Rightarrow> RowGroup \<times> RowGroup" where
  "RowGroup_move other =
     (RowGroup_copy other,
      other\<lparr>null_maps := [], zone_maps := [],
            string_bloom := (string_bloom other)\<lparr>bits := []\<rparr>,
            hot_data_planes := [], warm_dict_strings := [],
            cold_sidecar_lz4_frames := [], raw_chunk_buffer := []\<rparr>)"

text \<open>Move assignment, as seen by its target; \<open>self\<close> tells whether both sides are one object.\<close>

definition RowGroup_move_assign :: "bool \<Rightarrow> RowGroup \<Rightarrow> RowGroup \<Rightarrow> RowGroup" where
  "RowGroup_move_assign self this other = (if \<not> self then RowGroup_copy other else this)"

definition retain :: "RowGroup \<Rightarrow> RowGroup" where
  "retain rg = rg\<lparr>ref_count := ref_count rg + 1\<rparr>"

text \<open>\<open>release\<close>; the Boolean is the test that guards the (empty) reclamation branch.\<close>

definition release :: "RowGroup \<Rightarrow> RowGroup \<times> bool" where
  "release rg = (rg\<lparr>ref_count := ref_count rg - 1\<rparr>, ref_count rg = 1)"

definition get_ref_count :: "RowGroup \<Rightarrow> int" where
  "get_ref_count rg = sint (ref_count rg)"

definition set_block_presence :: "RowGroup \<Rightarrow> u32 \<Rightarrow> u32 \<Rightarrow> RowGroup" where
  "set_block_presence rg col_idx block_idx =
     (if unat col_idx < length (null_maps rg) \<and> block_idx < 1024
      then let word_idx = block_idx div 64; bit_idx = block_idx AND 63
           in rg\<lparr>null_maps := (null_maps rg)
                  [unat col_idx := set_word_bit (null_maps rg ! unat col_idx) (unat word_idx) (unat bit_idx)]\<rparr>
      else rg)"

definition check_block_presence :: "RowGroup \<Rightarrow> u32 \<Rightarrow> u32 \<Rightarrow> bool" where
  "check_block_presence rg col_idx block_idx =
     (if unat col_idx \<ge> length (null_maps rg) \<or> block_idx \<ge> 1024 then False
      else let word_idx = block_idx div 64; bit_idx = block_idx AND 63
           in (null_maps rg ! unat col_idx ! unat word_idx) AND push_bit (unat bit_idx) 1 \<noteq> 0)"

subsection \<open>The byte layout of the hot planes\<close>

text \<open>A 64-bit store through a \<open>uint64_t*\<close> into the byte vector.\<close>

definition store_u64 :: "u8 list \<Rightarrow> nat \<Rightarrow> u64 \<Rightarrow> u8 list" where
  "store_u64 bs off w = foldl (\<lambda>b k. b[off + k := ucast (drop_bit (8 * k) w)]) bs [0..<8]"

text \<open>The byte offset of \<open>dest[b * 1024 + blk]\<close> where \<open>dest\<close> is the \<open>uint64_t\<close> view of column
  \<open>slot\<close>.\<close>

definition plane_word_off :: "nat \<Rightarrow> nat \<Rightarrow> nat \<Rightarrow> nat" where
  "plane_word_off slot b blk = slot * 64 * 8192 + 8 * (b * 1024 + blk)"

text \<open>Bit \<open>b\<close> of the value that row \<open>row\<close> has in hot column \<open>slot\<close>: plane \<open>b\<close> of the column is
  8192 bytes long, one bit per row.\<close>

definition plane_bit :: "u8 list \<Rightarrow> nat \<Rightarrow> nat \<Rightarrow> nat \<Rightarrow> bool" where
  "plane_bit planes slot b row = bit (planes ! (slot * 64 * 8192 + b * 8192 + row div 8)) (row mod 8)"

definition row_value :: "u8 list \<Rightarrow> nat \<Rightarrow> nat \<Rightarrow> u64" where
  "row_value planes slot row = horner_sum of_bool 2 (map (\<lambda>b. plane_bit planes slot b row) [0..<64])"

definition rg_wf :: "RowGroup \<Rightarrow> bool" where
  "rg_wf rg \<longleftrightarrow>
     length (null_maps rg) = unat (hot_column_count rg + warm_column_count rg) \<and>
     (\<forall>nm \<in> set (null_maps rg). length nm = 16) \<and>
     length (zone_maps rg) = length (null_maps rg) \<and>
     bloom_wf (string_bloom rg) \<and>
     length (hot_data_planes rg) = unat (hot_column_count rg * 64 * 8192)"

section \<open>Lemmas\<close>

lemma RowGroup_copy_id [simp]: "RowGroup_copy rg = rg"
  by (simp add: RowGroup_copy_def)

lemma rg_wf_new [wf_intros]: "rg_wf (RowGroup_new h w)"
  by (simp add: rg_wf_def RowGroup_new_def Let_def bloom_wf_new)

lemma rg_wf_retain [wf_intros]: "rg_wf rg \<Longrightarrow> rg_wf (retain rg)"
  by (simp add: rg_wf_def retain_def)

lemma rg_wf_release [wf_intros]: "rg_wf rg \<Longrightarrow> rg_wf (fst (release rg))"
  by (simp add: rg_wf_def release_def)

lemma rg_wf_set_block_presence [wf_intros]: "rg_wf rg \<Longrightarrow> rg_wf (set_block_presence rg c b)"
  by (auto simp: rg_wf_def set_block_presence_def Let_def dest!: set_update_subset_insert [THEN subsetD])

lemma set_block_presence_frame [simp]:
  "zone_maps (set_block_presence rg c b) = zone_maps rg"
  "string_bloom (set_block_presence rg c b) = string_bloom rg"
  "hot_data_planes (set_block_presence rg c b) = hot_data_planes rg"
  "warm_dict_strings (set_block_presence rg c b) = warm_dict_strings rg"
  "raw_chunk_buffer (set_block_presence rg c b) = raw_chunk_buffer rg"
  "hot_column_count (set_block_presence rg c b) = hot_column_count rg"
  "warm_column_count (set_block_presence rg c b) = warm_column_count rg"
  "is_compacted (set_block_presence rg c b) = is_compacted rg"
  "fingerprint_hash (set_block_presence rg c b) = fingerprint_hash rg"
  "ref_count (set_block_presence rg c b) = ref_count rg"
  "length (null_maps (set_block_presence rg c b)) = length (null_maps rg)"
  by (simp_all add: set_block_presence_def Let_def)

lemma block_idx_split:
  assumes "b < (1024 :: u32)"
  shows "unat (b div 64) = unat b div 64" "unat (b div 64) < 16" "unat (b AND 63) = unat b mod 64"
proof -
  show d: "unat (b div 64) = unat b div 64" by (simp add: unat_div)
  have "unat b < 1024" using assms by (simp add: word_less_nat_alt)
  then show "unat (b div 64) < 16" by (simp add: d)
  have "b AND 63 = take_bit 6 b" by (simp add: take_bit_eq_mask mask_numeral)
  then show "unat (b AND 63) = unat b mod 64"
    by (simp add: take_bit_eq_mod unat_mod)
qed

lemma store_u64_length [simp]: "length (store_u64 bs off w) = length bs"
proof -
  have "length (foldl (\<lambda>b k. b[off + k := ucast (drop_bit (8 * k) w)]) b ks) = length b" for b :: "u8 list" and ks
    by (induction ks arbitrary: b) auto
  then show ?thesis by (simp add: store_u64_def)
qed

lemma store_u64_nth [mem_simps]:
  assumes "off + 8 \<le> length bs"
  shows "store_u64 bs off w ! p =
    (if off \<le> p \<and> p < off + 8 then ucast (drop_bit (8 * (p - off)) w) else bs ! p)"
proof -
  have "foldl (\<lambda>b k. b[off + k := ucast (drop_bit (8 * k) w)]) b [0..<n] ! p =
      (if off \<le> p \<and> p < off + n then ucast (drop_bit (8 * (p - off)) w) else b ! p) \<and>
      length (foldl (\<lambda>b k. b[off + k := ucast (drop_bit (8 * k) w)]) b [0..<n]) = length b"
    if "off + n \<le> length b" for b :: "u8 list" and n
    using that by (induction n) (auto simp: nth_list_update)
  with assms show ?thesis by (auto simp: store_u64_def)
qed

lemma bit_row_value [simp]: "bit (row_value planes slot row) b \<longleftrightarrow> b < 64 \<and> plane_bit planes slot b row"
  by (auto simp: row_value_def bit_horner_sum_bit_iff nth_append)

lemma mixed_radix_eq:
  fixes x y :: nat
  assumes "x < n" "y < n"
  shows "a * n + x = b * n + y \<longleftrightarrow> a = b \<and> x = y"
proof
  assume "a * n + x = b * n + y"
  then have "(a * n + x) div n = (b * n + y) div n" "(a * n + x) mod n = (b * n + y) mod n" by simp_all
  with assms show "a = b \<and> x = y" by simp
qed simp

text \<open>Where the 64-bit store of block \<open>blk\<close> of plane \<open>b\<close> lands: exactly on that plane's bits of
  the block's 64 rows.\<close>

lemma plane_word_index:
  fixes b b' blk row slot slot' :: nat
  assumes "b < 64" "blk < 1024" "b' < 64" "row < 65536"
  defines "off \<equiv> slot * 64 * 8192 + 8 * (b * 1024 + blk)"
    and "q \<equiv> slot' * 64 * 8192 + b' * 8192 + row div 8"
  shows "off \<le> q \<and> q < off + 8 \<longleftrightarrow> slot' = slot \<and> b' = b \<and> row div 64 = blk"
proof -
  have q: "q = 8 * ((slot' * 64 + b') * 1024 + row div 64) + row div 8 mod 8"
  proof -
    have "row div 8 = 8 * (row div 64) + row div 8 mod 8"
      using div_mult2_eq [of row 8 8] by (simp add: mult_div_mod_eq)
    then show ?thesis unfolding q_def by (simp add: algebra_simps)
  qed
  have off: "off = 8 * ((slot * 64 + b) * 1024 + blk)" by (simp add: off_def algebra_simps)
  have near: "8 * m \<le> 8 * n + r \<and> 8 * n + r < 8 * m + 8 \<longleftrightarrow> n = m" if "r < 8" for m n r :: nat
    using that by auto
  have "off \<le> q \<and> q < off + 8 \<longleftrightarrow>
      (slot' * 64 + b') * 1024 + row div 64 = (slot * 64 + b) * 1024 + blk"
    unfolding q off by (rule near) simp
  also have "\<dots> \<longleftrightarrow> slot' * 64 + b' = slot * 64 + b \<and> row div 64 = blk"
    by (rule mixed_radix_eq) (use assms in auto)
  also have "\<dots> \<longleftrightarrow> slot' = slot \<and> b' = b \<and> row div 64 = blk"
    using mixed_radix_eq [of b' 64 b slot' slot] assms by auto
  finally show ?thesis .
qed

lemma plane_bit_store_u64 [mem_simps]:
  assumes "b < 64" "blk < 1024" "b' < 64" "row < 65536" "(slot + 1) * 524288 \<le> length planes"
  shows "plane_bit (store_u64 planes (plane_word_off slot b blk) w) slot' b' row \<longleftrightarrow>
    (if slot' = slot \<and> b' = b \<and> row div 64 = blk then bit w (row mod 64)
     else plane_bit planes slot' b' row)"
proof -
  let ?off = "slot * 64 * 8192 + 8 * (b * 1024 + blk)"
  let ?q = "slot' * 64 * 8192 + b' * 8192 + row div 8"
  have fits: "?off + 8 \<le> length planes" using assms by simp
  have hit: "8 * (?q - ?off) + row mod 8 = row mod 64" if "slot' = slot" "b' = b" "row div 64 = blk"
  proof -
    have "row div 8 = 8 * blk + row div 8 mod 8"
      using that(3) div_mult2_eq [of row 8 8] by (simp add: mult_div_mod_eq)
    with that have "?q - ?off = row div 8 mod 8" by (simp add: algebra_simps)
    then show ?thesis using mod_mult2_eq [of row 8 8] by simp
  qed
  have "bit (ucast (drop_bit (8 * k) w) :: u8) (row mod 8) = bit w (8 * k + row mod 8)" for k
    by (simp add: bit_ucast_iff bit_drop_bit_eq)
  then show ?thesis
    unfolding plane_bit_def plane_word_off_def store_u64_nth [OF fits] plane_word_index [OF assms(1-4)]
    using hit by auto
qed

lemma row_value_eqI:
  assumes "\<And>b. b < 64 \<Longrightarrow> plane_bit planes slot b row = bit v b"
  shows "row_value planes slot row = v"
  using assms by (auto intro!: bit_word_eqI)

subsection \<open>Block presence\<close>

lemma check_set_block_presence:
  assumes "rg_wf rg"
  shows "check_block_presence (set_block_presence rg c b) c' b' \<longleftrightarrow>
    check_block_presence rg c' b' \<or> (c' = c \<and> b' = b \<and> unat c < length (null_maps rg) \<and> b < 1024)"
proof (cases "unat c < length (null_maps rg) \<and> b < 1024 \<and> unat c' < length (null_maps rg) \<and> b' < 1024")
  case True
  then have "length (null_maps rg ! unat c) = 16" using assms by (auto simp: rg_wf_def)
  moreover have "unat (b' div 64) = unat (b div 64) \<and> unat (b' AND 63) = unat (b AND 63) \<longleftrightarrow> b' = b"
    using True block_idx_split [of b] block_idx_split [of b'] 
    by (metis div_mult_mod_eq word_unat_eq_iff)
  moreover have "unat (b AND 63) < 64" "unat (b div 64) < 16"
    using True block_idx_split by auto
  ultimately show ?thesis
    using True
    by (auto simp: check_block_presence_def set_block_presence_def Let_def nth_list_update mem_simps
        word_unat_eq_iff [of c' c])
next
  case False
  then show ?thesis by (auto simp: check_block_presence_def set_block_presence_def Let_def not_less)
qed

lemma check_block_presence_cong:
  "null_maps rg = null_maps rg' \<Longrightarrow> check_block_presence rg c b = check_block_presence rg' c b"
  by (simp add: check_block_presence_def)

lemma check_block_presence_new [simp]: "\<not> check_block_presence (RowGroup_new h w) c b"
  using block_idx_split [of b]
  by (auto simp: check_block_presence_def RowGroup_new_def Let_def not_le)

section \<open>Properties\<close>

text \<open>the null map is a faithful set of (column, block) pairs. Marking a block makes exactly
  that pair present when it is in range and changes nothing otherwise, and the row group stays
  well-formed (all vectors keep the sizes the index computations rely on).\<close>

theorem block_presence_exact:
  assumes "rg_wf rg"
  shows "rg_wf (set_block_presence rg c b) \<and>
    (check_block_presence (set_block_presence rg c b) c' b' \<longleftrightarrow>
      check_block_presence rg c' b' \<or> (c' = c \<and> b' = b \<and> unat c < length (null_maps rg) \<and> b < 1024))"
  using assms by (simp add: check_set_block_presence rg_wf_set_block_presence)

theorem block_presence_exact_witness:
  "check_block_presence (set_block_presence (RowGroup_new 2 2) 3 1000) 3 1000 \<and>
   \<not> check_block_presence (set_block_presence (RowGroup_new 2 2) 4 1000) 4 1000"
  using block_presence_exact [OF rg_wf_new, of 2 2 3 1000 3 1000]
    block_presence_exact [OF rg_wf_new, of 2 2 4 1000 4 1000]
  by (simp add: RowGroup_new_def check_block_presence_def Let_def)

end
