(* ===== verification/Plan_Cache.thy ===== *)
theory Plan_Cache
  imports Eureka_Prelude "HOL-Library.AList"
begin

text \<open>
  The least-recently-used cache of compiled scan functions,
  \<^verbatim>\<open>include/lex/jit/plan_cache.hpp\<close> and \<^verbatim>\<open>src/lex/jit/plan_cache.cpp\<close>. The \<open>std::list\<close> is a
  store of nodes with the order of their addresses, so that the iterators kept in the hash
  map are addresses that may or may not be live; each operation runs under the cache mutex and
  is one atomic step. A \<open>CompiledScanFunc\<close> is a value of the type parameter.
\<close>

section \<open>Model\<close>

record 'f PlanEntry =
  subset_hash :: u64
  func :: 'f
  hit_count :: u32

record 'f PlanCache =
  capacity :: u64
  lru_list :: "nat list"
  nodes :: "nat \<Rightarrow> 'f PlanEntry option"
  next_node :: nat
  cache_map :: "(u64 \<times> nat) list"

definition PlanCache_new :: "u64 \<Rightarrow> 'f PlanCache" where
  "PlanCache_new max_plans =
     \<lparr>capacity = max_plans, lru_list = [], nodes = (\<lambda>_. None), next_node = 0, cache_map = []\<rparr>"

text \<open>\<open>lru_list.splice(lru_list.begin(), lru_list, it)\<close>.\<close>

definition splice_front :: "'f PlanCache \<Rightarrow> nat \<Rightarrow> 'f PlanCache" where
  "splice_front c it = c\<lparr>lru_list := it # remove1 it (lru_list c)\<rparr>"

definition lookup_plan ::
  "'f PlanCache \<Rightarrow> u64 \<Rightarrow> 'f \<Rightarrow> cpp_error + ('f PlanCache \<times> bool \<times> 'f)" where
  "lookup_plan c h out_func =
     (case map_of (cache_map c) h of
        Some it \<Rightarrow>
          (case nodes c it of
             None \<Rightarrow> Inl DanglingIterator
           | Some e \<Rightarrow>
               let c1 = c\<lparr>nodes := (nodes c)(it \<mapsto> e\<lparr>hit_count := hit_count e + 1\<rparr>)\<rparr>
               in Inr (splice_front c1 it, True, func e))
      | None \<Rightarrow> Inr (c, False, out_func))"

definition evict_tail :: "'f PlanCache \<Rightarrow> cpp_error + 'f PlanCache" where
  "evict_tail c =
     (if lru_list c = [] then Inl EmptyAccess
      else let tail = last (lru_list c) in
        case nodes c tail of
          None \<Rightarrow> Inl DanglingIterator
        | Some e \<Rightarrow> Inr (c\<lparr>cache_map := AList.delete (subset_hash e) (cache_map c),
                          lru_list := butlast (lru_list c),
                          nodes := (nodes c)(tail := None)\<rparr>))"

definition push_front_plan :: "'f PlanCache \<Rightarrow> u64 \<Rightarrow> 'f \<Rightarrow> 'f PlanCache" where
  "push_front_plan c h f =
     (let it = next_node c in
      c\<lparr>lru_list := it # lru_list c,
        nodes := (nodes c)(it \<mapsto> \<lparr>subset_hash = h, func = f, hit_count = 1\<rparr>),
        next_node := Suc it,
        cache_map := AList.update h it (cache_map c)\<rparr>)"

definition insert_plan :: "'f PlanCache \<Rightarrow> u64 \<Rightarrow> 'f \<Rightarrow> cpp_error + 'f PlanCache" where
  "insert_plan c h f =
     (case map_of (cache_map c) h of
        Some it \<Rightarrow>
          (case nodes c it of
             None \<Rightarrow> Inl DanglingIterator
           | Some e \<Rightarrow> Inr (splice_front (c\<lparr>nodes := (nodes c)(it \<mapsto> e\<lparr>func := f\<rparr>)\<rparr>) it))
      | None \<Rightarrow>
          (if length (cache_map c) \<ge> unat (capacity c)
           then (case evict_tail c of
                   Inl err \<Rightarrow> Inl err
                 | Inr c1 \<Rightarrow> Inr (push_front_plan c1 h f))
           else Inr (push_front_plan c h f)))"

text \<open>The agreement of list, nodes and hash map.\<close>

definition cache_wf :: "'f PlanCache \<Rightarrow> bool" where
  "cache_wf c \<longleftrightarrow>
     0 < unat (capacity c) \<and>
     distinct (lru_list c) \<and>
     (\<forall>a. nodes c a \<noteq> None \<longleftrightarrow> a \<in> set (lru_list c)) \<and>
     (\<forall>a \<in> set (lru_list c). a < next_node c) \<and>
     distinct (map fst (cache_map c)) \<and>
     length (cache_map c) = length (lru_list c) \<and>
     (\<forall>k a. map_of (cache_map c) k = Some a \<longleftrightarrow> (\<exists>e. nodes c a = Some e \<and> subset_hash e = k)) \<and>
     length (lru_list c) \<le> unat (capacity c)"

section \<open>Abstract specification\<close>

text \<open>The contract: a list of (hash, plan) pairs, most recently used first, at most
  \<open>cap\<close> long.\<close>

definition node_pair :: "'f PlanCache \<Rightarrow> nat \<Rightarrow> u64 \<times> 'f" where
  "node_pair c a = (subset_hash (the (nodes c a)), func (the (nodes c a)))"

definition cache_abs :: "'f PlanCache \<Rightarrow> (u64 \<times> 'f) list" where
  "cache_abs c = map (node_pair c) (lru_list c)"

definition touch :: "u64 \<Rightarrow> 'f \<Rightarrow> (u64 \<times> 'f) list \<Rightarrow> (u64 \<times> 'f) list" where
  "touch k f xs = (k, f) # AList.delete k xs"

definition spec_lookup :: "(u64 \<times> 'f) list \<Rightarrow> u64 \<Rightarrow> (u64 \<times> 'f) list" where
  "spec_lookup xs k = (case map_of xs k of None \<Rightarrow> xs | Some f \<Rightarrow> touch k f xs)"

definition spec_insert :: "nat \<Rightarrow> (u64 \<times> 'f) list \<Rightarrow> u64 \<Rightarrow> 'f \<Rightarrow> (u64 \<times> 'f) list" where
  "spec_insert cap xs k f =
     (case map_of xs k of
        Some _ \<Rightarrow> touch k f xs
      | None \<Rightarrow> (k, f) # (if length xs \<ge> cap then butlast xs else xs))"

datatype 'f cache_op = Lookup u64 'f | Insert u64 'f

text \<open>The answer of an operation: nothing for an insertion; the returned Boolean with the value of
  \<open>out_func\<close> for a lookup.\<close>

type_synonym 'f cache_answer = "(bool \<times> 'f) option"

fun spec_op :: "nat \<Rightarrow> (u64 \<times> 'f) list \<Rightarrow> 'f cache_op \<Rightarrow> (u64 \<times> 'f) list" where
  "spec_op cap xs (Lookup k _) = spec_lookup xs k"
| "spec_op cap xs (Insert k f) = spec_insert cap xs k f"

fun op_key :: "'f cache_op \<Rightarrow> u64" where
  "op_key (Lookup k _) = k"
| "op_key (Insert k _) = k"

text \<open>What a lookup has to answer: whether the hash is cached, and the function that the caller's
  variable holds afterwards.\<close>

fun spec_answer :: "(u64 \<times> 'f) list \<Rightarrow> 'f cache_op \<Rightarrow> 'f cache_answer" where
  "spec_answer xs (Lookup k out) = Some (case map_of xs k of None \<Rightarrow> (False, out) | Some f \<Rightarrow> (True, f))"
| "spec_answer xs (Insert k f) = None"

fun spec_answers :: "nat \<Rightarrow> (u64 \<times> 'f) list \<Rightarrow> 'f cache_op list \<Rightarrow> 'f cache_answer list" where
  "spec_answers cap xs [] = []"
| "spec_answers cap xs (x # ops) = spec_answer xs x # spec_answers cap (spec_op cap xs x) ops"

text \<open>The two public methods as one step, and a sequence of calls with the answers of its lookups.\<close>

fun cache_step :: "'f PlanCache \<Rightarrow> 'f cache_op \<Rightarrow> cpp_error + ('f PlanCache \<times> 'f cache_answer)" where
  "cache_step c (Lookup k out) =
     (case lookup_plan c k out of Inl e \<Rightarrow> Inl e | Inr (c', hit, f) \<Rightarrow> Inr (c', Some (hit, f)))"
| "cache_step c (Insert k f) = (case insert_plan c k f of Inl e \<Rightarrow> Inl e | Inr c' \<Rightarrow> Inr (c', None))"

fun cache_run :: "'f PlanCache \<Rightarrow> 'f cache_op list \<Rightarrow> cpp_error + ('f PlanCache \<times> 'f cache_answer list)" where
  "cache_run c [] = Inr (c, [])"
| "cache_run c (x # xs) =
     (case cache_step c x of
        Inl e \<Rightarrow> Inl e
      | Inr (c', a) \<Rightarrow> map_sum id (apsnd ((#) a)) (cache_run c' xs))"

section \<open>Lemmas on the specification\<close>

definition pos :: "u64 \<Rightarrow> (u64 \<times> 'f) list \<Rightarrow> nat" where
  "pos k xs = length (takeWhile (\<lambda>p. fst p \<noteq> k) xs)"

lemma pos_Cons [simp]: "pos k (x # xs) = (if fst x = k then 0 else Suc (pos k xs))"
  by (simp add: pos_def)

lemma pos_delete_le: "pos k (AList.delete j xs) \<le> pos k xs" if "j \<noteq> k"
  using that by (induction xs) (auto simp: pos_def AList.delete_eq)

lemma map_of_butlast:
  assumes "map_of xs k = Some f" "Suc (pos k xs) < length xs"
  shows "map_of (butlast xs) k = Some f \<and> pos k (butlast xs) = pos k xs"
  using assms by (induction xs) (auto split: if_splits)

lemma map_of_touch: "map_of (touch k f xs) = (map_of xs)(k \<mapsto> f)"
  by (auto simp: touch_def delete_conv)

text \<open>An operation on another key moves an entry back by at most one place, and drops it only
  from the last place of a full cache.\<close>

lemma spec_op_other:
  assumes "map_of xs k = Some f" "op_key x \<noteq> k" "Suc (pos k xs) < cap" "length xs \<le> cap"
  shows "map_of (spec_op cap xs x) k = Some f \<and> pos k (spec_op cap xs x) \<le> Suc (pos k xs)"
proof (cases x)
  case (Lookup j out)
  with assms show ?thesis
    using pos_delete_le [of j k xs]
    by (auto simp: spec_lookup_def map_of_touch touch_def delete_conv split: option.splits)
next
  case (Insert j g)
  show ?thesis
  proof (cases "map_of xs j = None \<and> cap \<le> length xs")
    case True
    with assms have "map_of (butlast xs) k = Some f \<and> pos k (butlast xs) = pos k xs"
      by (intro map_of_butlast) auto
    with True Insert assms show ?thesis by (auto simp: spec_insert_def)
  next
    case False
    with Insert assms show ?thesis
      using pos_delete_le [of j k xs]
      by (auto simp: spec_insert_def map_of_touch touch_def delete_conv split: option.splits)
  qed
qed

lemma length_touch: "map_of xs k = Some f' \<Longrightarrow> length (touch k f xs) \<le> length xs"
proof -
  assume "map_of xs k = Some f'"
  then have "(k, f') \<in> set xs" by (rule map_of_SomeD)
  then have "length (filter (\<lambda>p. k \<noteq> fst p) xs) < length xs"
    by (intro length_filter_less [where x = "(k, f')"]) auto
  then show ?thesis by (simp add: touch_def AList.delete_eq case_prod_unfold)
qed

lemma length_spec_op:
  assumes "0 < cap" "length xs \<le> cap"
  shows "length (spec_op cap xs x) \<le> cap"
  using assms length_touch [of xs "op_key x"]
  by (cases x) (auto simp: spec_lookup_def spec_insert_def split: option.splits dest: le_trans)

section \<open>Interface\<close>

text \<open>
  What a client of the cache may rely on: the operations never fail, keep the invariant, answer as
  the abstract recency list says and act on it as the specification says. Everything else follows.
\<close>

locale lru_contract =
  fixes step :: "'c \<Rightarrow> 'f cache_op \<Rightarrow> cpp_error + ('c \<times> 'f cache_answer)"
    and abs :: "'c \<Rightarrow> (u64 \<times> 'f) list"
    and inv :: "'c \<Rightarrow> bool"
    and cap :: "'c \<Rightarrow> nat"
  assumes cap_pos: "inv c \<Longrightarrow> 0 < cap c"
    and abs_bound: "inv c \<Longrightarrow> length (abs c) \<le> cap c"
    and step_refines: "inv c \<Longrightarrow> \<exists>c'. step c x = Inr (c', spec_answer (abs c) x) \<and> inv c' \<and>
      cap c' = cap c \<and> abs c' = spec_op (cap c) (abs c) x"
begin

fun run :: "'c \<Rightarrow> 'f cache_op list \<Rightarrow> cpp_error + ('c \<times> 'f cache_answer list)" where
  "run c [] = Inr (c, [])"
| "run c (x # xs) =
     (case step c x of Inl e \<Rightarrow> Inl e | Inr (c', a) \<Rightarrow> map_sum id (apsnd ((#) a)) (run c' xs))"

lemma run_refines:
  "inv c \<Longrightarrow> \<exists>c'. run c xs = Inr (c', spec_answers (cap c) (abs c) xs) \<and> inv c' \<and> cap c' = cap c \<and>
    abs c' = foldl (spec_op (cap c)) (abs c) xs"
proof (induction xs arbitrary: c)
  case (Cons x xs)
  obtain c1 where "step c x = Inr (c1, spec_answer (abs c) x)" "inv c1" "cap c1 = cap c"
    "abs c1 = spec_op (cap c) (abs c) x"
    using step_refines [OF Cons.prems] by blast
  with Cons.IH [of c1] show ?case by auto
qed simp

lemma spec_survives:
  assumes "map_of ys k = Some f" "\<forall>x \<in> set xs. op_key x \<noteq> k" "pos k ys + length xs < n" "length ys \<le> n"
  shows "map_of (foldl (spec_op n) ys xs) k = Some f"
  using assms
proof (induction xs arbitrary: ys)
  case (Cons x xs)
  then have "map_of (spec_op n ys x) k = Some f \<and> pos k (spec_op n ys x) \<le> Suc (pos k ys)"
    by (intro spec_op_other) auto
  moreover have "length (spec_op n ys x) \<le> n" using Cons.prems by (intro length_spec_op) auto
  ultimately show ?case using Cons by simp
qed simp

lemma run_survives:
  assumes "inv c" "map_of (abs c) k = Some f" "pos k (abs c) = 0"
    and "\<forall>x \<in> set xs. op_key x \<noteq> k" "length xs < cap c"
  shows "\<exists>c' answers. run c xs = Inr (c', answers) \<and> inv c' \<and> map_of (abs c') k = Some f"
  using run_refines [OF assms(1), of xs] spec_survives [OF assms(2,4), of "cap c"] assms abs_bound
  by fastforce

end

section \<open>Refinement\<close>

lemma PlanCache_new_wf: "0 < m \<Longrightarrow> cache_wf (PlanCache_new m)"
  by (simp add: cache_wf_def PlanCache_new_def unat_gt_0)

lemma cache_wf_node: "cache_wf c \<Longrightarrow> a \<in> set (lru_list c) \<Longrightarrow> \<exists>e. nodes c a = Some e"
  by (auto simp: cache_wf_def)

lemma cache_wf_keys:
  "cache_wf c \<Longrightarrow> map_of (cache_map c) k = Some a \<longleftrightarrow> (\<exists>e. nodes c a = Some e \<and> subset_hash e = k)"
  by (simp only: cache_wf_def)

lemma cache_wf_hash_inj:
  assumes "cache_wf c" "nodes c a = Some e" "nodes c b = Some e'" "subset_hash e = subset_hash e'"
  shows "a = b"
  using assms by (metis cache_wf_def option.inject)

lemma cache_wf_lookup:
  "cache_wf c \<Longrightarrow> map_of (cache_map c) k = Some a \<Longrightarrow>
    \<exists>e. nodes c a = Some e \<and> subset_hash e = k \<and> a \<in> set (lru_list c)"
  by (simp add: cache_wf_def) blast

lemma map_of_node_pairs:
  assumes "cache_wf c" "set as \<subseteq> set (lru_list c)"
  shows "map_of (map (node_pair c) as) k =
    (case map_of (cache_map c) k of
       Some a \<Rightarrow> if a \<in> set as then Some (func (the (nodes c a))) else None
     | None \<Rightarrow> None)"
  using assms(2)
proof (induction as)
  case (Cons b bs)
  obtain e where e: "nodes c b = Some e" using cache_wf_node [OF assms(1)] Cons.prems by auto
  then have "map_of (cache_map c) k = Some b \<longleftrightarrow> subset_hash e = k"
    using assms(1) by (simp add: cache_wf_def)
  with Cons e show ?case by (auto simp: node_pair_def split: option.splits)
qed (simp split: option.split)

lemma map_of_cache_abs:
  assumes "cache_wf c"
  shows "map_of (cache_abs c) k = map_option (\<lambda>a. func (the (nodes c a))) (map_of (cache_map c) k)"
  using map_of_node_pairs [OF assms, of "lru_list c" k] cache_wf_lookup [OF assms, of k]
  by (auto simp: cache_abs_def split: option.splits)

lemma delete_node_pairs:
  assumes "cache_wf c" "nodes c a = Some e" "set as \<subseteq> set (lru_list c)"
  shows "AList.delete (subset_hash e) (map (node_pair c) as) = map (node_pair c) (removeAll a as)"
proof -
  have "subset_hash e \<noteq> fst (node_pair c b) \<longleftrightarrow> a \<noteq> b" if b: "b \<in> set as" for b
  proof -
    obtain e' where "nodes c b = Some e'" using cache_wf_node [OF assms(1)] assms(3) b by blast
    then show ?thesis
      using cache_wf_hash_inj [OF assms(1,2), of b e'] assms(2) by (auto simp: node_pair_def)
  qed
  then have "filter (\<lambda>b. subset_hash e \<noteq> fst (node_pair c b)) as = filter (\<lambda>b. a \<noteq> b) as"
    by (rule filter_cong [OF refl])
  then show ?thesis
    by (simp add: AList.delete_eq case_prod_unfold filter_map o_def removeAll_filter_not_eq)
qed

text \<open>A hit: the node is updated in place and its address moves to the front.\<close>

lemma hit_refines:
  assumes wf: "cache_wf c" and hit: "map_of (cache_map c) k = Some a" and e: "nodes c a = Some e"
    and e': "subset_hash e' = subset_hash e"
  defines "c' \<equiv> splice_front (c\<lparr>nodes := (nodes c)(a \<mapsto> e')\<rparr>) a"
  shows "cache_wf c' \<and> cache_abs c' = touch k (func e') (cache_abs c)"
proof
  have a: "a \<in> set (lru_list c)" and k: "subset_hash e = k" using cache_wf_lookup [OF wf hit] e by auto
  have d: "distinct (lru_list c)" using wf by (simp add: cache_wf_def)
  have len: "length (lru_list c') = length (lru_list c)"
    using a by (simp add: c'_def splice_front_def length_remove1) (metis Suc_pred length_pos_if_in_set)
  have set: "set (lru_list c') = set (lru_list c)"
    using a d by (auto simp: c'_def splice_front_def)
  show "cache_wf c'"
    using wf len set d e e' a k
    by (auto simp: cache_wf_def c'_def splice_front_def)
  have "map (node_pair c') (remove1 a (lru_list c)) = map (node_pair c) (remove1 a (lru_list c))"
    using d by (auto simp: node_pair_def c'_def splice_front_def)
  moreover have "node_pair c' a = (k, func e')"
    using e' k by (simp add: node_pair_def c'_def splice_front_def)
  moreover have "lru_list c' = a # removeAll a (lru_list c)"
    using d by (simp add: c'_def splice_front_def distinct_remove1_removeAll)
  ultimately show "cache_abs c' = touch k (func e') (cache_abs c)"
    using delete_node_pairs [OF wf e, of "lru_list c"] d k
    by (simp add: cache_abs_def touch_def distinct_remove1_removeAll)
qed

text \<open>Evicting the tail drops the last pair; pushing a fresh node adds one in front.\<close>

lemma length_delete_key:
  assumes "distinct (map fst al)" "map_of al k = Some v"
  shows "Suc (length (AList.delete k al)) = length al"
proof -
  have "length (AList.delete k al) = length (removeAll k (map fst al))"
    by (metis delete_keys length_map)
  also have "\<dots> = length (remove1 k (map fst al))"
    using assms(1) by (simp add: distinct_remove1_removeAll)
  also have "\<dots> = length al - 1"
    using assms(2) by (simp add: length_remove1 map_of_SomeD [THEN imageI, of _ _ _ fst, simplified])
  finally show ?thesis using assms(2) by (cases al) auto
qed

lemma set_butlast_distinct: "distinct xs \<Longrightarrow> xs \<noteq> [] \<Longrightarrow> set (butlast xs) = set xs - {last xs}"
  by (cases xs rule: rev_cases) auto

lemma evict_refines:
  assumes wf: "cache_wf c" and ne: "lru_list c \<noteq> []"
  shows "\<exists>c'. evict_tail c = Inr c' \<and> cache_wf c' \<and> capacity c' = capacity c \<and>
    cache_abs c' = butlast (cache_abs c) \<and> length (lru_list c') < unat (capacity c) \<and>
    (\<forall>k. map_of (cache_map c) k = None \<longrightarrow> map_of (cache_map c') k = None)"
proof -
  let ?t = "last (lru_list c)"
  have "?t \<in> set (lru_list c)" using ne by simp
  then obtain e where e: "nodes c ?t = Some e" using cache_wf_node [OF wf] by blast
  then have m: "map_of (cache_map c) (subset_hash e) = Some ?t" using wf by (simp add: cache_wf_def)
  have d: "distinct (lru_list c)" "distinct (map fst (cache_map c))" using wf by (simp_all add: cache_wf_def)
  let ?c = "c\<lparr>cache_map := AList.delete (subset_hash e) (cache_map c),
    lru_list := butlast (lru_list c), nodes := (nodes c)(?t := None)\<rparr>"
  have "evict_tail c = Inr ?c" using e ne by (simp add: evict_tail_def Let_def)
  moreover have keys: "map_of (cache_map ?c) k = Some a \<longleftrightarrow>
      (\<exists>e'. nodes ?c a = Some e' \<and> subset_hash e' = k)" for k a
  proof (cases "k = subset_hash e")
    case True
    then have "\<not> (\<exists>e'. nodes ?c a = Some e' \<and> subset_hash e' = k)"
      using cache_wf_hash_inj [OF wf e, of a] by auto
    with True show ?thesis by (simp add: delete_conv')
  next
    case False
    then have "nodes ?c a = Some e' \<and> subset_hash e' = k \<longleftrightarrow> nodes c a = Some e' \<and> subset_hash e' = k" for e'
      using e by auto
    with False cache_wf_keys [OF wf, of k a] show ?thesis by (simp add: delete_conv')
  qed
  moreover have "cache_wf ?c"
  proof -
    have "nodes ?c a \<noteq> None \<longleftrightarrow> a \<in> set (lru_list ?c)" for a
      using wf set_butlast_distinct [OF d(1) ne] by (auto simp: cache_wf_def)
    moreover have "a \<in> set (lru_list ?c) \<Longrightarrow> a < next_node ?c" for a
      using wf by (auto simp: cache_wf_def dest: in_set_butlastD)
    moreover have "length (cache_map ?c) = length (lru_list ?c)"
      using wf length_delete_key [OF d(2) m] by (simp add: cache_wf_def)
    moreover have "distinct (map fst (cache_map ?c))" using d(2) by (simp add: distinct_delete)
    moreover have "length (lru_list ?c) \<le> unat (capacity ?c)" "0 < unat (capacity ?c)" "distinct (lru_list ?c)"
      using wf d(1) by (auto simp: cache_wf_def distinct_butlast)
    ultimately show ?thesis using keys unfolding cache_wf_def by blast
  qed
  moreover have "cache_abs ?c = butlast (cache_abs c)"
    using set_butlast_distinct [OF d(1) ne]
    by (auto simp: cache_abs_def node_pair_def map_butlast [symmetric])
  moreover have "length (lru_list ?c) < unat (capacity c)"
    using wf ne by (auto simp: cache_wf_def)
  ultimately show ?thesis by (intro exI [of _ ?c]) (auto simp: delete_conv')
qed

lemma length_update_new: "map_of al k = None \<Longrightarrow> length (AList.update k v al) = Suc (length al)"
  by (induction al) (auto split: if_splits)

lemma push_refines:
  assumes wf: "cache_wf c" and room: "length (lru_list c) < unat (capacity c)"
    and miss: "map_of (cache_map c) k = None"
  shows "cache_wf (push_front_plan c k f) \<and> cache_abs (push_front_plan c k f) = (k, f) # cache_abs c"
proof
  have fresh: "next_node c \<notin> set (lru_list c)" using wf by (auto simp: cache_wf_def)
  then have dead: "nodes c (next_node c) = None" using wf by (auto simp: cache_wf_def)
  have len: "length (AList.update k a (cache_map c)) = Suc (length (cache_map c))" for a
    using miss by (simp add: length_update_new)
  let ?c = "push_front_plan c k f"
  have keys: "map_of (cache_map ?c) j = Some a \<longleftrightarrow> (\<exists>e'. nodes ?c a = Some e' \<and> subset_hash e' = j)" for j a
    using cache_wf_keys [OF wf, of j a] miss dead
    by (cases "a = next_node c"; cases "j = k") (auto simp: push_front_plan_def Let_def update_conv')
  show "cache_wf ?c"
  proof -
    have "nodes ?c a \<noteq> None \<longleftrightarrow> a \<in> set (lru_list ?c)" for a
      using wf by (auto simp: cache_wf_def push_front_plan_def Let_def)
    moreover have "a \<in> set (lru_list ?c) \<Longrightarrow> a < next_node ?c" for a
      using wf by (auto simp: cache_wf_def push_front_plan_def Let_def)
    moreover have "length (cache_map ?c) = length (lru_list ?c)" "distinct (map fst (cache_map ?c))"
      "length (lru_list ?c) \<le> unat (capacity ?c)" "0 < unat (capacity ?c)" "distinct (lru_list ?c)"
      using wf len room fresh by (auto simp: cache_wf_def push_front_plan_def Let_def distinct_update)
    ultimately show ?thesis using keys unfolding cache_wf_def by blast
  qed
  have "map (node_pair (push_front_plan c k f)) (lru_list c) = map (node_pair c) (lru_list c)"
    using fresh by (auto simp: node_pair_def push_front_plan_def Let_def)
  then show "cache_abs (push_front_plan c k f) = (k, f) # cache_abs c"
    by (simp add: cache_abs_def node_pair_def push_front_plan_def Let_def)
qed


lemma step_refines_spec:
  assumes wf: "cache_wf c"
  shows "\<exists>c'. cache_step c x = Inr (c', spec_answer (cache_abs c) x) \<and> cache_wf c' \<and>
    unat (capacity c') = unat (capacity c) \<and> cache_abs c' = spec_op (unat (capacity c)) (cache_abs c) x"
proof (cases "map_of (cache_map c) (op_key x)")
  case (Some a)
  then obtain e where e: "nodes c a = Some e" using cache_wf_lookup [OF wf] by blast
  show ?thesis
    using hit_refines [OF wf Some e, of "e\<lparr>hit_count := hit_count e + 1\<rparr>"]
      hit_refines [OF wf Some e] Some e map_of_cache_abs [OF wf, of "op_key x"]
    by (cases x) (auto simp: lookup_plan_def insert_plan_def spec_lookup_def spec_insert_def
        splice_front_def Let_def)
next
  case None
  note abs_None = map_of_cache_abs [OF wf, of "op_key x", unfolded None, simplified]
  show ?thesis
  proof (cases x)
    case (Lookup k out)
    with wf None abs_None show ?thesis by (simp add: lookup_plan_def spec_lookup_def)
  next
    case (Insert k f)
    have len: "length (cache_map c) = length (lru_list c)" "length (cache_abs c) = length (lru_list c)"
      using wf by (simp_all add: cache_wf_def cache_abs_def)
    show ?thesis
    proof (cases "unat (capacity c) \<le> length (lru_list c)")
      case True
      with wf have "lru_list c \<noteq> []" by (auto simp: cache_wf_def)
      then obtain c1 where "evict_tail c = Inr c1" "cache_wf c1" "capacity c1 = capacity c"
        "cache_abs c1 = butlast (cache_abs c)" "length (lru_list c1) < unat (capacity c)"
        "map_of (cache_map c1) k = None"
        using evict_refines [OF wf] None Insert by auto
      with True Insert None abs_None len show ?thesis
        using push_refines [of c1 k f] 
        by (auto simp: insert_plan_def spec_insert_def push_front_plan_def Let_def)
    next
      case False
      with Insert None abs_None len show ?thesis
        using push_refines [OF wf, of k f]
        by (auto simp: insert_plan_def spec_insert_def push_front_plan_def Let_def)
    qed
  qed
qed

interpretation plan_cache: lru_contract cache_step cache_abs cache_wf "\<lambda>c. unat (capacity c)"
  by unfold_locales (simp_all add: step_refines_spec, simp_all add: cache_wf_def cache_abs_def)

lemma plan_cache_run: "plan_cache.run c xs = cache_run c xs"
  by (induction xs arbitrary: c) (auto split: sum.splits)

lemma lookup_plan_result:
  assumes "cache_wf c"
  shows "\<exists>c'. cache_wf c' \<and> lookup_plan c k out =
    Inr (c', map_of (cache_abs c) k \<noteq> None, case map_of (cache_abs c) k of None \<Rightarrow> out | Some f \<Rightarrow> f)"
proof (cases "map_of (cache_map c) k")
  case None
  with assms show ?thesis by (simp add: lookup_plan_def map_of_cache_abs)
next
  case (Some a)
  then obtain e where e: "nodes c a = Some e" using cache_wf_lookup [OF assms] by blast
  then show ?thesis
    using assms Some hit_refines [OF assms Some e, of "e\<lparr>hit_count := hit_count e + 1\<rparr>"]
    by (auto simp: lookup_plan_def map_of_cache_abs Let_def)
qed

lemma map_of_spec_insert_same: "map_of (spec_insert n xs k f) k = Some f \<and> pos k (spec_insert n xs k f) = 0"
  by (auto simp: spec_insert_def touch_def split: option.splits)

section \<open>Properties\<close>

text \<open>C6: the plan cache refines the LRU specification. From a fresh cache of positive capacity,
  any sequence of lookups and insertions runs without touching a dead iterator or an empty
  list. Every lookup answers as the abstract recency list does: it reports a hit exactly when the
  hash is cached and then hands out the function stored last under it, and leaves the caller's
  function alone otherwise. The recency order and contents of the result are those of the list,
  and the cache never holds more plans than its capacity.\<close>

theorem plan_cache_refines_lru:
  assumes "0 < max_plans"
  shows "\<exists>c. cache_run (PlanCache_new max_plans) ops = Inr (c, spec_answers (unat max_plans) [] ops) \<and>
    cache_wf c \<and> cache_abs c = foldl (spec_op (unat max_plans)) [] ops \<and>
    length (lru_list c) \<le> unat max_plans \<and> length (cache_map c) = length (lru_list c)"
proof -
  obtain c where c: "cache_run (PlanCache_new max_plans) ops = Inr (c, spec_answers (unat max_plans) [] ops)"
    "cache_wf c" "unat (capacity c) = unat max_plans" "cache_abs c = foldl (spec_op (unat max_plans)) [] ops"
    using plan_cache.run_refines [OF PlanCache_new_wf [OF assms], of ops]
    by (auto simp: plan_cache_run PlanCache_new_def cache_abs_def)
  then show ?thesis by (auto simp: cache_wf_def)
qed

theorem plan_cache_refines_lru_witness:
  "\<exists>c. cache_run (PlanCache_new 2)
      [Insert 0xA1 (42::nat), Insert 0xB2 100, Lookup 0xA1 0, Insert 0xC3 999, Lookup 0xB2 7] =
      Inr (c, [None, None, Some (True, 42), None, Some (False, 7)]) \<and>
    cache_abs c = [(0xC3, 999), (0xA1, 42)]"
  using plan_cache_refines_lru [of 2
      "[Insert 0xA1 (42::nat), Insert 0xB2 100, Lookup 0xA1 0, Insert 0xC3 999, Lookup 0xB2 7]"]
  by (auto simp: spec_insert_def spec_lookup_def touch_def)

text \<open>a lookup reports a hit exactly when the plan is cached and then hands out the plan
  that was stored last under that hash; on a miss the caller's function is left alone. It never
  fails on a well-formed cache and keeps it well-formed.\<close>

theorem lookup_plan_correct:
  assumes "cache_wf c"
  shows "\<exists>c'. cache_wf c' \<and> cache_abs c' = spec_lookup (cache_abs c) k \<and> lookup_plan c k out =
    Inr (c', map_of (cache_abs c) k \<noteq> None, case map_of (cache_abs c) k of None \<Rightarrow> out | Some f \<Rightarrow> f)"
  using lookup_plan_result [OF assms, of k out] step_refines_spec [OF assms, of "Lookup k out"] by auto

theorem lookup_plan_correct_witness:
  "\<exists>c'. lookup_plan (push_front_plan (PlanCache_new 3) 7 (5::nat)) 7 0 = Inr (c', True, 5)"
proof -
  have "cache_wf (push_front_plan (PlanCache_new 3) 7 (5::nat))"
    using push_refines [OF PlanCache_new_wf [of 3], of 7 "5::nat"] by (simp add: PlanCache_new_def)
  from lookup_plan_correct [OF this, of 7 0] show ?thesis
    by (auto simp: push_front_plan_def PlanCache_new_def cache_abs_def node_pair_def Let_def)
qed

text \<open>a plan just inserted survives. Fewer than \<open>capacity\<close> further operations, lookups or
  insertions, on other hashes cannot evict it: it is still found, with the same function.\<close>

theorem inserted_plan_survives:
  assumes "cache_wf c" "insert_plan c k f = Inr c1"
    and "\<forall>x \<in> set ops. op_key x \<noteq> k" "length ops < unat (capacity c)"
  shows "\<exists>c2 c3 answers. cache_run c1 ops = Inr (c2, answers) \<and> lookup_plan c2 k out = Inr (c3, True, f)"
proof -
  have c1: "cache_wf c1" "unat (capacity c1) = unat (capacity c)"
    "cache_abs c1 = spec_insert (unat (capacity c)) (cache_abs c) k f"
    using step_refines_spec [OF assms(1), of "Insert k f"] assms(2) by auto
  then obtain c2 answers where "cache_run c1 ops = Inr (c2, answers)" "cache_wf c2" "map_of (cache_abs c2) k = Some f"
    using plan_cache.run_survives [OF c1(1), of k f ops] assms(3,4)
      map_of_spec_insert_same [of "unat (capacity c)" "cache_abs c" k f]
    by (auto simp: plan_cache_run)
  with lookup_plan_result [of c2 k out] show ?thesis by auto
qed

theorem inserted_plan_survives_witness:
  "\<exists>c1 c2 c3 answers. insert_plan (PlanCache_new 2) 0xA1 (42::nat) = Inr c1 \<and>
    cache_run c1 [Insert 0xB2 100] = Inr (c2, answers) \<and> lookup_plan c2 0xA1 0 = Inr (c3, True, 42)"
proof -
  obtain c1 where c1: "insert_plan (PlanCache_new 2) 0xA1 (42::nat) = Inr c1"
    by (simp add: insert_plan_def PlanCache_new_def)
  have "\<exists>c2 c3 answers. cache_run c1 [Insert 0xB2 100] = Inr (c2, answers) \<and> lookup_plan c2 0xA1 0 = Inr (c3, True, 42)"
    by (rule inserted_plan_survives [OF PlanCache_new_wf [of 2] c1]) (simp_all add: PlanCache_new_def)
  with c1 show ?thesis by blast
qed

text \<open>a cache constructed with capacity zero cannot take a single plan: the very first
  insertion decrements the end iterator of an empty list.\<close>

theorem insert_plan_capacity_zero: "insert_plan (PlanCache_new 0) h f = Inl EmptyAccess"
  by (simp add: insert_plan_def PlanCache_new_def evict_tail_def)

end
