(* ===== verification/Wal.thy ===== *)
theory Wal
  imports Eureka_Prelude
begin

text \<open>
  The write-ahead log of \<^verbatim>\<open>AdaptiveIngester\<close> (\<^verbatim>\<open>src/lex/ingest/adaptive_ingester.cpp\<close>):
  \<open>append_wal_entry\<close>, \<open>truncate_wal\<close>, \<open>recover_from_wal\<close>. The file \<open>staging_commit.wal\<close> is
  shared by every ingester of the process, so it is a value of its own: \<open>None\<close> when it does
  not exist, \<open>Some s\<close> with its bytes otherwise. Whether an open succeeds is an argument of the
  operation. Each operation holds \<open>wal_mutex\<close> and is one atomic step.
\<close>

section \<open>Model\<close>

type_synonym wal_disk = "string option"

abbreviation nl :: char where "nl \<equiv> CHR 0x0A"
abbreviation cr :: char where "cr \<equiv> CHR 0x0D"

definition encode_batch :: "string list \<Rightarrow> string" where
  "encode_batch batch = concat (map (\<lambda>line. line @ [nl]) batch)"

definition append_wal_entry :: "bool \<Rightarrow> string list \<Rightarrow> wal_disk \<Rightarrow> bool \<times> wal_disk" where
  "append_wal_entry can_open batch wal =
     (if \<not> can_open then (False, wal)
      else (True, Some (case wal of None \<Rightarrow> encode_batch batch | Some s \<Rightarrow> s @ encode_batch batch)))"

definition truncate_wal :: "bool \<Rightarrow> wal_disk \<Rightarrow> wal_disk" where
  "truncate_wal can_open wal = (if can_open then Some [] else wal)"

text \<open>The sequence of lines \<open>std::getline\<close> yields until it fails: the text between newlines, and
  a last unterminated line when it is not empty.\<close>

fun getlines :: "string \<Rightarrow> string \<Rightarrow> string list" where
  "getlines acc [] = (if acc = [] then [] else [rev acc])"
| "getlines acc (c # cs) = (if c = nl then rev acc # getlines [] cs else getlines (c # acc) cs)"

text \<open>The body of the recovery loop: empty lines are dropped, one trailing \<open>'\r'\<close> is removed.\<close>

definition recover_line :: "string \<Rightarrow> string list" where
  "recover_line line =
     (if line \<noteq> [] then [if last line = cr then butlast line else line] else [])"

definition recover_from_wal :: "bool \<Rightarrow> wal_disk \<Rightarrow> string list" where
  "recover_from_wal can_open wal =
     (if \<not> can_open then []
      else case wal of None \<Rightarrow> [] | Some s \<Rightarrow> concat (map recover_line (getlines [] s)))"

text \<open>Every write ends with a newline, so the log is empty or ends with one.\<close>

definition wal_wf :: "wal_disk \<Rightarrow> bool" where
  "wal_wf wal \<longleftrightarrow> (case wal of None \<Rightarrow> True | Some s \<Rightarrow> s = [] \<or> last s = nl)"

text \<open>A line the log can represent, and a line it gives back unchanged.\<close>

definition line_ok :: "string \<Rightarrow> bool" where "line_ok line \<longleftrightarrow> nl \<notin> set line"

definition line_clean :: "string \<Rightarrow> bool" where
  "line_clean line \<longleftrightarrow> nl \<notin> set line \<and> line \<noteq> [] \<and> last line \<noteq> cr"

section \<open>Lemmas\<close>

lemma getlines_line: "nl \<notin> set line \<Longrightarrow> getlines acc (line @ nl # rest) = (rev acc @ line) # getlines [] rest"
  by (induction line arbitrary: acc) auto

lemma getlines_encode: "\<forall>l \<in> set batch. line_ok l \<Longrightarrow> getlines [] (encode_batch batch @ rest) = batch @ getlines [] rest"
  by (induction batch) (auto simp: encode_batch_def line_ok_def getlines_line)

lemma getlines_append_nl:
  "s = [] \<and> acc = [] \<or> s \<noteq> [] \<and> last s = nl \<Longrightarrow> getlines acc (s @ t) = getlines acc s @ getlines [] t"
  by (induction acc s rule: getlines.induct) (auto split: if_splits)

lemma encode_batch_ends: "encode_batch b = [] \<or> last (encode_batch b) = nl"
  by (induction b rule: rev_induct) (auto simp: encode_batch_def)

lemma recover_line_clean: "line_clean l \<Longrightarrow> recover_line l = [l]"
  by (simp add: line_clean_def recover_line_def)

lemma recover_lines_clean: "\<forall>l \<in> set b. line_clean l \<Longrightarrow> concat (map recover_line b) = b"
  by (induction b) (auto simp: recover_line_clean)

lemma recover_after_append:
  assumes "wal_wf wal" "\<forall>l \<in> set b. line_ok l"
  shows "recover_from_wal True (snd (append_wal_entry True b wal)) =
    recover_from_wal True wal @ concat (map recover_line b)"
proof (cases wal)
  case None
  then show ?thesis
    using getlines_encode [OF assms(2), of "[]"] by (simp add: recover_from_wal_def append_wal_entry_def)
next
  case (Some s)
  with assms(1) have "getlines [] (s @ encode_batch b) = getlines [] s @ getlines [] (encode_batch b)"
    by (intro getlines_append_nl) (auto simp: wal_wf_def)
  with Some show ?thesis
    using getlines_encode [OF assms(2), of "[]"] by (simp add: recover_from_wal_def append_wal_entry_def)
qed

section \<open>Interface\<close>

text \<open>
  A durable log: after a truncation nothing is recovered, after an append the batch is recovered
  behind what was there. Its clients append batches and truncate on commit.
\<close>

locale durable_log =
  fixes append :: "string list \<Rightarrow> 'd \<Rightarrow> 'd"
    and clear :: "'d \<Rightarrow> 'd"
    and recover :: "'d \<Rightarrow> string list"
    and inv :: "'d \<Rightarrow> bool"
    and representable :: "string \<Rightarrow> bool"
    and norm :: "string \<Rightarrow> string list"
  assumes inv_append: "inv d \<Longrightarrow> inv (append b d)"
    and inv_clear: "inv d \<Longrightarrow> inv (clear d)"
    and recover_append: "inv d \<Longrightarrow> \<forall>l \<in> set b. representable l \<Longrightarrow>
      recover (append b d) = recover d @ concat (map norm b)"
    and recover_clear: "recover (clear d) = []"
begin

lemma recover_appends:
  "inv d \<Longrightarrow> \<forall>b \<in> set bs. \<forall>l \<in> set b. representable l \<Longrightarrow>
    recover (foldl (\<lambda>d b. append b d) d bs) = recover d @ concat (map norm (concat bs))"
  by (induction bs arbitrary: d) (auto simp: recover_append inv_append)

lemma recover_since_clear:
  "inv d \<Longrightarrow> \<forall>b \<in> set bs. \<forall>l \<in> set b. representable l \<Longrightarrow>
    recover (foldl (\<lambda>d b. append b d) (clear d) bs) = concat (map norm (concat bs))"
  using recover_appends [OF inv_clear] recover_clear by simp

end

interpretation wal: durable_log "\<lambda>b d. snd (append_wal_entry True b d)" "truncate_wal True"
    "recover_from_wal True" wal_wf line_ok recover_line
proof unfold_locales
  fix d b assume "wal_wf d"
  then show "wal_wf (snd (append_wal_entry True b d))"
    using encode_batch_ends [of b]
    by (auto simp: wal_wf_def append_wal_entry_def last_append split: option.splits)
qed (simp_all add: recover_after_append, simp_all add: truncate_wal_def wal_wf_def recover_from_wal_def)

section \<open>Properties\<close>

text \<open>C27: the log round-trips. Starting from a truncated log, whatever batches of lines without
  a newline character are appended, recovery returns their lines in order, except that empty
  lines are gone and one trailing carriage return per line is stripped; lines that are
  non-empty and do not end in a carriage return come back exactly.\<close>

theorem wal_roundtrip:
  assumes "wal_wf d" "\<forall>b \<in> set batches. \<forall>l \<in> set b. line_ok l"
  shows "recover_from_wal True (foldl (\<lambda>d b. snd (append_wal_entry True b d)) (truncate_wal True d) batches) =
      concat (map recover_line (concat batches)) \<and>
    ((\<forall>b \<in> set batches. \<forall>l \<in> set b. line_clean l) \<longrightarrow>
      recover_from_wal True (foldl (\<lambda>d b. snd (append_wal_entry True b d)) (truncate_wal True d) batches) =
        concat batches)"
proof -
  have r: "recover_from_wal True (foldl (\<lambda>d b. snd (append_wal_entry True b d)) (truncate_wal True d) batches) =
      concat (map recover_line (concat batches))"
    using assms by (rule wal.recover_since_clear)
  moreover have "(\<forall>b \<in> set batches. \<forall>l \<in> set b. line_clean l) \<longrightarrow>
      concat (map recover_line (concat batches)) = concat batches"
    using recover_lines_clean [of "concat batches"] by auto
  ultimately show ?thesis by simp
qed

theorem wal_roundtrip_witness:
  "recover_from_wal True (foldl (\<lambda>d b. snd (append_wal_entry True b d)) (truncate_wal True None)
     [[''{a}'', ''{b}''], [''{c}'']]) = [''{a}'', ''{b}'', ''{c}'']"
  using wal_roundtrip [of None "[[''{a}'', ''{b}''], [''{c}'']]"]
  by (simp add: wal_wf_def line_ok_def line_clean_def recover_line_def)

end
