(* ===== verification/Adaptive_Ingester.thy ===== *)
theory Adaptive_Ingester
  imports Row_Group Wal
begin

text \<open>
  \<^verbatim>\<open>AdaptiveIngester\<close> (\<^verbatim>\<open>include/lex/ingest/adaptive_ingester.hpp\<close>,
  \<^verbatim>\<open>src/lex/ingest/adaptive_ingester.cpp\<close>): slot assignment, transcoding of a batch of JSON lines
  into a row group, the staging path with its write-ahead log, and the buffer-depth counter.

  Two libraries are parameters. simdjson: \<open>ju line key\<close> is the result of
  \<open>doc[key].get_uint64()\<close> on the document parsed from \<open>line\<close> and \<open>js line key\<close> that of
  \<open>get_string()\<close>, \<open>None\<close> for any simdjson error (malformed line, missing key, wrong type);
  \<^verbatim>\<open>Line_Pipeline\<close> puts the parser of \<^verbatim>\<open>external/simdjson\<close> in their place.
  AarchGate's bit slicer: \<open>slice_n buf\<close> is what \<open>slice_n(buf, 64, planes, 64)\<close> leaves in
  \<open>planes\<close>.
\<close>

section \<open>Model\<close>

type_synonym json_u64 = "string \<Rightarrow> string \<Rightarrow> u64 option"
type_synonym json_str = "string \<Rightarrow> string \<Rightarrow> string option"
type_synonym slicer = "u64 list \<Rightarrow> u64 list"

record AdaptiveIngester =
  field_to_slot_map :: "string \<Rightarrow> u8 option"
  next_hot_slot :: u8
  next_warm_slot :: u8
  active_buffer_depth :: u64

definition AdaptiveIngester_new :: AdaptiveIngester where
  "AdaptiveIngester_new =
     \<lparr>field_to_slot_map = (\<lambda>_. None), next_hot_slot = 0, next_warm_slot = 0, active_buffer_depth = 0\<rparr>"

definition get_slot_for_field :: "AdaptiveIngester \<Rightarrow> string \<Rightarrow> u8" where
  "get_slot_for_field ing f = (case field_to_slot_map ing f of Some s \<Rightarrow> s | None \<Rightarrow> 0xFF)"

text \<open>The schema section of \<open>ingest_chunk\<close>, under \<open>schema_mutex\<close>: a field without a slot gets the
  next hot (or warm) one; then the slot is read back.\<close>

definition ensure_hot :: "string \<Rightarrow> AdaptiveIngester \<Rightarrow> AdaptiveIngester" where
  "ensure_hot f ing =
     (if field_to_slot_map ing f = None
      then ing\<lparr>field_to_slot_map := (field_to_slot_map ing)(f \<mapsto> next_hot_slot ing),
               next_hot_slot := next_hot_slot ing + 1\<rparr>
      else ing)"

definition ensure_warm :: "string \<Rightarrow> AdaptiveIngester \<Rightarrow> AdaptiveIngester" where
  "ensure_warm f ing =
     (if field_to_slot_map ing f = None
      then ing\<lparr>field_to_slot_map := (field_to_slot_map ing)(f \<mapsto> 32 + next_warm_slot ing),
               next_warm_slot := next_warm_slot ing + 1\<rparr>
      else ing)"

definition assign_slots :: "AdaptiveIngester \<Rightarrow> AdaptiveIngester \<times> u8 \<times> u8 \<times> u8" where
  "assign_slots ing =
     (let ing1 = ensure_hot ''status'' ing; ing2 = ensure_hot ''latency'' ing1;
          ing3 = ensure_warm ''trace_id'' ing2
      in (ing3, the (field_to_slot_map ing1 ''status''), the (field_to_slot_map ing2 ''latency''),
          the (field_to_slot_map ing3 ''trace_id'')))"

text \<open>The three field extractions of a row.\<close>

definition parse_status :: "json_u64 \<Rightarrow> string \<Rightarrow> u64" where
  "parse_status ju line = (case ju line ''status'' of Some v \<Rightarrow> v | None \<Rightarrow> 0)"

definition parse_latency :: "json_u64 \<Rightarrow> string \<Rightarrow> u64" where
  "parse_latency ju line =
     (let latency_res = ju line ''latency'';
          latency_res = (if latency_res = None then ju line ''latency_ms'' else latency_res)
      in case latency_res of Some v \<Rightarrow> v | None \<Rightarrow> 0)"

definition parse_trace :: "json_str \<Rightarrow> string \<Rightarrow> string option" where
  "parse_trace js line =
     (let trace_res = js line ''trace_id''
      in if trace_res = None then js line ''service'' else trace_res)"

definition update_zone :: "RowGroup \<Rightarrow> nat \<Rightarrow> u64 \<Rightarrow> RowGroup" where
  "update_zone rg slot v = rg\<lparr>zone_maps := (zone_maps rg)[slot := update_u64 (zone_maps rg ! slot) v]\<rparr>"

definition add_trace :: "RowGroup \<Rightarrow> string option \<Rightarrow> RowGroup" where
  "add_trace rg trace_res =
     (case trace_res of
        None \<Rightarrow> rg
      | Some t \<Rightarrow> rg\<lparr>string_bloom := bloom_add (string_bloom rg) t,
                     warm_dict_strings := warm_dict_strings rg @ [t]\<rparr>)"

text \<open>One iteration of the row loop; \<open>acc\<close> is the row group with the two block buffers.\<close>

definition ingest_row ::
  "json_u64 \<Rightarrow> json_str \<Rightarrow> nat \<Rightarrow> nat \<Rightarrow> nat \<Rightarrow> string \<Rightarrow>
   RowGroup \<times> u64 list \<times> u64 list \<Rightarrow> RowGroup \<times> u64 list \<times> u64 list" where
  "ingest_row ju js status_slot latency_slot i line acc =
     (case acc of (rg, status_buf, latency_buf) \<Rightarrow>
       let status_val = parse_status ju line;
           rg1 = update_zone rg status_slot status_val;
           lat_val = parse_latency ju line;
           rg2 = update_zone rg1 latency_slot lat_val;
           rg3 = add_trace rg2 (parse_trace js line)
       in (rg3, status_buf[i := status_val], latency_buf[i := lat_val]))"

text \<open>The row loop of a block: it stops at the end of the input, which is the same as skipping
  every later index.\<close>

definition ingest_rows ::
  "json_u64 \<Rightarrow> json_str \<Rightarrow> nat \<Rightarrow> nat \<Rightarrow> string list \<Rightarrow> nat \<Rightarrow>
   RowGroup \<times> u64 list \<times> u64 list \<Rightarrow> RowGroup \<times> u64 list \<times> u64 list" where
  "ingest_rows ju js status_slot latency_slot json_lines block_idx acc =
     foldl (\<lambda>acc i. let row_idx = block_idx * 64 + i
                    in if row_idx \<ge> length json_lines then acc
                       else ingest_row ju js status_slot latency_slot i (json_lines ! row_idx) acc)
       acc [0..<64]"

text \<open>The direct block write: plane \<open>bit\<close> of a column holds the word of block \<open>block_idx\<close> at
  word index \<open>bit * 1024 + block_idx\<close>.\<close>

definition write_planes ::
  "nat \<Rightarrow> nat \<Rightarrow> nat \<Rightarrow> u64 list \<Rightarrow> u64 list \<Rightarrow> u8 list \<Rightarrow> u8 list" where
  "write_planes status_slot latency_slot block_idx status_planes latency_planes planes =
     foldl (\<lambda>p b. store_u64
                (store_u64 p (plane_word_off status_slot b block_idx) (status_planes ! b))
                (plane_word_off latency_slot b block_idx) (latency_planes ! b))
       planes [0..<64]"

definition ingest_block ::
  "json_u64 \<Rightarrow> json_str \<Rightarrow> slicer \<Rightarrow> u8 \<Rightarrow> u8 \<Rightarrow> u8 \<Rightarrow> string list \<Rightarrow> nat \<Rightarrow> RowGroup \<Rightarrow> cpp_error + RowGroup" where
  "ingest_block ju js slice_n status_slot latency_slot trace_slot json_lines block_idx rg =
     (let ss = unat status_slot; ls = unat latency_slot;
          rg1 = set_block_presence rg (ucast status_slot) (of_nat block_idx);
          rg2 = set_block_presence rg1 (ucast latency_slot) (of_nat block_idx);
          rg3 = set_block_presence rg2 (ucast trace_slot) (of_nat block_idx)
      in if (ss + 1) * (64 * 8192) > length (hot_data_planes rg3) \<or>
            (ls + 1) * (64 * 8192) > length (hot_data_planes rg3) \<or>
            ss \<ge> length (zone_maps rg3) \<or> ls \<ge> length (zone_maps rg3)
         then Inl OutOfBounds
         else case ingest_rows ju js ss ls json_lines block_idx (rg3, replicate 64 0, replicate 64 0) of
           (rg4, status_buf, latency_buf) \<Rightarrow>
             Inr (rg4\<lparr>hot_data_planes :=
               write_planes ss ls block_idx (slice_n status_buf) (slice_n latency_buf) (hot_data_planes rg4)\<rparr>))"

fun ingest_blocks ::
  "json_u64 \<Rightarrow> json_str \<Rightarrow> slicer \<Rightarrow> u8 \<Rightarrow> u8 \<Rightarrow> u8 \<Rightarrow> string list \<Rightarrow> nat list \<Rightarrow> RowGroup \<Rightarrow> cpp_error + RowGroup" where
  "ingest_blocks ju js slice_n ss ls ts json_lines [] rg = Inr rg"
| "ingest_blocks ju js slice_n ss ls ts json_lines (b # bs) rg =
     (case ingest_block ju js slice_n ss ls ts json_lines b rg of
        Inl e \<Rightarrow> Inl e
      | Inr rg' \<Rightarrow> ingest_blocks ju js slice_n ss ls ts json_lines bs rg')"

definition num_blocks_for :: "nat \<Rightarrow> nat" where
  "num_blocks_for total_lines =
     (let num_blocks = (total_lines + 63) div 64 in if num_blocks > 1024 then 1024 else num_blocks)"

definition ingest_chunk ::
  "json_u64 \<Rightarrow> json_str \<Rightarrow> slicer \<Rightarrow> AdaptiveIngester \<Rightarrow> string list \<Rightarrow> cpp_error + (AdaptiveIngester \<times> RowGroup)" where
  "ingest_chunk ju js slice_n ing json_lines =
     (case assign_slots ing of (ing', status_slot, latency_slot, trace_slot) \<Rightarrow>
       case ingest_blocks ju js slice_n status_slot latency_slot trace_slot json_lines
              [0..<num_blocks_for (length json_lines)] (RowGroup_new 32 32) of
         Inl e \<Rightarrow> Inl e
       | Inr rg \<Rightarrow> Inr (ing', rg\<lparr>fingerprint_hash := 0xABC123987\<rparr>))"

text \<open>The row group that \<open>append_raw_batch\<close> makes of a batch.\<close>

definition staged_group :: "string list \<Rightarrow> RowGroup" where
  "staged_group raw_lines =
     (RowGroup_new 32 32)\<lparr>raw_chunk_buffer := raw_lines, is_compacted := False, fingerprint_hash := 0xABC123987\<rparr>"

definition append_raw_batch ::
  "bool \<Rightarrow> AdaptiveIngester \<Rightarrow> wal_disk \<Rightarrow> string list \<Rightarrow> AdaptiveIngester \<times> wal_disk \<times> RowGroup" where
  "append_raw_batch wal_ok ing wal raw_lines =
     (let wal' = snd (append_wal_entry wal_ok raw_lines wal)
      in (ing\<lparr>active_buffer_depth := active_buffer_depth ing + of_nat (length raw_lines)\<rparr>, wal', staged_group raw_lines))"

text \<open>\<open>transcode_batch_now\<close> on the row group a shared pointer holds (\<open>None\<close>: the null pointer);
  the result carries the pointer's new value and the number of drained lines.\<close>

definition transcode_batch_now ::
  "json_u64 \<Rightarrow> json_str \<Rightarrow> slicer \<Rightarrow> bool \<Rightarrow> AdaptiveIngester \<Rightarrow> wal_disk \<Rightarrow> RowGroup option \<Rightarrow>
   cpp_error + (AdaptiveIngester \<times> wal_disk \<times> RowGroup option \<times> nat)" where
  "transcode_batch_now ju js slice_n wal_ok ing wal rg =
     (case rg of
        None \<Rightarrow> Inr (ing, wal, None, 0)
      | Some old_rg \<Rightarrow>
          if is_compacted old_rg then Inr (ing, wal, rg, 0)
          else let lines_drained = length (raw_chunk_buffer old_rg) in
            case ingest_chunk ju js slice_n ing (raw_chunk_buffer old_rg) of
              Inl e \<Rightarrow> Inl e
            | Inr (ing', transcoded_rg) \<Rightarrow>
                Inr (ing'\<lparr>active_buffer_depth := active_buffer_depth ing' - of_nat lines_drained\<rparr>,
                     truncate_wal wal_ok wal,
                     Some (transcoded_rg\<lparr>is_compacted := True\<rparr>),
                     lines_drained))"

definition async_background_transcode ::
  "json_u64 \<Rightarrow> json_str \<Rightarrow> slicer \<Rightarrow> bool \<Rightarrow> AdaptiveIngester \<Rightarrow> wal_disk \<Rightarrow> RowGroup option \<Rightarrow>
   cpp_error + (AdaptiveIngester \<times> wal_disk \<times> RowGroup option)" where
  "async_background_transcode ju js slice_n wal_ok ing wal rg =
     map_sum id (\<lambda>(ing', wal', rg', _). (ing', wal', rg')) (transcode_batch_now ju js slice_n wal_ok ing wal rg)"

text \<open>The lines a pointer still holds in raw form.\<close>

definition pending :: "RowGroup option \<Rightarrow> string list" where
  "pending rg = (case rg of None \<Rightarrow> [] | Some g \<Rightarrow> if is_compacted g then [] else raw_chunk_buffer g)"

subsection \<open>Hypotheses and invariants\<close>

text \<open>The documented behaviour of the bit slicer (the \<open>.agb\<close> section of the README): 64 values
  become 64 planes, plane \<open>b\<close> holding bit \<open>b\<close> of every value.\<close>

definition slicer_spec :: "slicer \<Rightarrow> bool" where
  "slicer_spec slice_n \<longleftrightarrow>
     (\<forall>buf. length buf = 64 \<longrightarrow> (\<forall>b < 64. \<forall>r < 64. bit (slice_n buf ! b) r \<longleftrightarrow> bit (buf ! r) b))"

text \<open>A slicer that meets it, for concrete instances.\<close>

definition ref_slice :: slicer where
  "ref_slice buf = map (\<lambda>b. horner_sum of_bool 2 (map (\<lambda>v. bit v b) buf)) [0..<64]"

text \<open>The slots an ingester can have handed out.\<close>

definition ingester_wf :: "AdaptiveIngester \<Rightarrow> bool" where
  "ingester_wf ing \<longleftrightarrow>
     (field_to_slot_map ing = Map.empty \<and> next_hot_slot ing = 0 \<and> next_warm_slot ing = 0) \<or>
     (field_to_slot_map ing = [''status'' \<mapsto> 0, ''latency'' \<mapsto> 1, ''trace_id'' \<mapsto> 32] \<and>
      next_hot_slot ing = 2 \<and> next_warm_slot ing = 1)"

section \<open>Lemmas\<close>

subsection \<open>Slots\<close>

lemma ingester_wf_new [wf_intros]: "ingester_wf AdaptiveIngester_new"
  by (simp add: ingester_wf_def AdaptiveIngester_new_def)

lemma assign_slots_wf:
  assumes "ingester_wf ing"
  shows "\<exists>ing'. assign_slots ing = (ing', 0, 1, 32) \<and> ingester_wf ing' \<and>
    active_buffer_depth ing' = active_buffer_depth ing \<and>
    field_to_slot_map ing' = [''status'' \<mapsto> 0, ''latency'' \<mapsto> 1, ''trace_id'' \<mapsto> 32]"
  using assms unfolding ingester_wf_def
  by (elim disjE) (simp_all add: assign_slots_def ensure_hot_def ensure_warm_def Let_def)

subsection \<open>The row loop\<close>

definition row_effect :: "json_u64 \<Rightarrow> json_str \<Rightarrow> nat \<Rightarrow> nat \<Rightarrow> RowGroup \<Rightarrow> string \<Rightarrow> RowGroup" where
  "row_effect ju js ss ls rg line =
     add_trace (update_zone (update_zone rg ss (parse_status ju line)) ls (parse_latency ju line))
       (parse_trace js line)"

definition block_lines :: "string list \<Rightarrow> nat \<Rightarrow> string list" where
  "block_lines lines b = take 64 (drop (b * 64) lines)"

definition traces :: "json_str \<Rightarrow> string list \<Rightarrow> string list" where
  "traces js lines = List.map_filter (parse_trace js) lines"

text \<open>The value of a column at a row: what was parsed, and zero behind the last line.\<close>

definition col_val :: "(string \<Rightarrow> u64) \<Rightarrow> string list \<Rightarrow> nat \<Rightarrow> u64" where
  "col_val f lines row = (if row < length lines then f (lines ! row) else 0)"

lemma take_Suc_drop:
  "take (Suc k) (drop n xs) = (if n + k < length xs then take k (drop n xs) @ [xs ! (n + k)] else take k (drop n xs))"
  by (auto simp: take_Suc_conv_app_nth)

lemma ingest_row_effect:
  "ingest_row ju js ss ls i line (rg, sb, lb) =
    (row_effect ju js ss ls rg line, sb[i := parse_status ju line], lb[i := parse_latency ju line])"
  by (simp add: ingest_row_def row_effect_def Let_def)

lemma ingest_rows_spec:
  "ingest_rows ju js ss ls lines b (rg, replicate 64 0, replicate 64 0) =
    (foldl (row_effect ju js ss ls) rg (block_lines lines b),
     map (\<lambda>i. col_val (parse_status ju) lines (b * 64 + i)) [0..<64],
     map (\<lambda>i. col_val (parse_latency ju) lines (b * 64 + i)) [0..<64])"
proof -
  let ?step = "\<lambda>acc i. if b * 64 + i \<ge> length lines then acc
    else ingest_row ju js ss ls i (lines ! (b * 64 + i)) acc"
  let ?buf = "\<lambda>f k. map (\<lambda>i. if i < k then col_val f lines (b * 64 + i) else 0) [0..<64]"
  have buf: "(?buf f k)[k := f (lines ! (b * 64 + k))] = ?buf f (Suc k)"
    if "k < 64" "b * 64 + k < length lines" for f k
    using that by (intro nth_equalityI) (auto simp: nth_list_update col_val_def)
  have skip: "?buf f k = ?buf f (Suc k)" if "length lines \<le> b * 64 + k" for f k
    using that by (auto simp: col_val_def less_Suc_eq)
  have "foldl ?step (rg, replicate 64 0, replicate 64 0) [0..<k] =
      (foldl (row_effect ju js ss ls) rg (take k (drop (b * 64) lines)),
       ?buf (parse_status ju) k, ?buf (parse_latency ju) k)" if "k \<le> 64" for k
    using that
  proof (induction k)
    case 0
    then show ?case by (simp add: map_replicate_const)
  next
    case (Suc k)
    then have "k < 64" and IH: "foldl ?step (rg, replicate 64 0, replicate 64 0) [0..<k] =
      (foldl (row_effect ju js ss ls) rg (take k (drop (b * 64) lines)),
       ?buf (parse_status ju) k, ?buf (parse_latency ju) k)" by simp_all
    show ?case
    proof (cases "b * 64 + k < length lines")
      case True
      then show ?thesis
        using \<open>k < 64\<close> buf [OF _ True]
        by (simp add: IH take_Suc_drop ingest_row_effect del: upt_Suc add: upt_Suc_append)
    next
      case False
      then show ?thesis using skip [of k] by (simp add: IH take_Suc_drop del: upt_Suc add: upt_Suc_append)
    qed
  qed
  from this [of 64] show ?thesis
    by (simp add: ingest_rows_def block_lines_def Let_def cong: map_cong)
qed

subsection \<open>What the rows leave in the row group\<close>

lemma add_trace_frame [simp]:
  "zone_maps (add_trace rg t) = zone_maps rg" "null_maps (add_trace rg t) = null_maps rg"
  "hot_data_planes (add_trace rg t) = hot_data_planes rg"
  "raw_chunk_buffer (add_trace rg t) = raw_chunk_buffer rg"
  "hot_column_count (add_trace rg t) = hot_column_count rg"
  "warm_column_count (add_trace rg t) = warm_column_count rg"
  "is_compacted (add_trace rg t) = is_compacted rg"
  by (simp_all add: add_trace_def split: option.split)

lemma update_zone_frame [simp]:
  "null_maps (update_zone rg s v) = null_maps rg" "string_bloom (update_zone rg s v) = string_bloom rg"
  "hot_data_planes (update_zone rg s v) = hot_data_planes rg"
  "warm_dict_strings (update_zone rg s v) = warm_dict_strings rg"
  "raw_chunk_buffer (update_zone rg s v) = raw_chunk_buffer rg"
  "hot_column_count (update_zone rg s v) = hot_column_count rg"
  "warm_column_count (update_zone rg s v) = warm_column_count rg"
  "is_compacted (update_zone rg s v) = is_compacted rg"
  "length (zone_maps (update_zone rg s v)) = length (zone_maps rg)"
  by (simp_all add: update_zone_def)

lemma row_effect_frame [simp]:
  "null_maps (foldl (row_effect ju js ss ls) rg L) = null_maps rg"
  "hot_data_planes (foldl (row_effect ju js ss ls) rg L) = hot_data_planes rg"
  "hot_column_count (foldl (row_effect ju js ss ls) rg L) = hot_column_count rg"
  "warm_column_count (foldl (row_effect ju js ss ls) rg L) = warm_column_count rg"
  "is_compacted (foldl (row_effect ju js ss ls) rg L) = is_compacted rg"
  "length (zone_maps (foldl (row_effect ju js ss ls) rg L)) = length (zone_maps rg)"
  by (induction L arbitrary: rg) (simp_all add: row_effect_def)

lemma row_effect_traces:
  "string_bloom (foldl (row_effect ju js ss ls) rg L) = foldl bloom_add (string_bloom rg) (traces js L) \<and>
   warm_dict_strings (foldl (row_effect ju js ss ls) rg L) = warm_dict_strings rg @ traces js L"
  by (induction L arbitrary: rg)
    (auto simp: row_effect_def traces_def List.map_filter_simps add_trace_def split: option.split)

lemma row_effect_zone:
  assumes "ss \<noteq> ls" "ss < length (zone_maps rg)" "ls < length (zone_maps rg)"
  shows "zone_maps (foldl (row_effect ju js ss ls) rg L) ! ss = foldl update_u64 (zone_maps rg ! ss) (map (parse_status ju) L) \<and>
    zone_maps (foldl (row_effect ju js ss ls) rg L) ! ls = foldl update_u64 (zone_maps rg ! ls) (map (parse_latency ju) L)"
  using assms
proof (induction L arbitrary: rg)
  case (Cons line L)
  then show ?case
    using Cons.IH [of "row_effect ju js ss ls rg line"]
    by (simp add: row_effect_def update_zone_def)
qed simp

subsection \<open>The block write\<close>

lemma write_planes_length [simp]: "length (write_planes ss ls b sp lp planes) = length planes"
proof -
  have "length (foldl (\<lambda>p b'. store_u64 (store_u64 p (f b') (sp ! b')) (g b') (lp ! b')) planes xs) = length planes"
    for f g xs
    by (induction xs arbitrary: planes) auto
  then show ?thesis by (simp add: write_planes_def)
qed

lemma write_planes_bit:
  assumes "ss \<noteq> ls" "blk < 1024" "b < 64" "row < 65536"
    and "(ss + 1) * 524288 \<le> length planes" "(ls + 1) * 524288 \<le> length planes"
  shows "plane_bit (write_planes ss ls blk sp lp planes) slot b row \<longleftrightarrow>
    (if row div 64 = blk \<and> slot = ss then bit (sp ! b) (row mod 64)
     else if row div 64 = blk \<and> slot = ls then bit (lp ! b) (row mod 64)
     else plane_bit planes slot b row)"
proof -
  let ?step = "\<lambda>p b'. store_u64 (store_u64 p (plane_word_off ss b' blk) (sp ! b'))
    (plane_word_off ls b' blk) (lp ! b')"
  have "length (foldl ?step planes [0..<n]) = length planes \<and>
    (plane_bit (foldl ?step planes [0..<n]) slot b row \<longleftrightarrow>
      (if b < n \<and> row div 64 = blk \<and> slot = ss then bit (sp ! b) (row mod 64)
       else if b < n \<and> row div 64 = blk \<and> slot = ls then bit (lp ! b) (row mod 64)
       else plane_bit planes slot b row))" if "n \<le> 64" for n
    using that
  proof (induction n)
    case (Suc n)
    then have n: "n < 64" and len: "length (foldl ?step planes [0..<n]) = length planes" by simp_all
    define q where "q = foldl ?step planes [0..<n]"
    have IH: "plane_bit q slot b row \<longleftrightarrow>
      (if b < n \<and> row div 64 = blk \<and> slot = ss then bit (sp ! b) (row mod 64)
       else if b < n \<and> row div 64 = blk \<and> slot = ls then bit (lp ! b) (row mod 64)
       else plane_bit planes slot b row)"
      using Suc by (simp add: q_def)
    have "plane_bit (?step q n) slot b row \<longleftrightarrow>
      (if slot = ls \<and> b = n \<and> row div 64 = blk then bit (lp ! n) (row mod 64)
       else if slot = ss \<and> b = n \<and> row div 64 = blk then bit (sp ! n) (row mod 64)
       else plane_bit q slot b row)"
      using assms n len by (simp add: plane_bit_store_u64 q_def)
    moreover have "foldl ?step planes [0..<Suc n] = ?step q n" by (simp add: q_def)
    moreover have "length q = length planes" using len by (simp add: q_def)
    ultimately show ?case
      using assms(1) IH by (cases "b = n") (auto simp: less_Suc_eq)
  qed simp
  from this [of 64] assms(3) show ?thesis by (simp add: write_planes_def)
qed

subsection \<open>The block loop\<close>

text \<open>The state of the row group after \<open>nb\<close> blocks.\<close>

definition rows_done :: "json_u64 \<Rightarrow> json_str \<Rightarrow> string list \<Rightarrow> nat \<Rightarrow> RowGroup \<Rightarrow> bool" where
  "rows_done ju js lines nb rg \<longleftrightarrow>
     rg_wf rg \<and> hot_column_count rg = 32 \<and> warm_column_count rg = 32 \<and>
     zone_maps rg ! 0 = foldl update_u64 (zone_new 0 0 UINT64) (map (parse_status ju) (take (nb * 64) lines)) \<and>
     zone_maps rg ! 1 = foldl update_u64 (zone_new 0 0 UINT64) (map (parse_latency ju) (take (nb * 64) lines)) \<and>
     string_bloom rg = foldl bloom_add (bloom_new 8192) (traces js (take (nb * 64) lines)) \<and>
     warm_dict_strings rg = traces js (take (nb * 64) lines) \<and>
     (\<forall>c b. check_block_presence rg c b \<longleftrightarrow> (c = 0 \<or> c = 1 \<or> c = 32) \<and> unat b < nb) \<and>
     (\<forall>slot b row. slot < 32 \<longrightarrow> b < 64 \<longrightarrow> row < 65536 \<longrightarrow>
        plane_bit (hot_data_planes rg) slot b row =
          (row < nb * 64 \<and> (slot = 0 \<and> bit (col_val (parse_status ju) lines row) b \<or>
                             slot = 1 \<and> bit (col_val (parse_latency ju) lines row) b)))"

lemma plane_bit_zero:
  assumes "slot < 32" "b < 64" "row < 65536"
  shows "\<not> plane_bit (replicate 16777216 0) slot b row"
proof -
  have "slot * 64 * 8192 + b * 8192 + row div 8 < 16777216" using assms by simp
  then show ?thesis by (simp add: plane_bit_def)
qed

lemma rows_done_init: "rows_done ju js lines 0 (RowGroup_new 32 32)"
proof -
  have "hot_data_planes (RowGroup_new 32 32) = replicate 16777216 0"
    "zone_maps (RowGroup_new 32 32) = replicate 64 (zone_new 0 0 UINT64)"
    by (simp_all add: RowGroup_new_def Let_def)
  moreover have "hot_column_count (RowGroup_new 32 32) = 32" "warm_column_count (RowGroup_new 32 32) = 32"
    "string_bloom (RowGroup_new 32 32) = bloom_new 8192"
    "warm_dict_strings (RowGroup_new 32 32) = []"
    by (simp_all add: RowGroup_new_def Let_def)
  ultimately show ?thesis
    using rg_wf_new [of 32 32] plane_bit_zero
    by (simp add: rows_done_def traces_def List.map_filter_simps)
qed

lemma slice_col:
  assumes "slicer_spec slice_n" "b < 64" "row div 64 = blk"
  shows "bit (slice_n (map (\<lambda>i. col_val f lines (blk * 64 + i)) [0..<64]) ! b) (row mod 64) =
    bit (col_val f lines row) b"
proof -
  have "blk * 64 + row mod 64 = row" using assms(3) by (metis div_mult_mod_eq)
  with assms(1,2) show ?thesis by (simp add: slicer_spec_def)
qed

lemma take_block: "take (nb * 64) lines @ block_lines lines nb = take (Suc nb * 64) lines"
  by (simp add: block_lines_def take_add [symmetric] add.commute)

lemma traces_append: "traces js (xs @ ys) = traces js xs @ traces js ys"
  by (induction xs) (auto simp: traces_def List.map_filter_simps split: option.split)

lemma presence_marks:
  assumes "rg_wf rg" "hot_column_count rg = 32" "warm_column_count rg = 32" "nb < 1024"
    and "\<forall>c b. check_block_presence rg c b \<longleftrightarrow> (c = 0 \<or> c = 1 \<or> c = 32) \<and> unat b < nb"
  shows "check_block_presence (set_block_presence (set_block_presence
      (set_block_presence rg 0 (of_nat nb)) 1 (of_nat nb)) 32 (of_nat nb)) c b \<longleftrightarrow>
    (c = 0 \<or> c = 1 \<or> c = 32) \<and> unat b < Suc nb"
proof -
  have nb: "unat (of_nat nb :: u32) = nb" "(of_nat nb :: u32) < 1024"
    using assms(4) by (simp_all add: unat_of_nat word_less_nat_alt)
  have b: "b = of_nat nb \<longleftrightarrow> unat b = nb" using nb by (metis word_unat_eq_iff)
  have len: "length (null_maps rg) = 64" using assms(1-3) by (simp add: rg_wf_def)
  show ?thesis
    using assms(1,5) nb len
    by (auto simp: check_set_block_presence rg_wf_set_block_presence b less_Suc_eq)
qed

lemma ingest_block_step:
  assumes sl: "slicer_spec slice_n" and nb: "nb < 1024" and inv: "rows_done ju js lines nb rg"
  shows "\<exists>rg'. ingest_block ju js slice_n 0 1 32 lines nb rg = Inr rg' \<and> rows_done ju js lines (Suc nb) rg'"
proof -
  let ?rg3 = "set_block_presence (set_block_presence (set_block_presence rg 0 (of_nat nb)) 1 (of_nat nb)) 32 (of_nat nb)"
  let ?rg4 = "foldl (row_effect ju js 0 1) ?rg3 (block_lines lines nb)"
  let ?buf = "\<lambda>f. map (\<lambda>i. col_val f lines (nb * 64 + i)) [0..<64]"
  let ?planes = "write_planes 0 1 nb (slice_n (?buf (parse_status ju))) (slice_n (?buf (parse_latency ju))) (hot_data_planes rg)"
  let ?rg' = "?rg4\<lparr>hot_data_planes := ?planes\<rparr>"
  have wf: "rg_wf rg" "hot_column_count rg = 32" "warm_column_count rg = 32"
    using inv by (simp_all add: rows_done_def)
  then have lens: "length (hot_data_planes rg) = 16777216" "length (zone_maps rg) = 64"
    by (simp_all add: rg_wf_def)
  have "ingest_block ju js slice_n 0 1 32 lines nb rg = Inr ?rg'"
    using lens by (simp add: ingest_block_def ingest_rows_spec Let_def)
  moreover have "rows_done ju js lines (Suc nb) ?rg'"
  proof -
    have wf3: "rg_wf ?rg3" by (intro wf_intros wf)
    have "bloom_wf (string_bloom ?rg4)"
      using wf3 row_effect_traces [of ju js 0 1 ?rg3] bloom.invar_adds by (simp add: rg_wf_def)
    with wf3 lens have "rg_wf ?rg'" by (simp add: rg_wf_def)
    moreover have "zone_maps ?rg' ! 0 = foldl update_u64 (zone_new 0 0 UINT64) (map (parse_status ju) (take (Suc nb * 64) lines)) \<and>
      zone_maps ?rg' ! 1 = foldl update_u64 (zone_new 0 0 UINT64) (map (parse_latency ju) (take (Suc nb * 64) lines))"
      using row_effect_zone [of 0 1 ?rg3 ju js "block_lines lines nb"] lens inv
      unfolding take_block [symmetric] by (simp add: rows_done_def)
    moreover have "string_bloom ?rg' = foldl bloom_add (bloom_new 8192) (traces js (take (Suc nb * 64) lines)) \<and>
      warm_dict_strings ?rg' = traces js (take (Suc nb * 64) lines)"
      using row_effect_traces [of ju js 0 1 ?rg3 "block_lines lines nb"] inv
      unfolding take_block [symmetric] by (simp add: rows_done_def traces_append)
    moreover have "check_block_presence ?rg' c b \<longleftrightarrow> (c = 0 \<or> c = 1 \<or> c = 32) \<and> unat b < Suc nb" for c b
    proof -
      have "check_block_presence ?rg' c b = check_block_presence ?rg3 c b"
        by (rule check_block_presence_cong) simp
      then show ?thesis using presence_marks [OF wf nb, of c b] inv by (simp add: rows_done_def)
    qed
    moreover have "plane_bit ?planes slot b row =
        (row < Suc nb * 64 \<and> (slot = 0 \<and> bit (col_val (parse_status ju) lines row) b \<or>
          slot = 1 \<and> bit (col_val (parse_latency ju) lines row) b))"
      if b: "slot < 32" "b < 64" "row < 65536" for slot b row
    proof -
      have "row div 64 = nb \<or> row < nb * 64 \<or> Suc nb * 64 \<le> row"
        using div_less_iff_less_mult [of 64 row nb] less_eq_div_iff_mult_less_eq [of 64 "Suc nb" row] by linarith
      then show ?thesis
        using inv b lens nb slice_col [OF sl b(2), of row nb]
        by (elim disjE) (auto simp: write_planes_bit rows_done_def)
    qed
    moreover have "hot_column_count ?rg' = 32" "warm_column_count ?rg' = 32"
      using inv by (simp_all add: rows_done_def)
    ultimately show ?thesis unfolding rows_done_def by simp
  qed
  ultimately show ?thesis by blast
qed

lemma ingest_blocks_append:
  "ingest_blocks ju js slice_n ss ls ts lines (bs @ [b]) rg =
    (case ingest_blocks ju js slice_n ss ls ts lines bs rg of
       Inl e \<Rightarrow> Inl e | Inr rg' \<Rightarrow> ingest_block ju js slice_n ss ls ts lines b rg')"
  by (induction bs arbitrary: rg) (auto split: sum.splits)

lemma ingest_blocks_done:
  assumes "slicer_spec slice_n" "n \<le> 1024"
  shows "\<exists>rg. ingest_blocks ju js slice_n 0 1 32 lines [0..<n] (RowGroup_new 32 32) = Inr rg \<and> rows_done ju js lines n rg"
  using assms(2)
proof (induction n)
  case 0
  then show ?case using rows_done_init by simp
next
  case (Suc n)
  then obtain rg where "ingest_blocks ju js slice_n 0 1 32 lines [0..<n] (RowGroup_new 32 32) = Inr rg"
    "rows_done ju js lines n rg" by auto
  with ingest_block_step [OF assms(1), of n] Suc.prems show ?case
    by (simp add: ingest_blocks_append)
qed

lemma rows_done_frame [simp]:
  "rows_done ju js lines n (rg\<lparr>fingerprint_hash := h\<rparr>) = rows_done ju js lines n rg"
  "rows_done ju js lines n (rg\<lparr>is_compacted := c\<rparr>) = rows_done ju js lines n rg"
  by (simp_all add: rows_done_def rg_wf_def check_block_presence_def)

lemma ingest_chunk_done:
  assumes "slicer_spec slice_n" "ingester_wf ing"
  shows "\<exists>ing' rg. ingest_chunk ju js slice_n ing lines = Inr (ing', rg) \<and> ingester_wf ing' \<and>
    active_buffer_depth ing' = active_buffer_depth ing \<and>
    field_to_slot_map ing' = [''status'' \<mapsto> 0, ''latency'' \<mapsto> 1, ''trace_id'' \<mapsto> 32] \<and>
    rows_done ju js lines (num_blocks_for (length lines)) rg"
proof -
  have "num_blocks_for (length lines) \<le> 1024" by (simp add: num_blocks_for_def Let_def)
  then obtain rg where "ingest_blocks ju js slice_n 0 1 32 lines [0..<num_blocks_for (length lines)]
      (RowGroup_new 32 32) = Inr rg" "rows_done ju js lines (num_blocks_for (length lines)) rg"
    using ingest_blocks_done [OF assms(1)] by blast
  with assign_slots_wf [OF assms(2)] show ?thesis
    by (auto simp: ingest_chunk_def)
qed

lemma num_blocks_covers: "row < length lines \<Longrightarrow> row < 65536 \<Longrightarrow> row < num_blocks_for (length lines) * 64"
  by (auto simp: num_blocks_for_def Let_def)

lemma num_blocks_take: "take (num_blocks_for (length lines) * 64) lines = take 65536 lines"
  by (cases "(length lines + 63) div 64 > 1024") (auto simp: num_blocks_for_def Let_def)

subsection \<open>Lines past the row-group limit\<close>

lemma block_lines_take: "b < 1024 \<Longrightarrow> block_lines (take 65536 lines) b = block_lines lines b"
  by (simp add: block_lines_def drop_take min_def)

lemma col_val_take: "row < 65536 \<Longrightarrow> col_val f (take 65536 lines) row = col_val f lines row"
  by (simp add: col_val_def)

lemma ingest_block_take:
  assumes "b < 1024"
  shows "ingest_block ju js slice_n ss ls ts (take 65536 lines) b rg = ingest_block ju js slice_n ss ls ts lines b rg"
proof -
  have "map (\<lambda>i. col_val f (take 65536 lines) (b * 64 + i)) [0..<64] =
      map (\<lambda>i. col_val f lines (b * 64 + i)) [0..<64]" for f
    using assms by (intro map_cong refl col_val_take) auto
  then show ?thesis
    by (simp only: ingest_block_def ingest_rows_spec block_lines_take [OF assms])
qed

lemma ingest_blocks_take:
  assumes "\<forall>b \<in> set bs. b < 1024"
  shows "ingest_blocks ju js slice_n ss ls ts (take 65536 lines) bs rg = ingest_blocks ju js slice_n ss ls ts lines bs rg"
  using assms by (induction bs arbitrary: rg) (auto simp: ingest_block_take split: sum.split)

lemma num_blocks_for_min: "num_blocks_for (min n 65536) = num_blocks_for n"
  by (auto simp: num_blocks_for_def Let_def min_def)

subsection \<open>The staging path\<close>

lemma append_raw_batch_simps:
  assumes "append_raw_batch ok ing wal b = (ing', wal', rg)"
  shows "ingester_wf ing' = ingester_wf ing"
    "active_buffer_depth ing' = active_buffer_depth ing + of_nat (length b)"
    "wal' = snd (append_wal_entry ok b wal)" "pending (Some rg) = b" "\<not> is_compacted rg"
    "raw_chunk_buffer rg = b" "string_bloom rg = bloom_new 8192" "zone_maps rg = zone_maps (RowGroup_new 32 32)"
  using assms
  by (auto simp: append_raw_batch_def staged_group_def Let_def pending_def ingester_wf_def RowGroup_new_def)

definition needs_drain :: "RowGroup option \<Rightarrow> bool" where
  "needs_drain rg \<longleftrightarrow> (case rg of None \<Rightarrow> False | Some g \<Rightarrow> \<not> is_compacted g)"

lemma transcode_batch_spec:
  assumes "slicer_spec slice_n" "ingester_wf ing"
  shows "\<exists>ing' wal' rg'. transcode_batch_now ju js slice_n ok ing wal rg = Inr (ing', wal', rg', length (pending rg)) \<and>
    ingester_wf ing' \<and> active_buffer_depth ing' = active_buffer_depth ing - of_nat (length (pending rg)) \<and>
    pending rg' = [] \<and> \<not> needs_drain rg' \<and>
    wal' = (if needs_drain rg then truncate_wal ok wal else wal) \<and>
    (if needs_drain rg
     then \<exists>g'. rg' = Some g' \<and> is_compacted g' \<and>
       rows_done ju js (pending rg) (num_blocks_for (length (pending rg))) g'
     else rg' = rg)"
proof (cases "needs_drain rg")
  case False
  with assms show ?thesis
    by (auto simp: transcode_batch_now_def needs_drain_def pending_def split: option.splits)
next
  case True
  then obtain g where g: "rg = Some g" "\<not> is_compacted g" by (auto simp: needs_drain_def split: option.splits)
  obtain ing1 rg1 where "ingest_chunk ju js slice_n ing (raw_chunk_buffer g) = Inr (ing1, rg1)" "ingester_wf ing1"
    "active_buffer_depth ing1 = active_buffer_depth ing"
    "rows_done ju js (raw_chunk_buffer g) (num_blocks_for (length (raw_chunk_buffer g))) rg1"
    using ingest_chunk_done [OF assms, of ju js "raw_chunk_buffer g"] by blast
  with g show ?thesis
    by (auto simp: transcode_batch_now_def needs_drain_def pending_def ingester_wf_def Let_def)
qed

lemma ref_slice_spec: "slicer_spec ref_slice"
  by (auto simp: slicer_spec_def ref_slice_def bit_horner_sum_bit_iff)

lemma rows_done_values:
  assumes "rows_done ju js lines (num_blocks_for (length lines)) rg" "row < length lines" "row < 65536"
  shows "row_value (hot_data_planes rg) 0 row = parse_status ju (lines ! row)"
    "row_value (hot_data_planes rg) 1 row = parse_latency ju (lines ! row)"
  using assms num_blocks_covers [OF assms(2,3)]
  by (auto simp: rows_done_def col_val_def intro!: row_value_eqI)

text \<open>A sample reader for concrete instances: every line has status 200 and latency 7, and its
  trace identifier is the line itself.\<close>

definition sample_u64 :: json_u64 where
  "sample_u64 line key = (if key = ''status'' then Some 200 else if key = ''latency_ms'' then Some 7 else None)"

definition sample_str :: json_str where
  "sample_str line key = (if key = ''service'' then Some line else None)"

section \<open>Properties\<close>

text \<open>C4: transcoding is lossless on the hot columns. For any ingester that only ever ran
  \<open>ingest_chunk\<close>, a chunk is transcoded without an out-of-range access, and the status and the
  latency of each of its first 65536 lines read back from the bit-planes of slots 0 and 1 exactly
  as simdjson reported them (zero when it reported an error), with the presence bits of the
  line's block set for both columns and for the trace column.\<close>

theorem ingest_chunk_lossless:
  assumes "slicer_spec slice_n" "ingester_wf ing"
  shows "\<exists>ing' rg. ingest_chunk ju js slice_n ing lines = Inr (ing', rg) \<and> ingester_wf ing' \<and> rg_wf rg \<and>
    get_slot_for_field ing' ''status'' = 0 \<and> get_slot_for_field ing' ''latency'' = 1 \<and>
    get_slot_for_field ing' ''trace_id'' = 32 \<and>
    (\<forall>row < min (length lines) 65536.
      row_value (hot_data_planes rg) 0 row = parse_status ju (lines ! row) \<and>
      row_value (hot_data_planes rg) 1 row = parse_latency ju (lines ! row) \<and>
      check_block_presence rg 0 (of_nat (row div 64)) \<and> check_block_presence rg 1 (of_nat (row div 64)) \<and>
      check_block_presence rg 32 (of_nat (row div 64)))"
proof -
  obtain ing' rg where c: "ingest_chunk ju js slice_n ing lines = Inr (ing', rg)" "ingester_wf ing'"
    "field_to_slot_map ing' = [''status'' \<mapsto> 0, ''latency'' \<mapsto> 1, ''trace_id'' \<mapsto> 32]"
    and rd: "rows_done ju js lines (num_blocks_for (length lines)) rg"
    using ingest_chunk_done [OF assms, of ju js lines] by blast
  have "unat (of_nat (row div 64) :: u32) < num_blocks_for (length lines)"
    if "row < length lines" "row < 65536" for row
  proof -
    have "row div 64 < num_blocks_for (length lines)"
      using num_blocks_covers [OF that] by (simp add: div_less_iff_less_mult)
    moreover have "unat (of_nat (row div 64) :: u32) = row div 64"
      using that(2) by (simp add: unat_of_nat)
    ultimately show ?thesis by simp
  qed
  with c rd rows_done_values [OF rd] show ?thesis
    by (auto simp: get_slot_for_field_def rows_done_def)
qed

theorem ingest_chunk_lossless_witness:
  "\<exists>ing' rg. ingest_chunk sample_u64 sample_str ref_slice AdaptiveIngester_new [''a'', ''b''] = Inr (ing', rg) \<and>
    row_value (hot_data_planes rg) 0 1 = 200 \<and> row_value (hot_data_planes rg) 1 1 = 7"
proof -
  obtain ing' rg where "ingest_chunk sample_u64 sample_str ref_slice AdaptiveIngester_new [''a'', ''b''] = Inr (ing', rg)"
    "\<forall>row < min (length [''a'', ''b'']) 65536.
      row_value (hot_data_planes rg) 0 row = parse_status sample_u64 ([''a'', ''b''] ! row) \<and>
      row_value (hot_data_planes rg) 1 row = parse_latency sample_u64 ([''a'', ''b''] ! row)"
    using ingest_chunk_lossless [OF ref_slice_spec ingester_wf_new, of sample_u64 sample_str "[''a'', ''b'']"]
    by blast
  then show ?thesis by (fastforce simp: parse_status_def parse_latency_def sample_u64_def)
qed

text \<open>C31: the row group's summaries describe the rows that it holds, the first 65536 lines of the chunk
  (the later ones are not transcoded). The bounds of the zone maps of both hot columns are the least and
  the greatest value of the column, the warm dictionary is the list of extracted trace identifiers in
  line order, and the Bloom filter holds these identifiers and nothing else: it reports a string if and
  only if both probe positions of the string are probe positions of identifiers in the dictionary.\<close>

theorem ingest_chunk_summaries:
  assumes "slicer_spec slice_n" "ingester_wf ing" "ingest_chunk ju js slice_n ing lines = Inr (ing', rg)" "lines \<noteq> []"
  shows "zm_min (zone_maps rg ! 0) = Min (parse_status ju ` set (take 65536 lines)) \<and>
    zm_max (zone_maps rg ! 0) = Max (parse_status ju ` set (take 65536 lines)) \<and>
    zm_min (zone_maps rg ! 1) = Min (parse_latency ju ` set (take 65536 lines)) \<and>
    zm_max (zone_maps rg ! 1) = Max (parse_latency ju ` set (take 65536 lines)) \<and>
    warm_dict_strings rg = List.map_filter (parse_trace js) (take 65536 lines) \<and>
    (\<forall>t. bloom_contains (string_bloom rg) t \<longleftrightarrow>
       bloom_probes (bloom_new 8192) t \<subseteq> (\<Union>t' \<in> set (warm_dict_strings rg). bloom_probes (bloom_new 8192) t'))"
proof -
  have rd: "rows_done ju js lines (num_blocks_for (length lines)) rg"
    using ingest_chunk_done [OF assms(1,2), of ju js lines] assms(3) by auto
  have ne: "map f (take 65536 lines) \<noteq> []" for f :: "string \<Rightarrow> u64" using assms(4) by simp
  show ?thesis
    using rd zone_u64_bounds [OF ne, of 0 0] bloom_contents_exact [of 8192]
    by (simp add: rows_done_def num_blocks_take traces_def)
qed

theorem ingest_chunk_summaries_witness:
  "\<exists>ing' rg. ingest_chunk sample_u64 sample_str ref_slice AdaptiveIngester_new [''abc-1'', ''def-2''] = Inr (ing', rg) \<and>
    zm_max (zone_maps rg ! 0) = 200 \<and> zm_min (zone_maps rg ! 1) = 7 \<and>
    warm_dict_strings rg = [''abc-1'', ''def-2''] \<and> bloom_contains (string_bloom rg) ''def-2''"
proof -
  obtain ing' rg where c: "ingest_chunk sample_u64 sample_str ref_slice AdaptiveIngester_new [''abc-1'', ''def-2''] = Inr (ing', rg)"
    using ingest_chunk_done [OF ref_slice_spec ingester_wf_new] by blast
  with ingest_chunk_summaries [OF ref_slice_spec ingester_wf_new c] show ?thesis
    by (auto simp: parse_trace_def parse_status_def parse_latency_def sample_u64_def sample_str_def
        List.map_filter_simps)
qed

text \<open>a chunk of more than 65536 lines is transcoded exactly as its first 65536 lines: the
  block count is capped and every later line is ignored.\<close>

theorem ingest_chunk_ignores_excess:
  "ingest_chunk ju js slice_n ing lines = ingest_chunk ju js slice_n ing (take 65536 lines)"
proof -
  have "\<forall>b \<in> set [0..<num_blocks_for (length lines)]. b < 1024"
    by (auto simp: num_blocks_for_def Let_def split: if_splits)
  from ingest_blocks_take [OF this] show ?thesis
    by (simp add: ingest_chunk_def num_blocks_for_min)
qed

text \<open>C28: crash recovery. On a log that holds nothing, a staged batch of clean lines is recovered
  exactly after a crash, and staging and draining the recovered lines with a fresh ingester
  rebuilds a row group whose rows are those of the lost batch, and leaves the log empty.\<close>

theorem crash_recovery_replay:
  assumes "slicer_spec slice_n" "wal_wf wal" "recover_from_wal True wal = []"
    and "\<forall>l \<in> set batch. line_clean l"
    and staged: "append_raw_batch True ing wal batch = (ing1, wal1, rg1)"
    and replay: "append_raw_batch True AdaptiveIngester_new wal1 (recover_from_wal True wal1) = (ing2, wal2, rg2)"
  shows "recover_from_wal True wal1 = batch \<and>
    (\<exists>ing3 wal3 rg3. transcode_batch_now ju js slice_n True ing2 wal2 (Some rg2) = Inr (ing3, wal3, Some rg3, length batch) \<and>
      (\<forall>row < min (length batch) 65536.
        row_value (hot_data_planes rg3) 0 row = parse_status ju (batch ! row) \<and>
        row_value (hot_data_planes rg3) 1 row = parse_latency ju (batch ! row)) \<and>
      recover_from_wal True wal3 = [])"
proof -
  have ok: "\<forall>l \<in> set batch. line_ok l" using assms(4) by (simp add: line_clean_def line_ok_def)
  have r: "recover_from_wal True wal1 = batch"
    using recover_after_append [OF assms(2) ok] append_raw_batch_simps(3) [OF staged]
      recover_lines_clean [OF assms(4)] assms(3) by simp
  note s = append_raw_batch_simps [OF replay]
  have wf2: "ingester_wf ing2" using s(1) ingester_wf_new by simp
  have nd: "needs_drain (Some rg2)" using s(5) by (simp add: needs_drain_def)
  obtain ing3 rg3 where t: "transcode_batch_now ju js slice_n True ing2 wal2 (Some rg2) =
      Inr (ing3, truncate_wal True wal2, Some rg3, length batch)"
    "rows_done ju js batch (num_blocks_for (length batch)) rg3"
    using transcode_batch_spec [OF assms(1) wf2, of ju js True wal2 "Some rg2"] nd s(4) r by auto
  moreover have "recover_from_wal True (truncate_wal True wal2) = []" by (rule wal.recover_clear)
  ultimately show ?thesis using r rows_done_values [OF t(2)] by auto
qed

theorem crash_recovery_replay_witness:
  "recover_from_wal True (fst (snd (append_raw_batch True AdaptiveIngester_new None [''{x}'', ''{y}'']))) = [''{x}'', ''{y}'']"
proof -
  obtain ing1 wal1 rg1 where a: "append_raw_batch True AdaptiveIngester_new None [''{x}'', ''{y}''] = (ing1, wal1, rg1)"
    by (cases "append_raw_batch True AdaptiveIngester_new None [''{x}'', ''{y}'']")
  obtain ing2 wal2 rg2 where b: "append_raw_batch True AdaptiveIngester_new wal1 (recover_from_wal True wal1) = (ing2, wal2, rg2)"
    by (cases "append_raw_batch True AdaptiveIngester_new wal1 (recover_from_wal True wal1)")
  have "recover_from_wal True wal1 = [''{x}'', ''{y}'']"
    using crash_recovery_replay [OF ref_slice_spec _ _ _ a b, of sample_u64 sample_str]
    by (simp add: wal_wf_def recover_from_wal_def line_clean_def)
  with a show ?thesis by simp
qed

end
