(* ===== verification/Staging_Pipeline.thy ===== *)
theory Staging_Pipeline
  imports Adaptive_Ingester
begin

text \<open>
  The staging pipeline of \<^verbatim>\<open>AdaptiveIngester\<close> run by several threads: producers that call
  \<open>append_raw_batch\<close> and publish the row group, and workers that call \<open>transcode_batch_now\<close> on shared
  pointers. Neither method holds a lock across its body, so each is a sequence of steps between which
  other threads run: the critical sections of \<open>wal_mutex\<close> and \<open>schema_mutex\<close> and the atomic operations
  on the pointer and on the depth counter.
\<close>

section \<open>Model\<close>

text \<open>Where a thread stands: a producer in \<open>append_raw_batch\<close> with its batch, a worker in
  \<open>transcode_batch_now\<close> with the index of its pointer and its local variables. A row group is not
  changed any more once a pointer to it is published, so what a worker has loaded is a copy.\<close>

datatype stage_pc = StageIdle | StageLogged "string list" | StageCounted "string list"

datatype drain_pc =
    DrainIdle
  | DrainLoaded nat "string list"
  | DrainBuilt nat RowGroup nat
  | DrainStored nat
  | DrainSubtracted

record Pipeline =
  p_ing :: AdaptiveIngester
  p_wal :: wal_disk
  p_groups :: "RowGroup option list"
  p_producers :: "stage_pc list"
  p_workers :: "drain_pc list"

definition Pipeline_new :: "wal_disk \<Rightarrow> nat \<Rightarrow> nat \<Rightarrow> Pipeline" where
  "Pipeline_new wal producers workers =
     \<lparr>p_ing = AdaptiveIngester_new, p_wal = wal, p_groups = [],
      p_producers = replicate producers StageIdle, p_workers = replicate workers DrainIdle\<rparr>"

text \<open>One step of a producer: the append to the log, the \<open>fetch_add\<close>, and the publication of the
  pointer by the caller. \<open>ok\<close> tells whether the log could be opened.\<close>

fun stage_step :: "bool \<Rightarrow> string list \<Rightarrow> Pipeline \<Rightarrow> stage_pc \<Rightarrow> Pipeline \<times> stage_pc" where
  "stage_step ok batch p StageIdle = (p\<lparr>p_wal := snd (append_wal_entry ok batch (p_wal p))\<rparr>, StageLogged batch)"
| "stage_step ok batch p (StageLogged b) =
     (p\<lparr>p_ing := (p_ing p)\<lparr>active_buffer_depth := active_buffer_depth (p_ing p) + of_nat (length b)\<rparr>\<rparr>, StageCounted b)"
| "stage_step ok batch p (StageCounted b) = (p\<lparr>p_groups := p_groups p @ [Some (staged_group b)]\<rparr>, StageIdle)"

text \<open>One step of a worker on pointer \<open>i\<close>: the \<open>atomic_load\<close> with the early return, \<open>ingest_chunk\<close>
  (which shares nothing but its critical section of \<open>schema_mutex\<close>), the \<open>atomic_store\<close>, the
  \<open>fetch_sub\<close> and the truncation of the log.\<close>

fun drain_step ::
  "json_u64 \<Rightarrow> json_str \<Rightarrow> slicer \<Rightarrow> bool \<Rightarrow> nat \<Rightarrow> Pipeline \<Rightarrow> drain_pc \<Rightarrow> cpp_error + (Pipeline \<times> drain_pc)" where
  "drain_step ju js slice_n ok i p DrainIdle =
     (if i \<ge> length (p_groups p) then Inl OutOfBounds
      else case p_groups p ! i of
             None \<Rightarrow> Inr (p, DrainIdle)
           | Some old_rg \<Rightarrow>
               if is_compacted old_rg then Inr (p, DrainIdle) else Inr (p, DrainLoaded i (raw_chunk_buffer old_rg)))"
| "drain_step ju js slice_n ok _ p (DrainLoaded i lines) =
     (case ingest_chunk ju js slice_n (p_ing p) lines of
        Inl e \<Rightarrow> Inl e
      | Inr (ing', transcoded_rg) \<Rightarrow>
          Inr (p\<lparr>p_ing := ing'\<rparr>, DrainBuilt i (transcoded_rg\<lparr>is_compacted := True\<rparr>) (length lines)))"
| "drain_step ju js slice_n ok _ p (DrainBuilt i transcoded_rg lines_drained) =
     Inr (p\<lparr>p_groups := (p_groups p)[i := Some transcoded_rg]\<rparr>, DrainStored lines_drained)"
| "drain_step ju js slice_n ok _ p (DrainStored lines_drained) =
     Inr (p\<lparr>p_ing := (p_ing p)\<lparr>active_buffer_depth := active_buffer_depth (p_ing p) - of_nat lines_drained\<rparr>\<rparr>,
          DrainSubtracted)"
| "drain_step ju js slice_n ok _ p DrainSubtracted = Inr (p\<lparr>p_wal := truncate_wal ok (p_wal p)\<rparr>, DrainIdle)"

text \<open>The lines that a worker stores over a pointer that another worker has drained in between.\<close>

definition redrained :: "Pipeline \<Rightarrow> drain_pc \<Rightarrow> nat" where
  "redrained p pc = (case pc of DrainBuilt i _ n \<Rightarrow> if needs_drain (p_groups p ! i) then 0 else n | _ \<Rightarrow> 0)"

text \<open>A run of the threads in any interleaving, with the number of lines drained a second time.\<close>

inductive pipe_run :: "json_u64 \<Rightarrow> json_str \<Rightarrow> slicer \<Rightarrow> Pipeline \<Rightarrow> nat \<Rightarrow> Pipeline \<Rightarrow> bool"
  for ju js slice_n p0 where
  pipe_start: "pipe_run ju js slice_n p0 0 p0"
| pipe_stage: "pipe_run ju js slice_n p0 k p \<Longrightarrow> t < length (p_producers p) \<Longrightarrow>
    stage_step ok batch p (p_producers p ! t) = (p', pc) \<Longrightarrow>
    pipe_run ju js slice_n p0 k (p'\<lparr>p_producers := (p_producers p)[t := pc]\<rparr>)"
| pipe_drain: "pipe_run ju js slice_n p0 k p \<Longrightarrow> t < length (p_workers p) \<Longrightarrow>
    drain_step ju js slice_n ok i p (p_workers p ! t) = Inr (p', pc) \<Longrightarrow>
    pipe_run ju js slice_n p0 (k + redrained p (p_workers p ! t)) (p'\<lparr>p_workers := (p_workers p)[t := pc]\<rparr>)"

text \<open>The lines held in raw form by published row groups, those counted by a producer whose row group is
  not published yet, and those stored by a worker that has not lowered the counter yet.\<close>

definition raw_lines :: "Pipeline \<Rightarrow> nat" where
  "raw_lines p = (\<Sum>g \<leftarrow> p_groups p. length (pending g))"

definition counted_lines :: "Pipeline \<Rightarrow> nat" where
  "counted_lines p = (\<Sum>pc \<leftarrow> p_producers p. case pc of StageCounted b \<Rightarrow> length b | _ \<Rightarrow> 0)"

definition stored_lines :: "Pipeline \<Rightarrow> nat" where
  "stored_lines p = (\<Sum>pc \<leftarrow> p_workers p. case pc of DrainStored n \<Rightarrow> n | _ \<Rightarrow> 0)"

definition held_lines :: "Pipeline \<Rightarrow> nat" where
  "held_lines p = raw_lines p + counted_lines p + stored_lines p"

section \<open>Lemmas\<close>

text \<open>A worker that is not interleaved with others does what \<open>transcode_batch_now\<close> returns.\<close>

definition drain_alone ::
  "json_u64 \<Rightarrow> json_str \<Rightarrow> slicer \<Rightarrow> bool \<Rightarrow> nat \<Rightarrow> Pipeline \<Rightarrow> cpp_error + (Pipeline \<times> drain_pc)" where
  "drain_alone ju js slice_n ok i p =
     foldl (\<lambda>r _. case r of Inl e \<Rightarrow> Inl e | Inr (p, DrainIdle) \<Rightarrow> Inr (p, DrainIdle)
                   | Inr (p, pc) \<Rightarrow> drain_step ju js slice_n ok i p pc)
       (drain_step ju js slice_n ok i p DrainIdle) [0..<4]"

lemma drain_alone_transcodes:
  assumes "i < length (p_groups p)"
  shows "drain_alone ju js slice_n ok i p =
    (case transcode_batch_now ju js slice_n ok (p_ing p) (p_wal p) (p_groups p ! i) of
       Inl e \<Rightarrow> Inl e
     | Inr (ing, wal, rg, _) \<Rightarrow>
         Inr (p\<lparr>p_ing := ing, p_wal := wal, p_groups := (p_groups p)[i := rg]\<rparr>, DrainIdle))"
proof -
  have same: "p = p\<lparr>p_groups := (p_groups p)[i := x]\<rparr>" if "p_groups p ! i = x" for x
    using that by auto
  from assms show ?thesis
    by (auto simp: drain_alone_def transcode_batch_now_def upt_rec Let_def intro: same split: option.splits sum.splits)
qed

text \<open>What a worker holds fits to its pointer, which only changes from raw to compacted.\<close>

fun worker_ok :: "RowGroup option list \<Rightarrow> drain_pc \<Rightarrow> bool" where
  "worker_ok gs (DrainLoaded i lines) \<longleftrightarrow>
     i < length gs \<and> (needs_drain (gs ! i) \<longrightarrow> length (pending (gs ! i)) = length lines)"
| "worker_ok gs (DrainBuilt i g n) \<longleftrightarrow>
     i < length gs \<and> is_compacted g \<and> (needs_drain (gs ! i) \<longrightarrow> length (pending (gs ! i)) = n)"
| "worker_ok gs _ \<longleftrightarrow> True"

fun worker_first :: "RowGroup option list \<Rightarrow> drain_pc \<Rightarrow> bool" where
  "worker_first gs (DrainLoaded i _) \<longleftrightarrow> i < length gs \<and> needs_drain (gs ! i)"
| "worker_first gs (DrainBuilt i _ _) \<longleftrightarrow> i < length gs \<and> needs_drain (gs ! i)"
| "worker_first gs _ \<longleftrightarrow> True"

definition pipe_inv :: "nat \<Rightarrow> Pipeline \<Rightarrow> bool" where
  "pipe_inv k p \<longleftrightarrow> ingester_wf (p_ing p) \<and> wal_wf (p_wal p) \<and>
     active_buffer_depth (p_ing p) + of_nat k = of_nat (held_lines p) \<and>
     (\<forall>pc \<in> set (p_workers p). worker_ok (p_groups p) pc) \<and>
     (length (p_workers p) \<le> 1 \<longrightarrow> k = 0 \<and> (\<forall>pc \<in> set (p_workers p). worker_first (p_groups p) pc))"

lemma pipe_inv_new: "wal_wf wal \<Longrightarrow> pipe_inv 0 (Pipeline_new wal producers workers)"
proof -
  have "active_buffer_depth AdaptiveIngester_new = 0" by (simp add: AdaptiveIngester_new_def)
  then show "wal_wf wal \<Longrightarrow> pipe_inv 0 (Pipeline_new wal producers workers)"
    by (auto simp: pipe_inv_def Pipeline_new_def ingester_wf_new held_lines_def raw_lines_def counted_lines_def stored_lines_def
        sum_list_replicate)
qed

lemma sum_list_replace:
  fixes f :: "'a \<Rightarrow> nat"
  assumes "t < length xs"
  shows "sum_list (map f (xs[t := y])) + f (xs ! t) = sum_list (map f xs) + f y"
proof -
  have "f (xs ! t) \<le> sum_list (map f xs)" using assms by (intro member_le_sum_list) auto
  then show ?thesis using assms sum_list_update [of t "map f xs" "f y"] by (simp add: map_update)
qed

lemma drained_pending: "\<not> needs_drain g \<Longrightarrow> pending g = []"
  by (auto simp: needs_drain_def pending_def split: option.splits)

lemma staged_group_facts:
  "needs_drain (Some (staged_group b))" "pending (Some (staged_group b)) = b"
  by (simp_all add: needs_drain_def pending_def staged_group_def)

lemma worker_ok_push: "worker_ok gs pc \<Longrightarrow> worker_ok (gs @ [g]) pc"
  by (cases pc) (auto simp: nth_append)

lemma worker_first_push: "worker_first gs pc \<Longrightarrow> worker_first (gs @ [g]) pc"
  by (cases pc) (auto simp: nth_append)

lemma worker_ok_store: "worker_ok gs pc \<Longrightarrow> \<not> needs_drain g \<Longrightarrow> worker_ok (gs[i := g]) pc"
  by (cases "i < length gs"; cases pc) (auto simp: nth_list_update)

lemma line_counts:
  "raw_lines (p\<lparr>p_ing := a\<rparr>) = raw_lines p" "raw_lines (p\<lparr>p_wal := w\<rparr>) = raw_lines p"
  "raw_lines (p\<lparr>p_producers := ps\<rparr>) = raw_lines p" "raw_lines (p\<lparr>p_workers := ws\<rparr>) = raw_lines p"
  "counted_lines (p\<lparr>p_ing := a\<rparr>) = counted_lines p" "counted_lines (p\<lparr>p_wal := w\<rparr>) = counted_lines p"
  "counted_lines (p\<lparr>p_groups := gs\<rparr>) = counted_lines p" "counted_lines (p\<lparr>p_workers := ws\<rparr>) = counted_lines p"
  "stored_lines (p\<lparr>p_ing := a\<rparr>) = stored_lines p" "stored_lines (p\<lparr>p_wal := w\<rparr>) = stored_lines p"
  "stored_lines (p\<lparr>p_groups := gs\<rparr>) = stored_lines p" "stored_lines (p\<lparr>p_producers := ps\<rparr>) = stored_lines p"
  "raw_lines (p\<lparr>p_groups := p_groups p @ [g]\<rparr>) = raw_lines p + length (pending g)"
  by (simp_all add: raw_lines_def counted_lines_def stored_lines_def)

abbreviation counted :: "stage_pc \<Rightarrow> nat" where
  "counted pc \<equiv> (case pc of StageCounted b \<Rightarrow> length b | _ \<Rightarrow> 0)"

abbreviation stored :: "drain_pc \<Rightarrow> nat" where
  "stored pc \<equiv> (case pc of DrainStored n \<Rightarrow> n | _ \<Rightarrow> 0)"

lemma counted_lines_replace:
  assumes "t < length (p_producers p)"
  shows "counted_lines (q\<lparr>p_producers := (p_producers p)[t := pc]\<rparr>) + counted (p_producers p ! t) =
    counted_lines p + counted pc"
  using sum_list_replace [OF assms, of counted pc] by (simp add: counted_lines_def)

lemma stored_lines_replace:
  assumes "t < length (p_workers p)"
  shows "stored_lines (q\<lparr>p_workers := (p_workers p)[t := pc]\<rparr>) + stored (p_workers p ! t) =
    stored_lines p + stored pc"
  using sum_list_replace [OF assms, of stored pc] by (simp add: stored_lines_def)

lemma raw_lines_replace:
  assumes "i < length (p_groups p)"
  shows "raw_lines (p\<lparr>p_groups := (p_groups p)[i := g]\<rparr>) + length (pending (p_groups p ! i)) =
    raw_lines p + length (pending g)"
  using sum_list_replace [OF assms, of "\<lambda>g. length (pending g)" g] by (simp add: raw_lines_def)

lemma in_set_replaced: "x \<in> set (xs[t := y]) \<Longrightarrow> x = y \<or> x \<in> set xs"
  using set_update_subset_insert [of xs t y] by auto

text \<open>The invariant after a step follows from the parts that the step concerns.\<close>

lemma pipe_inv_step:
  assumes inv: "pipe_inv k p" and ws: "p_workers q = (p_workers p)[t := pc]"
    and "ingester_wf (p_ing q)" "wal_wf (p_wal q)"
    and depth: "active_buffer_depth (p_ing q) + of_nat (k' + held_lines p) =
      active_buffer_depth (p_ing p) + of_nat (k + held_lines q)"
    and ok: "\<And>x. worker_ok (p_groups p) x \<Longrightarrow> worker_ok (p_groups q) x" "worker_ok (p_groups q) pc"
    and first: "length (p_workers p) \<le> 1 \<Longrightarrow> k' = k \<and> worker_first (p_groups q) pc"
    and alone: "length (p_workers p) \<le> 1 \<Longrightarrow> t < length (p_workers p) \<or>
      (\<forall>x. worker_first (p_groups p) x \<longrightarrow> worker_first (p_groups q) x)"
  shows "pipe_inv k' q"
proof -
  have d: "active_buffer_depth (p_ing q) + of_nat k' = of_nat (held_lines q)"
  proof -
    have "active_buffer_depth (p_ing p) + of_nat k = of_nat (held_lines p)" using inv by (simp add: pipe_inv_def)
    moreover have "(active_buffer_depth (p_ing q) + of_nat k') + of_nat (held_lines p) =
        of_nat (held_lines q) + (active_buffer_depth (p_ing p) + of_nat k)"
      using depth by (simp add: algebra_simps)
    ultimately show ?thesis by simp
  qed
  have "worker_first (p_groups q) x" if "length (p_workers p) \<le> 1" "x \<in> set (p_workers q)" for x
  proof (cases "t < length (p_workers p)")
    case True
    with that have "p_workers q = [pc]" by (cases "p_workers p") (auto simp: ws)
    with that first show ?thesis by simp
  next
    case False
    with that alone inv show ?thesis by (auto simp: ws pipe_inv_def list_update_beyond)
  qed
  with assms(3,4) d ok first inv show ?thesis
    by (auto simp: pipe_inv_def ws dest: in_set_replaced)
qed

lemma stage_step_inv:
  assumes inv: "pipe_inv k p" and t: "t < length (p_producers p)"
    and step: "stage_step ok batch p (p_producers p ! t) = (p', pc)"
  shows "pipe_inv k (p'\<lparr>p_producers := (p_producers p)[t := pc]\<rparr>)"
proof -
  let ?q = "p'\<lparr>p_producers := (p_producers p)[t := pc]\<rparr>"
  note sum = counted_lines_replace [OF t, of pc p']
  have wf: "ingester_wf (p_ing p)" "wal_wf (p_wal p)" using inv by (simp_all add: pipe_inv_def)
  have wal: "wal_wf (snd (append_wal_entry ok b (p_wal p)))" for b
    using wf(2) wal.inv_append [of "p_wal p" b] by (cases ok) (simp_all add: append_wal_entry_def)
  have same: "p_workers ?q = (p_workers p)[length (p_workers p) := DrainIdle]"
    using step by (cases "p_producers p ! t") (auto simp: list_update_beyond)
  have "ingester_wf (p_ing ?q)" "wal_wf (p_wal ?q)"
    using step wf wal by (cases "p_producers p ! t"; auto simp: ingester_wf_def)+
  moreover have "held_lines ?q = held_lines p + (case p_producers p ! t of StageLogged b \<Rightarrow> length b | _ \<Rightarrow> 0)"
    using step sum by (cases "p_producers p ! t") (auto simp: held_lines_def line_counts staged_group_facts)
  moreover have "active_buffer_depth (p_ing ?q) =
      active_buffer_depth (p_ing p) + of_nat (case p_producers p ! t of StageLogged b \<Rightarrow> length b | _ \<Rightarrow> 0)"
    using step by (cases "p_producers p ! t") auto
  moreover have "worker_ok (p_groups p) x \<Longrightarrow> worker_ok (p_groups ?q) x"
    "worker_first (p_groups p) x \<Longrightarrow> worker_first (p_groups ?q) x" for x
    using step by (cases "p_producers p ! t"; auto simp: worker_ok_push worker_first_push)+
  ultimately show ?thesis
    by (intro pipe_inv_step [OF inv same]) (simp_all add: algebra_simps)
qed

lemma drain_step_inv:
  assumes s: "slicer_spec slice_n" and inv: "pipe_inv k p" and t: "t < length (p_workers p)"
    and idle: "p_workers p ! t = DrainIdle \<Longrightarrow> i < length (p_groups p)"
  shows "\<exists>p' pc. drain_step ju js slice_n ok i p (p_workers p ! t) = Inr (p', pc) \<and>
    pipe_inv (k + redrained p (p_workers p ! t)) (p'\<lparr>p_workers := (p_workers p)[t := pc]\<rparr>)"
proof -
  note sum = stored_lines_replace [OF t]
  have wf: "ingester_wf (p_ing p)" "wal_wf (p_wal p)" using inv by (simp_all add: pipe_inv_def)
  have ok_t: "worker_ok (p_groups p) (p_workers p ! t)" using inv t by (auto simp: pipe_inv_def)
  have first_t: "worker_first (p_groups p) (p_workers p ! t)" if "length (p_workers p) \<le> 1"
    using inv t that by (auto simp: pipe_inv_def)
  show ?thesis
  proof (cases "p_workers p ! t")
    case DrainIdle
    note i = idle [OF DrainIdle]
    define pc where "pc = (if needs_drain (p_groups p ! i) then DrainLoaded i (pending (p_groups p ! i)) else DrainIdle)"
    have "drain_step ju js slice_n ok i p (p_workers p ! t) = Inr (p, pc)"
      using i DrainIdle by (auto simp: pc_def needs_drain_def pending_def split: option.splits)
    moreover have "pipe_inv k (p\<lparr>p_workers := (p_workers p)[t := pc]\<rparr>)"
      by (rule pipe_inv_step [OF inv, of _ t pc])
        (use wf t i sum [of pc p] DrainIdle in \<open>auto simp: pc_def held_lines_def line_counts\<close>)
    ultimately show ?thesis using DrainIdle by (simp add: redrained_def)
  next
    case (DrainLoaded j lines)
    obtain ing' rg where c: "ingest_chunk ju js slice_n (p_ing p) lines = Inr (ing', rg)" "ingester_wf ing'"
      "active_buffer_depth ing' = active_buffer_depth (p_ing p)"
      using ingest_chunk_done [OF s wf(1), of ju js lines] by blast
    let ?pc = "DrainBuilt j (rg\<lparr>is_compacted := True\<rparr>) (length lines)" let ?p = "p\<lparr>p_ing := ing'\<rparr>"
    have "pipe_inv k (?p\<lparr>p_workers := (p_workers p)[t := ?pc]\<rparr>)"
      by (rule pipe_inv_step [OF inv, of _ t ?pc])
        (use wf t c ok_t first_t sum [of ?pc ?p] DrainLoaded in \<open>auto simp: held_lines_def line_counts\<close>)
    then show ?thesis using DrainLoaded c by (simp add: redrained_def)
  next
    case (DrainBuilt j g n)
    with ok_t have j: "j < length (p_groups p)" "is_compacted g"
      "needs_drain (p_groups p ! j) \<Longrightarrow> length (pending (p_groups p ! j)) = n" by auto
    let ?p = "p\<lparr>p_groups := (p_groups p)[j := Some g]\<rparr>" let ?q = "?p\<lparr>p_workers := (p_workers p)[t := DrainStored n]\<rparr>"
    have d: "\<not> needs_drain (Some g)" using j(2) by (simp add: needs_drain_def)
    have "raw_lines ?p + length (pending (p_groups p ! j)) = raw_lines p"
      using raw_lines_replace [OF j(1), of "Some g"] drained_pending [OF d] by simp
    then have "raw_lines ?p + n = raw_lines p + redrained p (p_workers p ! t)"
      using j(3) drained_pending [of "p_groups p ! j"] by (auto simp: redrained_def DrainBuilt)
    then have "held_lines ?q = held_lines p + redrained p (p_workers p ! t)"
      using sum [of "DrainStored n" ?p] DrainBuilt by (simp add: held_lines_def line_counts)
    moreover have "length (p_workers p) \<le> 1 \<Longrightarrow> redrained p (p_workers p ! t) = 0"
      using first_t DrainBuilt by (simp add: redrained_def)
    ultimately have "pipe_inv (k + redrained p (p_workers p ! t)) ?q"
      by (intro pipe_inv_step [OF inv, of _ t "DrainStored n"]) (use wf t d in \<open>auto simp: worker_ok_store\<close>)
    then show ?thesis using DrainBuilt by simp
  next
    case (DrainStored n)
    let ?p = "p\<lparr>p_ing := (p_ing p)\<lparr>active_buffer_depth := active_buffer_depth (p_ing p) - of_nat n\<rparr>\<rparr>"
    let ?q = "?p\<lparr>p_workers := (p_workers p)[t := DrainSubtracted]\<rparr>"
    have "held_lines p = held_lines ?q + n"
      using sum [of DrainSubtracted ?p] DrainStored by (simp add: held_lines_def line_counts)
    then have "pipe_inv k ?q"
      by (intro pipe_inv_step [OF inv, of _ t DrainSubtracted]) (use wf t in \<open>auto simp: ingester_wf_def\<close>)
    then show ?thesis using DrainStored by (simp add: redrained_def)
  next
    case DrainSubtracted
    let ?p = "p\<lparr>p_wal := truncate_wal ok (p_wal p)\<rparr>"
    have "wal_wf (truncate_wal ok (p_wal p))"
      using wf wal.inv_clear [of "p_wal p"] by (cases ok) (simp_all add: truncate_wal_def)
    then have "pipe_inv k (?p\<lparr>p_workers := (p_workers p)[t := DrainIdle]\<rparr>)"
      by (intro pipe_inv_step [OF inv, of _ t DrainIdle])
        (use wf t sum [of DrainIdle ?p] DrainSubtracted in \<open>auto simp: held_lines_def line_counts\<close>)
    then show ?thesis using DrainSubtracted by (simp add: redrained_def)
  qed
qed

lemma pipe_run_inv:
  assumes "slicer_spec slice_n" "pipe_inv 0 p0" "pipe_run ju js slice_n p0 k p"
  shows "pipe_inv k p \<and> length (p_workers p) = length (p_workers p0)"
  using assms(3)
proof induction
  case (pipe_stage k p t ok batch p' pc)
  then have "p_workers p' = p_workers p" by (cases "p_producers p ! t") auto
  with pipe_stage stage_step_inv show ?case by fastforce
next
  case (pipe_drain k p t ok i p' pc)
  then have "p_workers p ! t = DrainIdle \<Longrightarrow> i < length (p_groups p)" by (auto split: if_splits)
  with drain_step_inv [OF assms(1), where p = p and t = t and i = i and k = k and ju = ju and js = js and ok = ok] pipe_drain
  show ?case by fastforce
qed (use assms(2) in simp)

text \<open>A state with one staged batch, and the first step of a worker from it.\<close>

definition staged_state :: "string list \<Rightarrow> drain_pc list \<Rightarrow> Pipeline" where
  "staged_state b ws =
     \<lparr>p_ing = AdaptiveIngester_new\<lparr>active_buffer_depth := of_nat (length b)\<rparr>, p_wal = Some (encode_batch b),
      p_groups = [Some (staged_group b)], p_producers = [StageIdle], p_workers = ws\<rparr>"

lemma run_stage:
  assumes "pipe_run ju js slice_n p0 k p" "t < length (p_producers p)"
    and "(case stage_step ok batch p (p_producers p ! t) of (p', pc) \<Rightarrow> p'\<lparr>p_producers := (p_producers p)[t := pc]\<rparr> = q)"
  shows "pipe_run ju js slice_n p0 k q"
  using pipe_stage [OF assms(1,2), of ok batch] assms(3) by (auto split: prod.splits)

lemma run_drain:
  assumes "pipe_run ju js slice_n p0 k p" "t < length (p_workers p)"
    and "(case drain_step ju js slice_n ok i p (p_workers p ! t) of Inl e \<Rightarrow> False
      | Inr (p', pc) \<Rightarrow> p'\<lparr>p_workers := (p_workers p)[t := pc]\<rparr> = q)"
    and "k' = k + redrained p (p_workers p ! t)"
  shows "pipe_run ju js slice_n p0 k' q"
  using pipe_drain [OF assms(1,2), of ok i] assms(3,4) by (auto split: sum.splits prod.splits)

lemma staged_run: "pipe_run ju js slice_n (Pipeline_new None 1 n) 0 (staged_state b (replicate n DrainIdle))"
proof -
  let ?S = "\<lambda>d wal gs pc. \<lparr>p_ing = AdaptiveIngester_new\<lparr>active_buffer_depth := d\<rparr>, p_wal = wal, p_groups = gs,
    p_producers = [pc], p_workers = replicate n DrainIdle\<rparr>"
  let ?run = "pipe_run ju js slice_n (Pipeline_new None 1 n) 0"
  have "?run (?S 0 None [] StageIdle)"
    using pipe_start [of ju js slice_n "Pipeline_new None 1 n"] by (simp add: Pipeline_new_def AdaptiveIngester_new_def)
  then have "?run (?S 0 (Some (encode_batch b)) [] (StageLogged b))"
    by (rule run_stage [where t = 0 and ok = True and batch = b]) (simp_all add: append_wal_entry_def)
  then have "?run (?S (of_nat (length b)) (Some (encode_batch b)) [] (StageCounted b))"
    by (rule run_stage [where t = 0]) simp_all
  then have "?run (?S (of_nat (length b)) (Some (encode_batch b)) [Some (staged_group b)] StageIdle)"
    by (rule run_stage [where t = 0]) simp_all
  then show ?thesis by (simp add: staged_state_def)
qed

section \<open>Properties\<close>

text \<open>C30: what the depth counter counts. In every state that any number of producers and workers reach,
  in any interleaving of their steps, \<open>active_buffer_depth\<close> is the number of lines that published row
  groups hold in raw form, with the lines that a producer has counted and not published yet and those
  that a worker has stored and not subtracted yet, less the lines that were drained a second time (modulo
  \<open>2^64\<close>). With at most one worker nothing is drained twice. No step of a worker on an existing row group
  fails.\<close>

theorem buffer_depth_exact:
  assumes "slicer_spec slice_n" "wal_wf wal" "pipe_run ju js slice_n (Pipeline_new wal producers workers) k p"
  shows "active_buffer_depth (p_ing p) = of_nat (raw_lines p + counted_lines p + stored_lines p) - of_nat k \<and>
    (workers \<le> 1 \<longrightarrow> k = 0) \<and>
    (\<forall>t i ok. t < length (p_workers p) \<and> i < length (p_groups p) \<longrightarrow>
       (\<exists>p' pc. drain_step ju js slice_n ok i p (p_workers p ! t) = Inr (p', pc)))"
proof -
  have inv: "pipe_inv k p" "length (p_workers p) = workers"
    using pipe_run_inv [OF assms(1) pipe_inv_new [OF assms(2)] assms(3)] by (simp_all add: Pipeline_new_def)
  then have "active_buffer_depth (p_ing p) + of_nat k = of_nat (held_lines p)" "workers \<le> 1 \<longrightarrow> k = 0"
    by (simp_all add: pipe_inv_def)
  then show ?thesis
    using drain_step_inv [OF assms(1) inv(1)] by (fastforce simp: held_lines_def eq_diff_eq)
qed

theorem buffer_depth_exact_witness:
  "\<exists>p. pipe_run sample_u64 sample_str ref_slice (Pipeline_new None 1 1) 0 p \<and> active_buffer_depth (p_ing p) = 2 \<and>
     raw_lines p = 2 \<and> p_workers p ! 0 = DrainLoaded 0 [''a'', ''b'']"
proof -
  let ?p = "staged_state [''a'', ''b''] [DrainLoaded 0 [''a'', ''b'']]"
  have run: "pipe_run sample_u64 sample_str ref_slice (Pipeline_new None 1 1) 0 ?p"
    by (rule run_drain [OF staged_run [where b = "[''a'', ''b'']"], where t = 0 and i = 0])
      (simp_all add: staged_state_def staged_group_def redrained_def)
  have "raw_lines ?p = 2" "counted_lines ?p = 0" "stored_lines ?p = 0"
    by (simp_all add: staged_state_def raw_lines_def counted_lines_def stored_lines_def staged_group_facts)
  moreover have "p_workers ?p ! 0 = DrainLoaded 0 [''a'', ''b'']" by (simp add: staged_state_def)
  moreover have "active_buffer_depth (p_ing ?p) = of_nat (raw_lines ?p + counted_lines ?p + stored_lines ?p) - of_nat 0"
    using buffer_depth_exact [OF ref_slice_spec _ run] by (simp add: wal_wf_def)
  ultimately show ?thesis using run by (intro exI [of _ ?p]) simp
qed

text \<open>two workers on one pointer break the counter. Both pass the test of \<open>is_compacted\<close> before either
  stores; when all is done the row group is compacted, no line is held in raw form, and the counter is
  below zero by the length of the batch, which wraps around.\<close>

theorem double_drain_wraps:
  fixes b :: "string list"
  assumes "slicer_spec slice_n"
  shows "\<exists>p. pipe_run ju js slice_n (Pipeline_new None 1 2) (length b) p \<and> p_workers p = [DrainIdle, DrainIdle] \<and>
    held_lines p = 0 \<and> active_buffer_depth (p_ing p) = - of_nat (length b)"
proof -
  let ?S = "\<lambda>ing wal g a c. \<lparr>p_ing = ing, p_wal = wal, p_groups = [Some g], p_producers = [StageIdle], p_workers = [a, c]\<rparr>"
  let ?run = "pipe_run ju js slice_n (Pipeline_new None 1 2)" let ?n = "length b"
  let ?log = "Some (encode_batch b)" let ?raw = "staged_group b"
  define ing where "ing = AdaptiveIngester_new\<lparr>active_buffer_depth := of_nat ?n\<rparr>"
  have wf: "ingester_wf ing" using ingester_wf_new by (simp add: ing_def ingester_wf_def)
  from ingest_chunk_done [OF assms wf, of ju js b] obtain ing1 g1 where
    1: "ingest_chunk ju js slice_n ing b = Inr (ing1, g1)" "ingester_wf ing1" by blast
  from ingest_chunk_done [OF assms 1(2), of ju js b] obtain ing2 g2 where
    2: "ingest_chunk ju js slice_n ing1 b = Inr (ing2, g2)" by blast
  let ?g1 = "g1\<lparr>is_compacted := True\<rparr>" let ?g2 = "g2\<lparr>is_compacted := True\<rparr>" let ?L = "DrainLoaded 0 b"
  let ?B1 = "DrainBuilt 0 ?g1 ?n" let ?B2 = "DrainBuilt 0 ?g2 ?n" let ?st = "DrainStored ?n"
  let ?sub = "\<lambda>i. i\<lparr>active_buffer_depth := active_buffer_depth i - of_nat ?n\<rparr>"
  have raw: "\<not> is_compacted ?raw" "raw_chunk_buffer ?raw = b" by (simp_all add: staged_group_def)
  have "?run 0 (?S ing ?log ?raw DrainIdle DrainIdle)"
    using staged_run [of ju js slice_n 2 b] by (simp add: staged_state_def ing_def numeral_2_eq_2)
  then have "?run 0 (?S ing ?log ?raw ?L DrainIdle)"
    by (rule run_drain [where t = 0 and i = 0]) (simp_all add: raw redrained_def)
  then have "?run 0 (?S ing ?log ?raw ?L ?L)"
    by (rule run_drain [where t = 1 and i = 0]) (simp_all add: raw redrained_def)
  then have "?run 0 (?S ing1 ?log ?raw ?B1 ?L)"
    by (rule run_drain [where t = 0]) (simp_all add: 1 redrained_def)
  then have "?run 0 (?S ing2 ?log ?raw ?B1 ?B2)"
    by (rule run_drain [where t = 1]) (simp_all add: 2 redrained_def)
  then have "?run 0 (?S ing2 ?log ?g1 ?st ?B2)"
    by (rule run_drain [where t = 0]) (simp_all add: redrained_def staged_group_facts)
  then have "?run ?n (?S ing2 ?log ?g2 ?st ?st)"
    by (rule run_drain [where t = 1]) (simp_all add: redrained_def needs_drain_def)
  then have "?run ?n (?S (?sub ing2) ?log ?g2 DrainSubtracted ?st)"
    by (rule run_drain [where t = 0]) (simp_all add: redrained_def)
  then have "?run ?n (?S (?sub (?sub ing2)) ?log ?g2 DrainSubtracted DrainSubtracted)"
    by (rule run_drain [where t = 1]) (simp_all add: redrained_def)
  then have "?run ?n (?S (?sub (?sub ing2)) (Some []) ?g2 DrainIdle DrainSubtracted)"
    by (rule run_drain [where t = 0 and ok = True]) (simp_all add: redrained_def truncate_wal_def)
  then have run: "?run ?n (?S (?sub (?sub ing2)) (Some []) ?g2 DrainIdle DrainIdle)"
    by (rule run_drain [where t = 1 and ok = True]) (simp_all add: redrained_def truncate_wal_def)
  let ?p = "?S (?sub (?sub ing2)) (Some []) ?g2 DrainIdle DrainIdle"
  have held: "held_lines ?p = 0"
    by (simp add: held_lines_def raw_lines_def counted_lines_def stored_lines_def pending_def)
  have "pipe_inv ?n ?p"
    using pipe_run_inv [OF assms pipe_inv_new run] by (simp add: wal_wf_def)
  then have "active_buffer_depth (p_ing ?p) + of_nat ?n = 0" unfolding pipe_inv_def held by simp
  then have "active_buffer_depth (p_ing ?p) = - of_nat ?n" by (simp add: eq_neg_iff_add_eq_0)
  then show ?thesis using run held by (intro exI [of _ ?p]) simp
qed

theorem double_drain_wraps_witness:
  "\<exists>p. pipe_run sample_u64 sample_str ref_slice (Pipeline_new None 1 2) 1 p \<and> active_buffer_depth (p_ing p) = - 1"
  using double_drain_wraps [OF ref_slice_spec, of sample_u64 sample_str "[''a'']"] by auto

text \<open>committing one row group empties the log of all of them. When one of two staged batches is drained,
  the other one is still held in raw form, and nothing of it can be recovered from the log any more.\<close>

theorem drain_drops_other_batches:
  assumes "slicer_spec slice_n" "ingester_wf ing"
    and "append_raw_batch True ing wal b1 = (ing1, wal1, rg1)" "append_raw_batch True ing1 wal1 b2 = (ing2, wal2, rg2)"
  shows "\<exists>ing3 wal3 rg3. transcode_batch_now ju js slice_n True ing2 wal2 (Some rg1) = Inr (ing3, wal3, rg3, length b1) \<and>
    pending (Some rg2) = b2 \<and> recover_from_wal True wal3 = []"
proof -
  note 1 = append_raw_batch_simps [OF assms(3)] and 2 = append_raw_batch_simps [OF assms(4)]
  have wf: "ingester_wf ing2" using 1(1) 2(1) assms(2) by simp
  have "needs_drain (Some rg1)" using 1(5) by (simp add: needs_drain_def)
  then show ?thesis
    using transcode_batch_spec [OF assms(1) wf, of ju js True wal2 "Some rg1"] 1(4) 2(4) wal.recover_clear by fastforce
qed

theorem drain_drops_other_batches_witness:
  "\<exists>ing1 wal1 rg1 ing2 wal2 rg2 ing3 wal3 rg3.
     append_raw_batch True AdaptiveIngester_new None [''{first}''] = (ing1, wal1, rg1) \<and>
     append_raw_batch True ing1 wal1 [''{second}''] = (ing2, wal2, rg2) \<and>
     transcode_batch_now sample_u64 sample_str ref_slice True ing2 wal2 (Some rg1) = Inr (ing3, wal3, rg3, 1) \<and>
     pending (Some rg2) = [''{second}''] \<and> recover_from_wal True wal3 = []"
proof -
  obtain ing1 wal1 rg1 where 1: "append_raw_batch True AdaptiveIngester_new None [''{first}''] = (ing1, wal1, rg1)"
    using prod_cases3 by blast
  obtain ing2 wal2 rg2 where 2: "append_raw_batch True ing1 wal1 [''{second}''] = (ing2, wal2, rg2)"
    using prod_cases3 by blast
  from drain_drops_other_batches [OF ref_slice_spec ingester_wf_new 1 2, of sample_u64 sample_str] 1 2
  show ?thesis by fastforce
qed

end
