(* ===== verification/Query_Planner.thy ===== *)
theory Query_Planner
  imports Adaptive_Ingester
begin

text \<open>
  The pruning planner of \<^verbatim>\<open>include/lex/jit/query_planner.hpp\<close> and
  \<^verbatim>\<open>src/lex/jit/query_planner.cpp\<close>: \<open>evaluate_pruning\<close> answers \<open>false\<close> when a row group can be
  skipped for a predicate, from the group's zone maps and Bloom filter alone.
\<close>

section \<open>Model\<close>

datatype OpType = OP_EQ | OP_GT | OP_AND

datatype PredicateNode =
  PredicateNode OpType (pfield: string) (val_u64: u64) (val_str: string)
    "PredicateNode option" "PredicateNode option"

definition gt_slot :: "string \<Rightarrow> nat" where
  "gt_slot f = (if f = ''latency'' then 1 else 0)"

definition eq_slot :: "string \<Rightarrow> nat" where
  "eq_slot f = (if f = ''status'' then 0 else 0)"

fun evaluate_pruning :: "RowGroup \<Rightarrow> PredicateNode \<Rightarrow> bool" where
  "evaluate_pruning rg (PredicateNode op f v s l r) =
     (case op of
        OP_AND \<Rightarrow>
          (let left_res = (case l of Some n \<Rightarrow> evaluate_pruning rg n | None \<Rightarrow> True)
           in if \<not> left_res then False
              else (case r of Some n \<Rightarrow> evaluate_pruning rg n | None \<Rightarrow> True))
      | OP_GT \<Rightarrow>
          (let slot = gt_slot f in
           if slot < length (zone_maps rg) \<and> has_values (zone_maps rg ! slot) \<and>
              zm_type (zone_maps rg ! slot) = UINT64 \<and> zm_max (zone_maps rg ! slot) \<le> v
           then False else True)
      | OP_EQ \<Rightarrow>
          (if s \<noteq> [] then bloom_contains (string_bloom rg) s
           else let slot = eq_slot f in
             if slot < length (zone_maps rg) \<and> has_values (zone_maps rg ! slot) \<and>
                zm_type (zone_maps rg ! slot) = UINT64 \<and>
                (v < zm_min (zone_maps rg ! slot) \<or> v > zm_max (zone_maps rg ! slot))
             then False else True))"

subsection \<open>What a predicate says of a line\<close>

text \<open>The numeric value of a field as the ingester extracts it, and the string value of a
  field.\<close>

definition field_u64 :: "json_u64 \<Rightarrow> string \<Rightarrow> string \<Rightarrow> u64" where
  "field_u64 ju line f =
     (if f = ''status'' then parse_status ju line
      else if f = ''latency'' then parse_latency ju line
      else case ju line f of Some v \<Rightarrow> v | None \<Rightarrow> 0)"

fun line_satisfies :: "json_u64 \<Rightarrow> json_str \<Rightarrow> string \<Rightarrow> PredicateNode \<Rightarrow> bool" where
  "line_satisfies ju js line (PredicateNode op f v s l r) =
     (case op of
        OP_AND \<Rightarrow> (case l of Some n \<Rightarrow> line_satisfies ju js line n | None \<Rightarrow> True) \<and>
                  (case r of Some n \<Rightarrow> line_satisfies ju js line n | None \<Rightarrow> True)
      | OP_GT \<Rightarrow> field_u64 ju line f > v
      | OP_EQ \<Rightarrow> (if s \<noteq> [] then js line f = Some s else field_u64 ju line f = v))"

text \<open>The predicates the planner's slot choice is made for: \<open>>\<close> on status or latency,
  numeric \<open>==\<close> on status, string \<open>==\<close> on the trace identifier.\<close>

fun planner_supports :: "PredicateNode \<Rightarrow> bool" where
  "planner_supports (PredicateNode op f v s l r) =
     (case op of
        OP_AND \<Rightarrow> (case l of Some n \<Rightarrow> planner_supports n | None \<Rightarrow> True) \<and>
                  (case r of Some n \<Rightarrow> planner_supports n | None \<Rightarrow> True)
      | OP_GT \<Rightarrow> f = ''status'' \<or> f = ''latency''
      | OP_EQ \<Rightarrow> (if s \<noteq> [] then f = ''trace_id'' else f = ''status''))"

section \<open>Lemmas\<close>

text \<open>The evidence a row group keeps for a line it was built from.\<close>

definition line_recorded :: "json_u64 \<Rightarrow> json_str \<Rightarrow> RowGroup \<Rightarrow> string \<Rightarrow> bool" where
  "line_recorded ju js rg line \<longleftrightarrow>
     zm_min (zone_maps rg ! 0) \<le> parse_status ju line \<and> parse_status ju line \<le> zm_max (zone_maps rg ! 0) \<and>
     zm_min (zone_maps rg ! 1) \<le> parse_latency ju line \<and> parse_latency ju line \<le> zm_max (zone_maps rg ! 1) \<and>
     (\<forall>t. parse_trace js line = Some t \<longrightarrow> bloom_contains (string_bloom rg) t)"

lemma zone_fold_encloses:
  assumes "v \<in> set vs"
  shows "zm_min (foldl update_u64 z vs) \<le> v \<and> v \<le> zm_max (foldl update_u64 z vs)"
  using zone_u64.zone_updates_enclose [of v vs z] assms by (simp add: update_u64_def lt_u64_def not_less)

lemma rows_done_recorded:
  assumes "rows_done ju js lines (num_blocks_for (length lines)) rg" "line \<in> set (take 65536 lines)"
  shows "line_recorded ju js rg line"
proof -
  have "bloom_contains (string_bloom rg) t" if "parse_trace js line = Some t" for t
  proof -
    have "t \<in> set (traces js (take 65536 lines))"
      using that assms(2) by (auto simp: traces_def List.map_filter_def intro!: image_eqI [where x = line])
    then show ?thesis
      using bloom.contains_adds [OF bloom_wf_new] assms(1) by (simp add: rows_done_def num_blocks_take)
  qed
  then show ?thesis
    using assms zone_fold_encloses by (simp add: line_recorded_def rows_done_def num_blocks_take)
qed

lemma pruning_keeps_recorded:
  assumes "line_recorded ju js rg line"
  shows "planner_supports node \<Longrightarrow> line_satisfies ju js line node \<Longrightarrow> evaluate_pruning rg node"
proof (induction node)
  case (PredicateNode op f v s l r)
  show ?case
  proof (cases op)
    case OP_AND
    with PredicateNode show ?thesis by (auto split: option.splits)
  next
    case OP_GT
    with PredicateNode.prems assms show ?thesis
      by (auto simp: line_recorded_def field_u64_def gt_slot_def Let_def not_le)
  next
    case OP_EQ
    with PredicateNode.prems assms show ?thesis
      by (auto simp: line_recorded_def field_u64_def eq_slot_def parse_trace_def Let_def split: if_splits)
  qed
qed

lemma bloom_new_contains_nothing: "\<not> bloom_contains (bloom_new n) k"
  using bloom_contains_iff_probes [OF bloom_wf_new] by (simp add: bloom_abs_new bloom_probes_def)

section \<open>Properties\<close>

text \<open>C5: pruning is conservative. For a row group built by \<open>ingest_chunk\<close> and any predicate tree
  over the comparisons the planner knows (status and latency bounds, status equality, trace
  identifier equality, conjunctions with absent children allowed), if one of the group's lines
  satisfies the predicate then \<open>evaluate_pruning\<close> does not skip the group.\<close>

theorem pruning_sound:
  assumes "slicer_spec slice_n" "ingester_wf ing" "ingest_chunk ju js slice_n ing lines = Inr (ing', rg)"
    and "planner_supports node" "line \<in> set (take 65536 lines)" "line_satisfies ju js line node"
  shows "evaluate_pruning rg node"
proof -
  have "rows_done ju js lines (num_blocks_for (length lines)) rg"
    using ingest_chunk_done [OF assms(1,2), of ju js lines] assms(3) by auto
  then show ?thesis using pruning_keeps_recorded rows_done_recorded assms(4-6) by blast
qed

theorem pruning_sound_witness:
  "\<exists>ing' rg. ingest_chunk sample_u64 (\<lambda>line key. Some line) ref_slice AdaptiveIngester_new [''abc-123''] = Inr (ing', rg) \<and>
    evaluate_pruning rg
      (PredicateNode OP_AND [] 0 []
        (Some (PredicateNode OP_EQ ''status'' 200 [] None None))
        (Some (PredicateNode OP_EQ ''trace_id'' 0 ''abc-123'' None None)))"
proof -
  obtain ing' rg where c:
    "ingest_chunk sample_u64 (\<lambda>line key. Some line) ref_slice AdaptiveIngester_new [''abc-123''] = Inr (ing', rg)"
    using ingest_chunk_done [OF ref_slice_spec ingester_wf_new] by blast
  have "evaluate_pruning rg
      (PredicateNode OP_AND [] 0 []
        (Some (PredicateNode OP_EQ ''status'' 200 [] None None))
        (Some (PredicateNode OP_EQ ''trace_id'' 0 ''abc-123'' None None)))"
    by (rule pruning_sound [OF ref_slice_spec ingester_wf_new c, where line = "''abc-123''"])
      (simp_all add: field_u64_def parse_status_def sample_u64_def)
  with c show ?thesis by blast
qed

text \<open>equality on latency is answered from the status column. If every status of the chunk is
  greater than \<open>v\<close>, the group is skipped for \<open>latency == v\<close>, even when a line of it has exactly
  that latency.\<close>

theorem latency_equality_misprunes:
  assumes "slicer_spec slice_n" "ingester_wf ing" "ingest_chunk ju js slice_n ing lines = Inr (ing', rg)"
    and "length lines \<le> 65536" "line \<in> set lines" "parse_latency ju line = v"
    and "\<forall>l \<in> set lines. v < parse_status ju l"
  shows "line_satisfies ju js line (PredicateNode OP_EQ ''latency'' v [] None None) \<and>
    \<not> evaluate_pruning rg (PredicateNode OP_EQ ''latency'' v [] None None)"
proof -
  have rd: "rows_done ju js lines (num_blocks_for (length lines)) rg"
    using ingest_chunk_done [OF assms(1,2), of ju js lines] assms(3) by auto
  have ne: "map (parse_status ju) (take 65536 lines) \<noteq> []" using assms(5,4) by auto
  have "zm_min (zone_maps rg ! 0) \<in> set (map (parse_status ju) (take 65536 lines))"
    using zone_u64.zone_updates_attained [OF ne, of "zone_new 0 0 UINT64"] rd
    by (simp add: rows_done_def num_blocks_take update_u64_def zone_new_def zone_reset_def)
  then have "v < zm_min (zone_maps rg ! 0)" using assms(7) by (auto dest: in_set_takeD)
  moreover have "has_values (zone_maps rg ! 0)" "zm_type (zone_maps rg ! 0) = UINT64"
    using rd ne zone_u64.zone_updates_has_values
    by (simp_all add: rows_done_def num_blocks_take update_u64_def zone_new_def zone_reset_def)
  moreover have "0 < length (zone_maps rg)" using rd by (simp add: rows_done_def rg_wf_def)
  ultimately show ?thesis using assms(6) by (simp add: field_u64_def eq_slot_def)
qed

theorem latency_equality_misprunes_witness:
  "\<exists>ing' rg. ingest_chunk sample_u64 sample_str ref_slice AdaptiveIngester_new [''x''] = Inr (ing', rg) \<and>
    line_satisfies sample_u64 sample_str ''x'' (PredicateNode OP_EQ ''latency'' 7 [] None None) \<and>
    \<not> evaluate_pruning rg (PredicateNode OP_EQ ''latency'' 7 [] None None)"
proof -
  obtain ing' rg where c: "ingest_chunk sample_u64 sample_str ref_slice AdaptiveIngester_new [''x''] = Inr (ing', rg)"
    using ingest_chunk_done [OF ref_slice_spec ingester_wf_new] by blast
  have "line_satisfies sample_u64 sample_str ''x'' (PredicateNode OP_EQ ''latency'' 7 [] None None) \<and>
    \<not> evaluate_pruning rg (PredicateNode OP_EQ ''latency'' 7 [] None None)"
    by (rule latency_equality_misprunes [OF ref_slice_spec ingester_wf_new c])
      (simp_all add: parse_status_def parse_latency_def sample_u64_def)
  with c show ?thesis by blast
qed

text \<open>staged row groups. Before a batch is drained its group has no summaries: numeric
  predicates never skip it, but every string equality does, whatever the raw lines contain.\<close>

theorem staged_group_pruning:
  assumes "append_raw_batch ok ing wal batch = (ing', wal', rg)"
  shows "evaluate_pruning rg (PredicateNode OP_GT f v s l r) \<and>
    evaluate_pruning rg (PredicateNode OP_EQ f v [] l r) \<and>
    \<not> evaluate_pruning rg (PredicateNode OP_EQ f v (c # cs) l r)"
  using append_raw_batch_simps [OF assms] bloom_new_contains_nothing
  by (auto simp: RowGroup_new_def zone_new_def zone_reset_def Let_def gt_slot_def eq_slot_def)

theorem staged_group_pruning_witness:
  "\<not> evaluate_pruning (snd (snd (append_raw_batch True AdaptiveIngester_new None [''{trace_id: abc}''])))
     (PredicateNode OP_EQ ''trace_id'' 0 ''abc'' None None)"
proof -
  obtain ing' wal' rg where a: "append_raw_batch True AdaptiveIngester_new None [''{trace_id: abc}''] = (ing', wal', rg)"
    by (cases "append_raw_batch True AdaptiveIngester_new None [''{trace_id: abc}'']")
  have "\<not> evaluate_pruning rg (PredicateNode OP_EQ ''trace_id'' 0 (CHR ''a'' # ''bc'') None None)"
    using staged_group_pruning [OF a] by blast
  with a show ?thesis by simp
qed

end
