(* ===== verification/Promotion_Daemon.thy ===== *)
theory Promotion_Daemon
  imports Adaptive_Ingester Complex_Main "HOL-Library.Log_Nat"
begin

text \<open>
  \<^verbatim>\<open>PromotionDaemon\<close> (\<^verbatim>\<open>include/lex/ingest/promotion_daemon.hpp\<close>,
  \<^verbatim>\<open>src/lex/ingest/promotion_daemon.cpp\<close>): the access heat of fields, the promotion threshold in
  double arithmetic, and the compaction rewrite that promotes warm strings to a hot column.
\<close>

section \<open>Model\<close>

subsection \<open>Positive doubles\<close>

text \<open>A non-negative finite double is \<open>m * 2^e\<close>, kept as \<open>(m, e)\<close> with \<open>m < 2^53\<close> after rounding
  (round to nearest, ties to even). The values of this component are far from the subnormal and
  the overflow range.\<close>

type_synonym dbl = "nat \<times> int"

definition dround :: "dbl \<Rightarrow> dbl" where
  "dround x =
     (case x of (m, e) \<Rightarrow>
       if m < 2 ^ 53 then (m, e)
       else let s = floorlog 2 m - 53; q = m div 2 ^ s; r = m mod 2 ^ s; half = 2 ^ (s - 1);
                q' = (if r > half \<or> (r = half \<and> odd q) then q + 1 else q)
            in (q', e + int s))"

definition dmul :: "dbl \<Rightarrow> dbl \<Rightarrow> dbl" where
  "dmul x y = dround (fst x * fst y, snd x + snd y)"

definition dadd :: "dbl \<Rightarrow> dbl \<Rightarrow> dbl" where
  "dadd x y =
     (let e = min (snd x) (snd y)
      in dround (fst x * 2 ^ nat (snd x - e) + fst y * 2 ^ nat (snd y - e), e))"

definition dlt :: "dbl \<Rightarrow> dbl \<Rightarrow> bool" where
  "dlt x y =
     (let e = min (snd x) (snd y)
      in fst x * 2 ^ nat (snd x - e) < fst y * 2 ^ nat (snd y - e))"

text \<open>The literals of the source as the compiler rounds them, and a \<open>uint32_t\<close> as a double.\<close>

definition d_0_7 :: dbl where "d_0_7 = (6305039478318694, - 53)"
definition d_0_3 :: dbl where "d_0_3 = (5404319552844595, - 54)"
definition d_0_05 :: dbl where "d_0_05 = (7205759403792794, - 57)"
definition d_0_15 :: dbl where "d_0_15 = (5404319552844595, - 55)"
definition d_0_01 :: dbl where "d_0_01 = (5764607523034235, - 59)"
definition d_of_u32 :: "u32 \<Rightarrow> dbl" where "d_of_u32 c = (unat c, 0)"

subsection \<open>Heat\<close>

record FieldHeat =
  fh_field_name :: string
  access_count :: u32
  current_section :: u8
  data_density :: dbl

definition FieldHeat_default :: FieldHeat where
  "FieldHeat_default = \<lparr>fh_field_name = [], access_count = 0, current_section = 1, data_density = d_0_05\<rparr>"

type_synonym heat_registry = "string \<Rightarrow> FieldHeat option"

definition record_query_access :: "heat_registry \<Rightarrow> string \<Rightarrow> heat_registry" where
  "record_query_access reg f =
     (let heat = (case reg f of Some h \<Rightarrow> h | None \<Rightarrow> FieldHeat_default)
      in reg(f \<mapsto> heat\<lparr>fh_field_name := f, access_count := access_count heat + 1\<rparr>))"

definition check_promotion_threshold :: "heat_registry \<Rightarrow> string \<Rightarrow> bool" where
  "check_promotion_threshold reg f =
     (case reg f of
        None \<Rightarrow> False
      | Some h \<Rightarrow>
          let heat_score = dadd (dmul (d_of_u32 (access_count h)) d_0_7) (dmul (data_density h) d_0_3)
          in dlt d_0_15 heat_score \<and> dlt d_0_01 (data_density h))"

subsection \<open>Compaction\<close>

text \<open>The loop over the 64 bits of a promoted value: each set bit is or-ed into its plane.\<close>

fun promote_bits :: "nat \<Rightarrow> nat \<Rightarrow> u64 \<Rightarrow> nat list \<Rightarrow> u8 list \<Rightarrow> cpp_error + u8 list" where
  "promote_bits plane_base i val [] planes = Inr planes"
| "promote_bits plane_base i val (b # bs) planes =
     (if drop_bit b val AND 1 \<noteq> 0
      then let byte_idx = i div 8; bit_pos = i mod 8; k = plane_base + b * 8192 + byte_idx
           in if k \<ge> length planes then Inl OutOfBounds
              else promote_bits plane_base i val bs (planes[k := (planes ! k) OR push_bit bit_pos 1])
      else promote_bits plane_base i val bs planes)"

definition promote_row :: "u8 \<Rightarrow> nat \<Rightarrow> RowGroup \<Rightarrow> cpp_error + RowGroup" where
  "promote_row target_hot_slot i rg =
     (let plane_base = unat target_hot_slot * 64 * 8192;
          val = (if bloom_contains (string_bloom rg) (warm_dict_strings rg ! i) then 1 else 0)
      in case promote_bits plane_base i val [0..<64] (hot_data_planes rg) of
           Inl e \<Rightarrow> Inl e
         | Inr planes \<Rightarrow> Inr (set_block_presence (rg\<lparr>hot_data_planes := planes\<rparr>)
                               (ucast target_hot_slot) (of_nat (i div 64))))"

fun promote_rows :: "u8 \<Rightarrow> nat list \<Rightarrow> RowGroup \<Rightarrow> cpp_error + RowGroup" where
  "promote_rows target [] rg = Inr rg"
| "promote_rows target (i # is) rg =
     (if i \<ge> 65536 then Inr rg
      else case promote_row target i rg of Inl e \<Rightarrow> Inl e | Inr rg' \<Rightarrow> promote_rows target is rg')"

definition execute_compaction_promotion ::
  "RowGroup option \<Rightarrow> string \<Rightarrow> u8 \<Rightarrow> cpp_error + (bool \<times> RowGroup option)" where
  "execute_compaction_promotion rg field target_hot_slot =
     (case rg of
        None \<Rightarrow> Inr (False, None)
      | Some old_rg \<Rightarrow>
          let new_rg = RowGroup_copy old_rg
          in case promote_rows target_hot_slot [0..<length (warm_dict_strings new_rg)] new_rg of
               Inl e \<Rightarrow> Inl e
             | Inr rg' \<Rightarrow> Inr (True, Some (rg'\<lparr>fingerprint_hash := fingerprint_hash rg' XOR 0x999\<rparr>)))"

section \<open>Lemmas\<close>

subsection \<open>Double arithmetic, as far as the threshold needs it\<close>

definition dval :: "dbl \<Rightarrow> real" where "dval x = real (fst x) * 2 powr real_of_int (snd x)"

lemma dval_nonneg: "0 \<le> dval x"
  by (simp add: dval_def)

lemma dround_ge: "dval x / 2 \<le> dval (dround x)"
proof (cases x)
  case (Pair m e)
  show ?thesis
  proof (cases "m < 2 ^ 53")
    case True
    then show ?thesis using Pair dval_nonneg [of x] by (simp add: dround_def)
  next
    case False
    define s where "s = floorlog 2 m - 53"
    have m0: "0 < m" using False by auto
    have "2 ^ (floorlog 2 m - 1) \<le> m" using floorlog_bounds [of m 2] m0 by simp
    moreover have "s \<le> floorlog 2 m - 1" by (simp add: s_def)
    ultimately have "2 ^ s \<le> m" using power_increasing [of s "floorlog 2 m - 1" "2::nat"] by linarith
    then have "1 \<le> m div 2 ^ s" by (simp add: Suc_le_eq div_greater_zero_iff)
    moreover have "m < (m div 2 ^ s + 1) * 2 ^ s"
      using dividend_less_div_times [of "2 ^ s" m] by (simp add: algebra_simps)
    ultimately have "m \<le> 2 * (m div 2 ^ s) * 2 ^ s"
      using mult_le_mono1 [of "m div 2 ^ s + 1" "2 * (m div 2 ^ s)" "2 ^ s"] by linarith
    then have "real m \<le> real (2 * (m div 2 ^ s) * 2 ^ s)"
      by (rule of_nat_mono)
    then have m_le: "real m \<le> 2 * real (m div 2 ^ s) * 2 ^ s"
      by simp
    have d: "fst (dround x) \<ge> m div 2 ^ s" "snd (dround x) = e + int s"
      using False Pair by (simp_all add: dround_def s_def Let_def)
    have pw: "2 powr real_of_int (e + int s) = 2 powr real_of_int e * 2 ^ s"
      by (simp add: powr_add powr_realpow)
    have "real (m div 2 ^ s) * 2 ^ s \<le> real (fst (dround x)) * 2 ^ s"
      by (rule mult_right_mono) (use d(1) in simp_all)
    then have "real m / 2 \<le> real (fst (dround x)) * 2 ^ s"
      using m_le by linarith
    then have "real m / 2 * 2 powr real_of_int e \<le> real (fst (dround x)) * 2 ^ s * 2 powr real_of_int e"
      by (rule mult_right_mono) simp
    then show ?thesis using Pair d(2) pw by (simp add: dval_def algebra_simps)
  qed
qed

lemma powr_shift: "e' \<le> e \<Longrightarrow> 2 powr real_of_int e = 2 ^ nat (e - e') * 2 powr real_of_int e'"
proof -
  assume "e' \<le> e"
  then have "real_of_int e = real (nat (e - e')) + real_of_int e'" by simp
  then show ?thesis by (metis powr_add powr_realpow zero_less_numeral)
qed

lemma dval_aligned:
  "e' \<le> snd x \<Longrightarrow> dval x = real (fst x * 2 ^ nat (snd x - e')) * 2 powr real_of_int e'"
  by (simp add: dval_def powr_shift)

lemma dlt_iff: "dlt x y \<longleftrightarrow> dval x < dval y"
proof -
  let ?e = "min (snd x) (snd y)"
  have "dval x < dval y \<longleftrightarrow>
        real (fst x * 2 ^ nat (snd x - ?e)) < real (fst y * 2 ^ nat (snd y - ?e))"
    unfolding dval_aligned [of ?e x, OF min.cobounded1] dval_aligned [of ?e y, OF min.cobounded2]
    by (simp only: mult_less_cancel_right) simp
  then show ?thesis by (simp only: dlt_def Let_def of_nat_less_iff)
qed

lemma dadd_ge: "(dval x + dval y) / 2 \<le> dval (dadd x y)"
proof -
  let ?e = "min (snd x) (snd y)"
  let ?m = "fst x * 2 ^ nat (snd x - ?e) + fst y * 2 ^ nat (snd y - ?e)"
  have "dval x + dval y = dval (?m, ?e)"
    unfolding dval_aligned [of ?e x, OF min.cobounded1] dval_aligned [of ?e y, OF min.cobounded2]
    by (simp add: dval_def algebra_simps)
  then show ?thesis using dround_ge [of "(?m, ?e)"] by (simp add: dadd_def Let_def)
qed

lemma dmul_ge: "dval x * dval y / 2 \<le> dval (dmul x y)"
proof -
  have "dval x * dval y = dval (fst x * fst y, snd x + snd y)"
    by (simp add: dval_def powr_add)
  then show ?thesis using dround_ge [of "(fst x * fst y, snd x + snd y)"] by (simp add: dmul_def)
qed

subsection \<open>Heat\<close>

lemma heat_after:
  "((\<lambda>reg. record_query_access reg f) ^^ n) Map.empty f =
     (if n = 0 then None
      else Some \<lparr>fh_field_name = f, access_count = of_nat n, current_section = 1, data_density = d_0_05\<rparr>)"
  by (induction n) (auto simp: record_query_access_def FieldHeat_default_def Let_def)

lemma heat_score_hot:
  assumes "c \<noteq> 0"
  shows "dlt d_0_15 (dadd (dmul (d_of_u32 c) d_0_7) y)"
proof -
  have "0 < unat c" using assms by (simp add: unat_gt_0)
  then have "1 \<le> real (unat c)" by linarith
  then have "1 \<le> dval (d_of_u32 c)" unfolding dval_def d_of_u32_def fst_conv snd_conv by simp
  then have "dval d_0_7 \<le> dval (d_of_u32 c) * dval d_0_7"
    using mult_right_mono [of 1 "dval (d_of_u32 c)" "dval d_0_7"] dval_nonneg by simp
  then have "dval d_0_7 / 4 \<le> dval (dadd (dmul (d_of_u32 c) d_0_7) y)"
    using dadd_ge [of "dmul (d_of_u32 c) d_0_7" y] dmul_ge [of "d_of_u32 c" d_0_7] dval_nonneg [of y]
    by (simp add: field_simps)
  moreover have "dval d_0_15 < dval d_0_7 / 4"
  proof -
    have "dlt d_0_15 (fst d_0_7, snd d_0_7 - 2)" by (simp add: dlt_def d_0_15_def d_0_7_def)
    then show ?thesis by (simp add: dlt_iff dval_def powr_diff)
  qed
  ultimately show ?thesis by (simp add: dlt_iff)
qed

lemma density_term: "dmul d_0_05 d_0_3 = (8646911284551352, - 59)"
proof -
  have "floorlog 2 (38942226439011207934554662848430 :: nat) = 105"
    by (rule antisym) (auto intro!: floorlog_leI floorlog_geI)
  then show ?thesis by (simp add: dmul_def dround_def d_0_05_def d_0_3_def)
qed

lemma heat_score_cold: "\<not> dlt d_0_15 (dadd (dmul (d_of_u32 0) d_0_7) (dmul d_0_05 d_0_3))"
  unfolding density_term
  by (simp add: dlt_def dadd_def dmul_def dround_def d_of_u32_def d_0_7_def d_0_15_def)

subsection \<open>Promotion\<close>

lemma drop_bit_and_1: "drop_bit b (v :: u64) AND 1 \<noteq> 0 \<longleftrightarrow> bit v b"
  by (simp add: and_one_eq bit_iff_odd_drop_bit odd_iff_mod_2_eq_one)

lemma promote_bits_none:
  "\<forall>b \<in> set bs. \<not> bit val b \<Longrightarrow> promote_bits pb i val bs planes = Inr planes"
  by (induction bs) (auto simp: drop_bit_and_1)

lemma upt_64: "[0..<64] = (0::nat) # [1..<64]"
  by (simp add: upt_conv_Cons)

lemma promote_bits_0 [simp]: "promote_bits pb i 0 [0..<64] planes = Inr planes"
  by (rule promote_bits_none) simp

lemma promote_bits_1 [simp]:
  "promote_bits pb i 1 [0..<64] planes =
     (if pb + i div 8 \<ge> length planes then Inl OutOfBounds
      else Inr (planes[pb + i div 8 := (planes ! (pb + i div 8)) OR push_bit (i mod 8) 1]))"
  unfolding upt_64 by (simp add: promote_bits_none bit_1_iff Let_def del: push_bit_of_1)

lemma plane_bit_or:
  assumes "slot * 64 * 8192 + i div 8 < length planes" "b < 64" "row < 65536" "i < 65536"
  defines "k \<equiv> slot * 64 * 8192 + i div 8"
  shows "plane_bit (planes[k := (planes ! k) OR push_bit (i mod 8) 1]) slot' b row \<longleftrightarrow>
    plane_bit planes slot' b row \<or> (slot' = slot \<and> b = 0 \<and> row = i)"
proof -
  have flat: "slot' * 64 * 8192 + b * 8192 + row div 8 = (slot' * 64 + b) * 8192 + row div 8"
    "k = (slot * 64) * 8192 + i div 8"
    by (simp_all add: k_def algebra_simps)
  have "slot' * 64 * 8192 + b * 8192 + row div 8 = k \<longleftrightarrow> slot' * 64 + b = slot * 64 + 0 \<and> row div 8 = i div 8"
    unfolding flat using mixed_radix_eq [of "row div 8" 8192 "i div 8" "slot' * 64 + b" "slot * 64"] assms
    by auto
  also have "\<dots> \<longleftrightarrow> (slot' = slot \<and> b = 0) \<and> row div 8 = i div 8"
    using mixed_radix_eq [of b 64 0 slot' slot] assms(2) by auto
  finally have hit: "slot' * 64 * 8192 + b * 8192 + row div 8 = k \<longleftrightarrow> slot' = slot \<and> b = 0 \<and> row div 8 = i div 8"
    by simp
  have row: "row = i \<longleftrightarrow> row div 8 = i div 8 \<and> row mod 8 = i mod 8"
    by (metis div_mult_mod_eq)
  have "bit (push_bit (i mod 8) 1 :: u8) (row mod 8) \<longleftrightarrow> row mod 8 = i mod 8"
    by (auto simp: bit_exp_iff)
  then show ?thesis
    using hit row assms(1)
    by (auto simp: plane_bit_def nth_list_update k_def [symmetric] bit_or_iff simp del: push_bit_of_1)
qed

lemma promote_row_ok:
  assumes "rg_wf rg" "(unat t + 1) * 524288 \<le> length (hot_data_planes rg)" "i < 65536"
  obtains rg' where "promote_row t i rg = Inr rg'" "rg_wf rg'"
    "rg' = rg\<lparr>hot_data_planes := hot_data_planes rg', null_maps := null_maps rg'\<rparr>"
    "length (hot_data_planes rg') = length (hot_data_planes rg)"
    "length (null_maps rg') = length (null_maps rg)"
    "\<And>slot b row. b < 64 \<Longrightarrow> row < 65536 \<Longrightarrow>
       plane_bit (hot_data_planes rg') slot b row \<longleftrightarrow> plane_bit (hot_data_planes rg) slot b row \<or>
         (slot = unat t \<and> b = 0 \<and> row = i \<and> bloom_contains (string_bloom rg) (warm_dict_strings rg ! i))"
    "\<And>c blk. check_block_presence rg' c blk \<longleftrightarrow> check_block_presence rg c blk \<or>
         (c = ucast t \<and> blk = of_nat (i div 64) \<and> unat t < length (null_maps rg))"
proof -
  let ?hit = "bloom_contains (string_bloom rg) (warm_dict_strings rg ! i)"
  let ?k = "unat t * 64 * 8192 + i div 8"
  let ?P = "if ?hit then (hot_data_planes rg)[?k := (hot_data_planes rg ! ?k) OR push_bit (i mod 8) 1]
            else hot_data_planes rg"
  let ?rg1 = "rg\<lparr>hot_data_planes := ?P\<rparr>"
  let ?rg' = "set_block_presence ?rg1 (ucast t) (of_nat (i div 64))"
  have k: "?k < length (hot_data_planes rg)" using assms(2,3) by (simp add: algebra_simps)
  have wf1: "rg_wf ?rg1" using assms(1) by (simp add: rg_wf_def)
  have eq: "promote_row t i rg = Inr ?rg'"
    using k by (simp add: promote_row_def Let_def del: push_bit_of_1)
  have blk: "(of_nat (i div 64) :: u32) < 1024"
    using assms(3) by (simp add: word_less_nat_alt unat_of_nat take_bit_nat_eq_self)
  have unat_t: "unat (ucast t :: u32) = unat t" by (simp add: unsigned_ucast_eq take_bit_nat_eq_self less_le_trans [OF unsigned_less])
  show thesis
  proof (rule that [OF eq])
    show "rg_wf ?rg'" using wf1 by (rule rg_wf_set_block_presence)
    show "?rg' = rg\<lparr>hot_data_planes := hot_data_planes ?rg', null_maps := null_maps ?rg'\<rparr>"
      by (simp add: set_block_presence_def Let_def)
    show "length (hot_data_planes ?rg') = length (hot_data_planes rg)" by simp
    show "length (null_maps ?rg') = length (null_maps rg)" by simp
    show "plane_bit (hot_data_planes ?rg') slot b row \<longleftrightarrow> plane_bit (hot_data_planes rg) slot b row \<or>
         (slot = unat t \<and> b = 0 \<and> row = i \<and> ?hit)" if "b < 64" "row < 65536" for slot b row
      using plane_bit_or [OF k that assms(3), of slot] by auto
    show "check_block_presence ?rg' c blk \<longleftrightarrow> check_block_presence rg c blk \<or>
         (c = ucast t \<and> blk = of_nat (i div 64) \<and> unat t < length (null_maps rg))" for c blk
      using check_set_block_presence [OF wf1, of "ucast t" "of_nat (i div 64)" c blk] blk unat_t
        check_block_presence_cong [of ?rg1 rg] by auto
  qed
qed

lemma promote_rows_ok:
  assumes "rg_wf rg" "(unat t + 1) * 524288 \<le> length (hot_data_planes rg)" "\<forall>i \<in> set is. i < 65536"
  shows "\<exists>rg'. promote_rows t is rg = Inr rg' \<and> rg_wf rg' \<and>
    rg' = rg\<lparr>hot_data_planes := hot_data_planes rg', null_maps := null_maps rg'\<rparr> \<and>
    (\<forall>slot b row. b < 64 \<longrightarrow> row < 65536 \<longrightarrow>
       (plane_bit (hot_data_planes rg') slot b row \<longleftrightarrow> plane_bit (hot_data_planes rg) slot b row \<or>
         (slot = unat t \<and> b = 0 \<and> row \<in> set is \<and>
          bloom_contains (string_bloom rg) (warm_dict_strings rg ! row)))) \<and>
    (\<forall>c blk. check_block_presence rg' c blk \<longleftrightarrow> check_block_presence rg c blk \<or>
       (c = ucast t \<and> blk \<in> (\<lambda>i. of_nat (i div 64)) ` set is \<and> unat t < length (null_maps rg)))"
  using assms
proof (induction "is" arbitrary: rg)
  case Nil
  then show ?case by simp
next
  case (Cons i "is")
  then have i: "i < 65536" by simp
  obtain r where r: "promote_row t i rg = Inr r" "rg_wf r"
    "r = rg\<lparr>hot_data_planes := hot_data_planes r, null_maps := null_maps r\<rparr>"
    "length (hot_data_planes r) = length (hot_data_planes rg)"
    "length (null_maps r) = length (null_maps rg)"
    "\<And>slot b row. b < 64 \<Longrightarrow> row < 65536 \<Longrightarrow>
       plane_bit (hot_data_planes r) slot b row \<longleftrightarrow> plane_bit (hot_data_planes rg) slot b row \<or>
         (slot = unat t \<and> b = 0 \<and> row = i \<and> bloom_contains (string_bloom rg) (warm_dict_strings rg ! i))"
    "\<And>c blk. check_block_presence r c blk \<longleftrightarrow> check_block_presence rg c blk \<or>
         (c = ucast t \<and> blk = of_nat (i div 64) \<and> unat t < length (null_maps rg))"
    using promote_row_ok [OF Cons.prems(1,2) i] by blast
  have frame: "string_bloom r = string_bloom rg" "warm_dict_strings r = warm_dict_strings rg"
    by (subst r(3), simp)+
  obtain r' where r': "promote_rows t is r = Inr r'" "rg_wf r'"
    "r' = r\<lparr>hot_data_planes := hot_data_planes r', null_maps := null_maps r'\<rparr>"
    "\<And>slot b row. b < 64 \<Longrightarrow> row < 65536 \<Longrightarrow>
       plane_bit (hot_data_planes r') slot b row \<longleftrightarrow> plane_bit (hot_data_planes r) slot b row \<or>
         (slot = unat t \<and> b = 0 \<and> row \<in> set is \<and>
          bloom_contains (string_bloom r) (warm_dict_strings r ! row))"
    "\<And>c blk. check_block_presence r' c blk \<longleftrightarrow> check_block_presence r c blk \<or>
       (c = ucast t \<and> blk \<in> (\<lambda>i. of_nat (i div 64)) ` set is \<and> unat t < length (null_maps r))"
    using Cons.IH [OF r(2)] Cons.prems(2,3) r(4) by auto
  have "promote_rows t (i # is) rg = Inr r'" using i r(1) r'(1) by simp
  moreover have "r' = rg\<lparr>hot_data_planes := hot_data_planes r', null_maps := null_maps r'\<rparr>"
    by (subst r'(3), subst r(3)) simp
  ultimately show ?case
    using r'(2,4,5) r(5,6,7) frame by (intro exI [of _ r']) auto
qed

lemma promote_rows_break:
  assumes "\<forall>i \<in> set xs. i < 65536" "\<forall>i \<in> set ys. 65536 \<le> i"
  shows "promote_rows t (xs @ ys) rg = promote_rows t xs rg"
  using assms(1)
proof (induction xs arbitrary: rg)
  case Nil
  then show ?case using assms(2) by (cases ys) auto
qed (auto split: sum.splits)

lemma promote_rows_upt:
  assumes "k = min n 65536"
  shows "promote_rows t [0..<n] rg = promote_rows t [0..<k] rg"
proof -
  have le: "k \<le> n" "\<forall>i \<in> set [0..<k]. i < 65536" "\<forall>i \<in> set [k..<n]. 65536 \<le> i"
    using assms by auto
  have "[0..<n] = [0..<k] @ [k..<n]" using upt_add_eq_append [of 0 k "n - k"] le(1) by simp
  then show ?thesis using promote_rows_break [OF le(2,3)] by (simp only:)
qed

lemma promote_rows_oob:
  assumes "length (hot_data_planes rg) \<le> unat t * 524288" "i \<in> set is" "\<forall>i \<in> set is. i < 65536"
    "bloom_contains (string_bloom rg) (warm_dict_strings rg ! i)"
  shows "promote_rows t is rg = Inl OutOfBounds"
  using assms
proof (induction "is" arbitrary: rg)
  case (Cons j "is")
  show ?case
  proof (cases "bloom_contains (string_bloom rg) (warm_dict_strings rg ! j)")
    case True
    then show ?thesis using Cons.prems by (simp add: promote_row_def Let_def)
  next
    case False
    then have "i \<in> set is" using Cons.prems by auto
    then show ?thesis using False Cons.prems
      by (simp add: promote_row_def Let_def) (rule Cons.IH; simp)
  qed
qed simp

section \<open>Properties\<close>

text \<open>C37: the promotion threshold. For a field that was queried \<open>n\<close> times, the double-precision
  heat score exceeds the threshold exactly when the 32-bit access counter is not zero: one access
  promotes the field, and a counter that wrapped around to zero demotes it again.\<close>

theorem promotion_threshold_exact:
  "check_promotion_threshold (((\<lambda>reg. record_query_access reg f) ^^ n) Map.empty) f \<longleftrightarrow> n mod 2 ^ 32 \<noteq> 0"
proof -
  have wrap: "(of_nat n :: u32) = 0 \<longleftrightarrow> n mod 2 ^ 32 = 0"
    by (simp add: word_unat_eq_iff unat_of_nat take_bit_eq_mod)
  have dense: "dlt d_0_01 d_0_05" by (simp add: dlt_def d_0_01_def d_0_05_def)
  show ?thesis
    unfolding wrap [symmetric]
    using heat_score_hot [of "of_nat n" "dmul d_0_05 d_0_3"] heat_score_cold dense
    by (cases "(of_nat n :: u32) = 0")
      (auto simp: check_promotion_threshold_def heat_after simp del: word_of_nat_eq_0_iff intro!: gr0I)
qed

text \<open>C36: compaction promotion. On a well-formed row group whose plane vector holds the target column (which the
  code does not check), the rewrite terminates without an error and installs a well-formed copy. The copy
  has exactly bit 0 of the target column set anew, for every warm index below 65536 whose string the Bloom
  filter reports; exactly the blocks of these warm indexes are marked as present in the target column; the
  fingerprint is XORed with 0x999; and every other member is the one of the original.\<close>

theorem compaction_promotion_exact:
  assumes "rg_wf rg" "(unat t + 1) * 524288 \<le> length (hot_data_planes rg)"
  shows "\<exists>rg'. execute_compaction_promotion (Some rg) f t = Inr (True, Some rg') \<and> rg_wf rg' \<and>
    rg' = rg\<lparr>hot_data_planes := hot_data_planes rg', null_maps := null_maps rg',
             fingerprint_hash := fingerprint_hash rg XOR 0x999\<rparr> \<and>
    (\<forall>slot b row. b < 64 \<longrightarrow> row < 65536 \<longrightarrow>
       (plane_bit (hot_data_planes rg') slot b row \<longleftrightarrow> plane_bit (hot_data_planes rg) slot b row \<or>
         (slot = unat t \<and> b = 0 \<and> row < length (warm_dict_strings rg) \<and>
          bloom_contains (string_bloom rg) (warm_dict_strings rg ! row)))) \<and>
    (\<forall>c blk. check_block_presence rg' c blk \<longleftrightarrow> check_block_presence rg c blk \<or>
       (c = ucast t \<and> unat t < length (null_maps rg) \<and>
        (\<exists>i < min (length (warm_dict_strings rg)) 65536. blk = of_nat (i div 64))))"
proof -
  define n where "n = min (length (warm_dict_strings rg)) 65536"
  have n: "\<forall>i \<in> set [0..<n]. i < 65536" by (simp add: n_def)
  obtain r where r: "promote_rows t [0..<n] rg = Inr r" "rg_wf r"
    "r = rg\<lparr>hot_data_planes := hot_data_planes r, null_maps := null_maps r\<rparr>"
    "\<And>slot b row. b < 64 \<Longrightarrow> row < 65536 \<Longrightarrow>
       plane_bit (hot_data_planes r) slot b row \<longleftrightarrow> plane_bit (hot_data_planes rg) slot b row \<or>
         (slot = unat t \<and> b = 0 \<and> row \<in> set [0..<n] \<and>
          bloom_contains (string_bloom rg) (warm_dict_strings rg ! row))"
    "\<And>c blk. check_block_presence r c blk \<longleftrightarrow> check_block_presence rg c blk \<or>
       (c = ucast t \<and> blk \<in> (\<lambda>i. of_nat (i div 64)) ` set [0..<n] \<and> unat t < length (null_maps rg))"
    using promote_rows_ok [OF assms n] by blast
  let ?rg' = "r\<lparr>fingerprint_hash := fingerprint_hash r XOR 0x999\<rparr>"
  have run: "execute_compaction_promotion (Some rg) f t = Inr (True, Some ?rg')"
    using r(1) promote_rows_upt [OF n_def, of t rg] by (simp add: execute_compaction_promotion_def)
  have wf: "rg_wf ?rg'" using r(2) by (simp add: rg_wf_def)
  have fp: "fingerprint_hash r = fingerprint_hash rg" by (subst r(3)) simp
  have frame: "?rg' = rg\<lparr>hot_data_planes := hot_data_planes ?rg', null_maps := null_maps ?rg',
             fingerprint_hash := fingerprint_hash rg XOR 0x999\<rparr>"
    unfolding fp by (subst r(3)) simp
  have pres: "check_block_presence ?rg' = check_block_presence r"
    by (intro ext check_block_presence_cong) simp
  show ?thesis
    by (intro exI [of _ ?rg'] conjI run wf frame) (auto simp: r(4) r(5) pres n_def)
qed

definition promo_group :: RowGroup where
  "promo_group = (RowGroup_new 1 1)\<lparr>warm_dict_strings := [''a''], string_bloom := bloom_add (bloom_new 1) ''a''\<rparr>"

lemma promo_group_wf: "rg_wf promo_group" "length (hot_data_planes promo_group) = 524288"
  by (simp_all add: promo_group_def rg_wf_def RowGroup_new_def Let_def bloom_wf_new bloom_wf_add)

theorem compaction_promotion_exact_witness:
  "\<exists>rg'. execute_compaction_promotion (Some promo_group) ''x'' 0 = Inr (True, Some rg') \<and>
     plane_bit (hot_data_planes rg') 0 0 0 \<and> \<not> plane_bit (hot_data_planes rg') 0 0 1 \<and>
     check_block_presence rg' 0 0"
proof -
  have 1: "bloom_contains (string_bloom promo_group) (warm_dict_strings promo_group ! 0)"
    unfolding promo_group_def by (simp add: bloom.contains_add bloom_wf_new)
  have 2: "\<not> plane_bit (hot_data_planes promo_group) 0 0 1"
    by (simp add: promo_group_def RowGroup_new_def Let_def plane_bit_def)
  have 3: "length (warm_dict_strings promo_group) = 1" "length (null_maps promo_group) = 2"
    by (simp_all add: promo_group_def RowGroup_new_def Let_def)
  show ?thesis
    using compaction_promotion_exact [OF promo_group_wf(1), of 0 "''x''"] promo_group_wf(2) 1 2 3
    by auto
qed

text \<open>the target column is not checked. Promoting into a column that the row group does not
  have writes outside of the plane vector as soon as one warm string is in the Bloom filter.\<close>

theorem compaction_promotion_unchecked_slot:
  assumes "length (hot_data_planes rg) \<le> unat t * 524288"
    "i < length (warm_dict_strings rg)" "i < 65536"
    "bloom_contains (string_bloom rg) (warm_dict_strings rg ! i)"
  shows "execute_compaction_promotion (Some rg) f t = Inl OutOfBounds"
proof -
  define n where "n = min (length (warm_dict_strings rg)) 65536"
  have "promote_rows t [0..<n] rg = Inl OutOfBounds"
    by (rule promote_rows_oob [OF assms(1) _ _ assms(4)]) (use assms(2,3) in \<open>auto simp: n_def\<close>)
  then show ?thesis
    using promote_rows_upt [OF n_def, of t rg] by (simp add: execute_compaction_promotion_def)
qed

theorem compaction_promotion_unchecked_slot_witness:
  "execute_compaction_promotion (Some promo_group) ''x'' 1 = Inl OutOfBounds"
proof -
  have "bloom_contains (string_bloom promo_group) (warm_dict_strings promo_group ! 0)"
    unfolding promo_group_def by (simp add: bloom.contains_add bloom_wf_new)
  then show ?thesis
    using compaction_promotion_unchecked_slot [of promo_group 1 0 "''x''"] promo_group_wf(2)
    by (simp add: promo_group_def)
qed

end
