(* ===== verification/Cpp_Strings.thy ===== *)
theory Cpp_Strings
  imports Eureka_Prelude "HOL-Library.Sublist"
begin

text \<open>
  The parts of \<^verbatim>\<open>std::string\<close>, \<^verbatim>\<open>std::stringstream\<close> and \<^verbatim>\<open>std::stoull\<close> that the query dispatcher and
  the executables use, with the lemmas that describe them on composed strings.
\<close>

section \<open>Model\<close>

text \<open>\<open>std::isspace\<close> in the C locale.\<close>

definition isspace :: "char \<Rightarrow> bool" where
  "isspace c \<longleftrightarrow> c \<in> {CHR 0x20, CHR 0x09, CHR 0x0A, CHR 0x0B, CHR 0x0C, CHR 0x0D}"

definition isdigit :: "char \<Rightarrow> bool" where
  "isdigit c \<longleftrightarrow> (of_char c :: nat) \<ge> 48 \<and> (of_char c :: nat) \<le> 57"

text \<open>\<open>s.find(pat)\<close> and \<open>s.find(pat, pos)\<close>; \<open>None\<close> is \<open>npos\<close>.\<close>

fun str_find :: "string \<Rightarrow> string \<Rightarrow> nat option" where
  "str_find pat [] = (if pat = [] then Some 0 else None)"
| "str_find pat (c # cs) = (if prefix pat (c # cs) then Some 0 else map_option Suc (str_find pat cs))"

definition str_find_at :: "string \<Rightarrow> string \<Rightarrow> nat \<Rightarrow> nat option" where
  "str_find_at pat s pos = (if pos > length s then None else map_option ((+) pos) (str_find pat (drop pos s)))"

text \<open>The words that repeated \<open>ss >> word\<close> extracts until the stream fails.\<close>

fun stream_words :: "string \<Rightarrow> string \<Rightarrow> string list" where
  "stream_words acc [] = (if acc = [] then [] else [rev acc])"
| "stream_words acc (c # cs) =
     (if isspace c then (if acc = [] then stream_words [] cs else rev acc # stream_words [] cs)
      else stream_words (c # acc) cs)"

text \<open>\<open>std::stoull\<close> in base 10: leading white space, an optional sign, the longest run of digits.
  No digits is \<open>invalid_argument\<close>, a magnitude above the range is \<open>out_of_range\<close> (both \<open>None\<close>:
  every caller catches them alike); a minus sign negates modulo \<open>2^64\<close>.\<close>

fun digits_value :: "nat \<Rightarrow> string \<Rightarrow> nat" where
  "digits_value acc [] = acc"
| "digits_value acc (c # cs) = (if isdigit c then digits_value (acc * 10 + (of_char c - 48)) cs else acc)"

definition stoull :: "string \<Rightarrow> u64 option" where
  "stoull s =
     (let s1 = dropWhile isspace s;
          neg = (s1 \<noteq> [] \<and> hd s1 = CHR ''-'');
          s2 = (if s1 \<noteq> [] \<and> hd s1 \<in> {CHR ''-'', CHR ''+''} then tl s1 else s1)
      in if s2 = [] \<or> \<not> isdigit (hd s2) then None
         else let n = digits_value 0 s2
              in if n \<ge> 2 ^ 64 then None else Some (if neg then - of_nat n else of_nat n))"

text \<open>\<open>std::to_string\<close> of an unsigned integer.\<close>

definition digit_char :: "nat \<Rightarrow> char" where "digit_char d = char_of (48 + d)"

fun dec :: "nat \<Rightarrow> string" where
  "dec n = (if n < 10 then [digit_char n] else dec (n div 10) @ [digit_char (n mod 10)])"

declare dec.simps [simp del]

text \<open>The reference for a left-to-right, non-overlapping replacement.\<close>

function subst_all :: "string \<Rightarrow> string \<Rightarrow> string \<Rightarrow> string" where
  "subst_all pat to [] = []"
| "subst_all pat to (c # cs) =
     (if pat \<noteq> [] \<and> prefix pat (c # cs) then to @ subst_all pat to (drop (length pat) (c # cs))
      else c # subst_all pat to cs)"
  by pat_completeness auto
termination
  by (relation "measure (\<lambda>(_, _, s). length s)") auto

section \<open>Lemmas\<close>

abbreviation blank :: "string \<Rightarrow> bool" where "blank s \<equiv> \<forall>c \<in> set s. isspace c"
abbreviation spaceless :: "string \<Rightarrow> bool" where "spaceless s \<equiv> \<forall>c \<in> set s. \<not> isspace c"

subsection \<open>Search\<close>

lemma str_find_sublist: "str_find pat s \<noteq> None \<longleftrightarrow> sublist pat s"
proof (induction s)
  case (Cons c cs)
  then show ?case by (auto simp: sublist_Cons_right)
qed simp

lemma str_find_Some:
  assumes "str_find pat s = Some p"
  shows "prefix pat (drop p s) \<and> p \<le> length s \<and> (\<forall>q < p. \<not> prefix pat (drop q s))"
  using assms
proof (induction s arbitrary: p)
  case (Cons c cs)
  show ?case
  proof (cases "prefix pat (c # cs)")
    case False
    with Cons.prems obtain p' where "p = Suc p'" "str_find pat cs = Some p'" by auto
    with Cons.IH [of p'] False show ?thesis by (auto simp: less_Suc_eq_0_disj)
  qed (use Cons.prems in auto)
qed (auto split: if_splits)

lemma sublist_single: "sublist [c] s \<longleftrightarrow> c \<in> set s"
  by (auto simp: sublist_def in_set_conv_decomp)

lemma sublist_skip_left: "pat \<noteq> [] \<Longrightarrow> hd pat \<notin> set xs \<Longrightarrow> sublist pat (xs @ ys) \<longleftrightarrow> sublist pat ys"
  by (induction xs) (auto simp: sublist_Cons_right prefix_def Cons_eq_append_conv)

lemma sublist_skip_right: "pat \<noteq> [] \<Longrightarrow> last pat \<notin> set ys \<Longrightarrow> sublist pat (xs @ ys) \<longleftrightarrow> sublist pat xs"
  using sublist_skip_left [of "rev pat" "rev ys" "rev xs"]
  by (simp add: hd_rev flip: rev_append)

subsection \<open>Words\<close>

lemma stream_words_spaceless:
  "spaceless w \<Longrightarrow> stream_words acc (w @ s) = stream_words (rev w @ acc) s"
  by (induction w arbitrary: acc) auto

lemma stream_words_blank: "blank b \<Longrightarrow> stream_words [] (b @ s) = stream_words [] s"
  by (induction b) auto

lemma stream_words_flush:
  "blank b \<Longrightarrow> b \<noteq> [] \<Longrightarrow> acc \<noteq> [] \<Longrightarrow> stream_words acc (b @ s) = rev acc # stream_words [] s"
  by (cases b) (auto simp: stream_words_blank)

lemma stream_words_word:
  assumes "spaceless w" "w \<noteq> []" "blank b" "b \<noteq> []"
  shows "stream_words [] (w @ b @ s) = w # stream_words [] s"
  using assms by (simp add: stream_words_spaceless stream_words_flush)

lemma stream_words_last:
  "spaceless w \<Longrightarrow> w \<noteq> [] \<Longrightarrow> stream_words [] w = [w]"
  using stream_words_spaceless [of w "[]" "[]"] by simp

subsection \<open>Numbers\<close>

lemma isdigit_not_space: "isdigit c \<Longrightarrow> \<not> isspace c"
  by (auto simp: isdigit_def isspace_def)

lemma isdigit_digit_char: "d < 10 \<Longrightarrow> isdigit (digit_char d)"
  by (simp add: isdigit_def digit_char_def)

lemma of_char_digit_char: "d < 10 \<Longrightarrow> of_char (digit_char d) = 48 + d"
  by (simp add: digit_char_def)

lemma dec_digits: "\<forall>c \<in> set (dec n). isdigit c"
proof (induction n rule: dec.induct)
  case (1 n)
  then show ?case by (subst dec.simps) (auto simp: isdigit_digit_char)
qed

lemma dec_nonempty [simp]: "dec n \<noteq> []"
  by (subst dec.simps) simp

lemma dec_spaceless: "spaceless (dec n)"
  using dec_digits isdigit_not_space by blast

lemma digits_value_append:
  "\<forall>c \<in> set xs. isdigit c \<Longrightarrow> digits_value acc (xs @ ys) = digits_value (digits_value acc xs) ys"
  by (induction xs arbitrary: acc) auto

lemma digits_value_dec: "digits_value 0 (dec n) = n"
proof (induction n rule: dec.induct)
  case (1 n)
  show ?case
  proof (cases "n < 10")
    case True
    then show ?thesis
      by (subst dec.simps) (simp add: isdigit_digit_char of_char_digit_char)
  next
    case False
    then show ?thesis using 1
      by (subst dec.simps) (simp add: digits_value_append dec_digits isdigit_digit_char of_char_digit_char)
  qed
qed

lemma dec_hd: "isdigit (hd (dec n))"
  using dec_digits [of n] dec_nonempty [of n] by (metis hd_in_set)

lemma not_digit_sign [simp]: "\<not> isdigit (CHR ''-'')" "\<not> isdigit (CHR ''+'')"
  by (simp_all add: isdigit_def)

lemma stoull_dec [simp]: "stoull (dec (unat v)) = Some v"
proof -
  have d: "isdigit (hd (dec (unat v)))" by (rule dec_hd)
  then have "hd (dec (unat v)) \<noteq> CHR ''-''" "hd (dec (unat v)) \<noteq> CHR ''+''" by auto
  moreover have "dropWhile isspace (dec (unat v)) = dec (unat v)"
    using d isdigit_not_space by (cases "dec (unat v)") auto
  moreover have "\<not> 2 ^ 64 \<le> unat v" using unsigned_less [of v] by (simp add: not_le)
  ultimately show ?thesis using d by (simp add: stoull_def Let_def digits_value_dec)
qed

lemma stoull_empty [simp]: "stoull [] = None"
  by (simp add: stoull_def)

subsection \<open>Replacement\<close>

lemma subst_all_skip:
  "pat \<noteq> [] \<Longrightarrow> hd pat \<notin> set xs \<Longrightarrow> subst_all pat to (xs @ ys) = xs @ subst_all pat to ys"
proof (induction xs)
  case (Cons x xs)
  then have "\<not> prefix pat (x # xs @ ys)" by (cases pat) auto
  with Cons show ?case by simp
qed simp

lemma subst_all_upto:
  assumes "pat \<noteq> []" "\<forall>q < p. \<not> prefix pat (drop q s)" "p \<le> length s"
  shows "subst_all pat to s = take p s @ subst_all pat to (drop p s)"
  using assms
proof (induction s arbitrary: p)
  case (Cons c cs)
  show ?case
  proof (cases p)
    case (Suc p')
    have "\<not> prefix pat (c # cs)" using Cons.prems(2) Suc by (metis drop0 zero_less_Suc)
    moreover have "\<forall>q < p'. \<not> prefix pat (drop q cs)"
      using Cons.prems(2) Suc by (metis Suc_less_eq drop_Suc_Cons)
    ultimately show ?thesis using Cons.IH [of p'] Cons.prems Suc by simp
  qed simp
qed simp

lemma subst_all_none: "pat \<noteq> [] \<Longrightarrow> \<not> sublist pat s \<Longrightarrow> subst_all pat to s = s"
  by (induction s) (auto simp: sublist_Cons_right)

lemma subst_all_hd: "s \<noteq> [] \<Longrightarrow> subst_all pat [x] s \<noteq> [] \<and> hd (subst_all pat [x] s) \<in> {x, hd s}"
  by (cases s) auto

lemma str_find_None_hd: "pat \<noteq> [] \<Longrightarrow> hd pat \<notin> set s \<Longrightarrow> str_find pat s = None"
  by (induction s) (auto simp: prefix_def Cons_eq_append_conv)

end
