(* ===== verification/Dispatcher.thy ===== *)
theory Dispatcher
  imports Cpp_Strings
begin

text \<open>
  \<^verbatim>\<open>QueryDispatcher::parse_query\<close> (\<^verbatim>\<open>include/lex/dispatcher.hpp\<close>, \<^verbatim>\<open>src/lex/dispatcher.cpp\<close>): it
  decides between a scalar string search and a numerical filter and extracts the pattern or the
  two targets. Reading \<open>front()\<close> or \<open>back()\<close> of an empty string is the error \<open>EmptyAccess\<close>.
\<close>

section \<open>Model\<close>

datatype QueryType = SCALAR_STRING_SEARCH | BIT_SLICED_NUMERICAL_LOGIC

record ParsedQuery =
  qtype :: QueryType
  string_pattern :: string
  status_target :: u64
  latency_target :: u64

definition trim :: "string \<Rightarrow> string" where
  "trim s = rev (dropWhile isspace (rev (dropWhile isspace s)))"

abbreviation quote :: char where "quote \<equiv> CHR 0x22"

text \<open>\<open>s.substr(1, s.size() - 2)\<close> when the string starts and ends with a quote. For a single quote
  the count wraps around to the largest \<open>size_t\<close>, and the result is empty as well.\<close>

definition strip_quotes :: "string \<Rightarrow> cpp_error + string" where
  "strip_quotes s =
     (if s = [] then Inl EmptyAccess
      else Inr (if hd s = quote \<and> last s = quote
                then (if length s \<ge> 2 then take (length s - 2) (drop 1 s) else drop 1 s)
                else s))"

text \<open>The lambda \<open>replace_all_substrings\<close>: find from \<open>start_pos\<close>, replace in place, continue behind
  the replacement. (An empty \<open>from\<close>, which no caller passes, would loop forever.)\<close>

function replace_all_substrings :: "string \<Rightarrow> string \<Rightarrow> nat \<Rightarrow> string \<Rightarrow> string" where
  "replace_all_substrings frm to start_pos str =
     (if frm = [] then str
      else case str_find_at frm str start_pos of
             None \<Rightarrow> str
           | Some p \<Rightarrow> replace_all_substrings frm to (p + length to)
                        (take p str @ to @ drop (p + length frm) str))"
  by pat_completeness auto
termination
proof (relation "measure (\<lambda>(_, _, pos, s). length s - pos)", goal_cases)
  case (2 frm to pos s p)
  then obtain p' where "p = pos + p'" "str_find frm (drop pos s) = Some p'" "pos \<le> length s"
    by (auto simp: str_find_at_def split: if_splits)
  with str_find_Some [of frm "drop pos s" p'] 2(1) show ?case
    by (cases frm) (auto dest!: prefix_length_le)
qed simp

declare replace_all_substrings.simps [simp del]

definition clean_query :: "string \<Rightarrow> string" where
  "clean_query q =
     (let q = map (\<lambda>c. if c = CHR ''&'' then CHR '' '' else c) q;
          q = map (\<lambda>c. if c = CHR ''|'' then CHR '' '' else c) q;
          q = replace_all_substrings ''AND'' '' '' 0 q
      in replace_all_substrings ''and'' '' '' 0 q)"

definition set_status :: "string \<Rightarrow> ParsedQuery \<Rightarrow> ParsedQuery" where
  "set_status v r = (case stoull v of Some n \<Rightarrow> r\<lparr>status_target := n\<rparr> | None \<Rightarrow> r)"

definition set_latency :: "string \<Rightarrow> ParsedQuery \<Rightarrow> ParsedQuery" where
  "set_latency v r = (case stoull v of Some n \<Rightarrow> r\<lparr>latency_target := n\<rparr> | None \<Rightarrow> r)"

text \<open>The loop over the words of the stream.\<close>

fun parse_words :: "string list \<Rightarrow> ParsedQuery \<Rightarrow> ParsedQuery" where
  "parse_words [] r = r"
| "parse_words (word # ws) r =
     (if str_find ''status'' word \<noteq> None then
        (case str_find ''=='' word of
           Some pos_eq \<Rightarrow>
             (let val_str = drop (pos_eq + 2) word
              in if val_str = []
                 then (case ws of [] \<Rightarrow> set_status [] r | v # ws' \<Rightarrow> parse_words ws' (set_status v r))
                 else parse_words ws (set_status val_str r))
         | None \<Rightarrow> (case ws of op # val # ws' \<Rightarrow> parse_words ws' (set_status val r) | _ \<Rightarrow> r))
      else if str_find ''latency'' word \<noteq> None then
        (case str_find ''>'' word of
           Some pos_gt \<Rightarrow>
             (let val_str = drop (pos_gt + 1) word
              in if val_str = []
                 then (case ws of [] \<Rightarrow> set_latency [] r | v # ws' \<Rightarrow> parse_words ws' (set_latency v r))
                 else parse_words ws (set_latency val_str r))
         | None \<Rightarrow> (case ws of op # val # ws' \<Rightarrow> parse_words ws' (set_latency val r) | _ \<Rightarrow> r))
      else parse_words ws r)"

definition is_numerical :: "string \<Rightarrow> bool" where
  "is_numerical q \<longleftrightarrow> str_find ''=='' q \<noteq> None \<or> str_find ''>'' q \<noteq> None \<or> str_find ''<'' q \<noteq> None"

definition scalar_result :: "string \<Rightarrow> ParsedQuery" where
  "scalar_result p = \<lparr>qtype = SCALAR_STRING_SEARCH, string_pattern = p, status_target = 0, latency_target = 0\<rparr>"

definition numerical_result :: "u64 \<Rightarrow> u64 \<Rightarrow> ParsedQuery" where
  "numerical_result s l =
     \<lparr>qtype = BIT_SLICED_NUMERICAL_LOGIC, string_pattern = [], status_target = s, latency_target = l\<rparr>"

definition parse_query :: "string \<Rightarrow> cpp_error + ParsedQuery" where
  "parse_query query_str =
     (let q = trim query_str
      in if \<not> is_numerical q
         then if prefix ''contains('' q \<and> last q = CHR '')''
              then (case strip_quotes (trim (take (length q - 10) (drop 9 q))) of
                      Inl e \<Rightarrow> Inl e | Inr inner \<Rightarrow> Inr (scalar_result inner))
              else (case strip_quotes q of Inl e \<Rightarrow> Inl e | Inr q' \<Rightarrow> Inr (scalar_result q'))
         else Inr (parse_words (stream_words [] (clean_query q)) (numerical_result 0 0)))"

section \<open>Lemmas\<close>

lemma replace_all_substrings_subst:
  assumes "frm \<noteq> []" "pos \<le> length s"
  shows "replace_all_substrings frm to pos s = take pos s @ subst_all frm to (drop pos s)"
  using assms
proof (induction frm to pos s rule: replace_all_substrings.induct)
  case (1 frm to pos s)
  show ?case
  proof (cases "str_find frm (drop pos s)")
    case None
    then have "subst_all frm to (drop pos s) = drop pos s"
      using subst_all_none [OF 1(2)] str_find_sublist [of frm "drop pos s"] by simp
    with None 1(2,3) show ?thesis by (subst replace_all_substrings.simps) (simp add: str_find_at_def)
  next
    case (Some p')
    let ?p = "pos + p'" let ?rest = "drop (?p + length frm) s"
    have f: "prefix frm (drop ?p s)" "?p \<le> length s" "\<forall>q < p'. \<not> prefix frm (drop q (drop pos s))"
      using str_find_Some [OF Some] 1(3) by (auto simp: add.commute)
    have at: "str_find_at frm s pos = Some ?p" using Some 1(3) by (simp add: str_find_at_def)
    have "replace_all_substrings frm to pos s =
        replace_all_substrings frm to (?p + length to) (take ?p s @ to @ ?rest)"
      using at 1(2) by (subst replace_all_substrings.simps) simp
    also have "\<dots> = take ?p s @ to @ subst_all frm to ?rest"
      using 1(1) [OF 1(2) at 1(2)] f(2) by simp
    also have "to @ subst_all frm to ?rest = subst_all frm to (drop ?p s)"
      using f(1) 1(2) by (cases "drop ?p s") (auto simp: drop_drop add.commute simp flip: drop_drop)
    also have "take ?p s @ subst_all frm to (drop ?p s) = take pos s @ subst_all frm to (drop pos s)"
      using subst_all_upto [OF 1(2) f(3), of to] f(2) by (simp add: take_add [of pos p' s] add.commute [of p' pos])
    finally show ?thesis .
  qed
qed

lemma replace_all_0: "frm \<noteq> [] \<Longrightarrow> replace_all_substrings frm to 0 s = subst_all frm to s"
  by (simp add: replace_all_substrings_subst)

lemma trim_core:
  assumes "blank a" "blank b" "s \<noteq> []" "\<not> isspace (hd s)" "\<not> isspace (last s)"
  shows "trim (a @ s @ b) = s"
proof -
  have drop_blank: "dropWhile isspace (x @ y) = dropWhile isspace y" if "blank x" for x y
    using that by (induction x) auto
  have keep: "dropWhile isspace (x @ y) = x @ y" if "x \<noteq> []" "\<not> isspace (hd x)" for x y
    using that by (cases x) auto
  have "dropWhile isspace (a @ s @ b) = s @ b"
    using drop_blank [OF assms(1)] keep [OF assms(3,4)] by simp
  moreover have "dropWhile isspace (rev (s @ b)) = rev s"
    using drop_blank [of "rev b" "rev s"] keep [of "rev s" "[]"] assms by (simp add: hd_rev)
  ultimately show ?thesis by (simp add: trim_def)
qed

lemma trim_id: "s \<noteq> [] \<Longrightarrow> \<not> isspace (hd s) \<Longrightarrow> \<not> isspace (last s) \<Longrightarrow> trim s = s"
  using trim_core [of "[]" "[]" s] by simp

lemma is_numerical_iff: "is_numerical q \<longleftrightarrow> sublist ''=='' q \<or> CHR ''>'' \<in> set q \<or> CHR ''<'' \<in> set q"
  unfolding is_numerical_def str_find_sublist sublist_single ..

subsection \<open>Cleaning\<close>

lemma clean_query_subst:
  "clean_query q = subst_all ''and'' '' '' (subst_all ''AND'' '' ''
     (map (\<lambda>c. if c \<in> {CHR ''&'', CHR ''|''} then CHR '' '' else c) q))"
  by (auto simp: clean_query_def Let_def replace_all_0 intro!: arg_cong [of _ _ "subst_all _ _"])

lemma clean_neutral:
  assumes "set xs \<inter> {CHR ''&'', CHR ''|'', CHR ''A'', CHR ''a''} = {}"
  shows "clean_query (xs @ ys) = xs @ clean_query ys"
proof -
  have "map (\<lambda>c. if c \<in> {CHR ''&'', CHR ''|''} then CHR '' '' else c) xs = xs"
    using assms by (intro map_idI) auto
  with assms show ?thesis by (simp only: clean_query_subst map_append) (simp add: subst_all_skip)
qed

lemma clean_a:
  assumes "c \<noteq> CHR ''n''"
  shows "clean_query (CHR ''a'' # c # ys) = CHR ''a'' # clean_query (c # ys)"
proof -
  let ?m = "\<lambda>c. if c \<in> {CHR ''&'', CHR ''|''} then CHR '' '' else c"
  let ?t = "subst_all ''AND'' '' '' (map ?m (c # ys))"
  have m: "?m c \<noteq> CHR ''n''" using assms by simp
  have "?t \<noteq> [] \<and> hd ?t \<noteq> CHR ''n''"
    using subst_all_hd [of "map ?m (c # ys)" "''AND''" "CHR '' ''"] m by auto
  then have "\<not> prefix ''and'' (CHR ''a'' # ?t)" by (cases ?t) auto
  then have "subst_all ''and'' '' '' (CHR ''a'' # ?t) = CHR ''a'' # subst_all ''and'' '' '' ?t"
    by (simp only: subst_all.simps if_False simp_thms)
  moreover have "subst_all ''AND'' '' '' (map ?m (CHR ''a'' # c # ys)) = CHR ''a'' # ?t" by simp
  ultimately show ?thesis by (simp only: clean_query_subst)
qed

lemma clean_connective:
  "clean_query (''AND'' @ s) = '' '' @ clean_query s"
  "clean_query (''and'' @ s) = '' '' @ clean_query s"
  "clean_query (CHR ''&'' # s) = '' '' @ clean_query s"
  "clean_query (CHR ''|'' # s) = '' '' @ clean_query s"
  by (simp_all add: clean_query_subst)

lemma clean_nil: "clean_query [] = []"
  by (simp add: clean_query_subst)

lemma digits_neutral: "set (dec n) \<inter> {CHR ''&'', CHR ''|'', CHR ''A'', CHR ''a''} = {}"
proof -
  have "\<not> isdigit (CHR ''&'')" "\<not> isdigit (CHR ''|'')" "\<not> isdigit (CHR ''A'')" "\<not> isdigit (CHR ''a'')"
    by (simp_all add: isdigit_def)
  then show ?thesis using dec_digits [of n] by blast
qed

lemma blank_neutral:
  assumes "blank b"
  shows "set b \<inter> {CHR ''&'', CHR ''|'', CHR ''A'', CHR ''a''} = {}"
proof -
  have "\<not> isspace (CHR ''&'')" "\<not> isspace (CHR ''|'')" "\<not> isspace (CHR ''A'')" "\<not> isspace (CHR ''a'')"
    by (simp_all add: isspace_def)
  then show ?thesis using assms by blast
qed

subsection \<open>Clauses\<close>

text \<open>The clauses of a numerical query and the layouts of blanks the word loop understands: a blank
  before the operator needs a blank behind it.\<close>

definition status_clause :: "string \<Rightarrow> string \<Rightarrow> u64 \<Rightarrow> string" where
  "status_clause a b v = ''status'' @ a @ ''=='' @ b @ dec (unat v)"

definition latency_clause :: "string \<Rightarrow> string \<Rightarrow> u64 \<Rightarrow> string" where
  "latency_clause a b v = ''latency'' @ a @ ''>'' @ b @ dec (unat v)"

definition layout_ok :: "string \<Rightarrow> string \<Rightarrow> bool" where
  "layout_ok a b \<longleftrightarrow> blank a \<and> blank b \<and> (a = [] \<or> b \<noteq> [])"

lemma clean_status: "layout_ok a b \<Longrightarrow> clean_query (status_clause a b v @ s) = status_clause a b v @ clean_query s"
proof -
  assume "layout_ok a b"
  then have ab: "blank a" "blank b" by (auto simp: layout_ok_def)
  have "clean_query (''status'' @ t) = ''status'' @ clean_query t" for t
    using clean_neutral [of "''st''" "''atus'' @ t"] clean_a [of "CHR ''t''" "''us'' @ t"]
      clean_neutral [of "''tus''" t] by simp
  then show ?thesis
    unfolding status_clause_def append_assoc
    by (simp add: clean_neutral [OF blank_neutral [OF ab(1)]] clean_neutral [OF blank_neutral [OF ab(2)]]
        clean_neutral [OF digits_neutral] clean_neutral [of "''==''", simplified])
qed

lemma clean_latency: "layout_ok a b \<Longrightarrow> clean_query (latency_clause a b v @ s) = latency_clause a b v @ clean_query s"
proof -
  assume "layout_ok a b"
  then have ab: "blank a" "blank b" by (auto simp: layout_ok_def)
  have "clean_query (''latency'' @ t) = ''latency'' @ clean_query t" for t
    using clean_neutral [of "''l''" "''atency'' @ t"] clean_a [of "CHR ''t''" "''ency'' @ t"]
      clean_neutral [of "''tency''" t] by simp
  then show ?thesis
    unfolding latency_clause_def append_assoc
    by (simp add: clean_neutral [OF blank_neutral [OF ab(1)]] clean_neutral [OF blank_neutral [OF ab(2)]]
        clean_neutral [OF digits_neutral] clean_neutral [of "''>''", simplified])
qed

lemma stream_words_word':
  assumes "spaceless w" "w \<noteq> []" "blank b" "b \<noteq> [] \<or> s = []"
  shows "stream_words [] (w @ b @ s) = w # stream_words [] s"
  using assms by (cases "b = []") (auto simp: stream_words_word stream_words_last)

lemma spaceless_lits:
  "spaceless ''status''" "spaceless ''==''" "spaceless ''latency''" "spaceless ''>''"
  "spaceless (''status==''  @ dec n)" "spaceless (''latency>'' @ dec n)" "spaceless ''OR''"
  "spaceless ''status==''" "spaceless ''latency>''"
  using dec_spaceless [of n] by (simp_all add: isspace_def)

lemma status_words:
  assumes "layout_ok a b" "blank sp" "sp \<noteq> [] \<or> rest = []"
  shows "parse_words (stream_words [] (status_clause a b v @ sp @ rest)) r =
    parse_words (stream_words [] rest) (r\<lparr>status_target := v\<rparr>)"
proof -
  have last: "stream_words [] (dec (unat v) @ sp @ rest) = dec (unat v) # stream_words [] rest"
    by (rule stream_words_word' [OF dec_spaceless dec_nonempty assms(2,3)])
  have set: "set_status (dec (unat v)) r = r\<lparr>status_target := v\<rparr>" by (simp add: set_status_def)
  consider "a = []" "b = []" | "a = []" "b \<noteq> []" | "a \<noteq> []" "b \<noteq> []" "blank a" using assms(1)
    by (auto simp: layout_ok_def)
  then show ?thesis
  proof cases
    case 1
    then have "stream_words [] (status_clause a b v @ sp @ rest) = (''status=='' @ dec (unat v)) # stream_words [] rest"
      using stream_words_word' [OF spaceless_lits(5) _ assms(2,3), of "unat v"] by (simp add: status_clause_def)
    then show ?thesis using set by simp
  next
    case 2
    have "stream_words [] (status_clause a b v @ sp @ rest) = ''status=='' # stream_words [] (dec (unat v) @ sp @ rest)"
      using stream_words_word [OF spaceless_lits(8) _ _ 2(2), of "dec (unat v) @ sp @ rest"] assms(1) 2
      by (simp add: status_clause_def layout_ok_def)
    then show ?thesis using set last by simp
  next
    case 3
    have "stream_words [] (status_clause a b v @ sp @ rest) = ''status'' # ''=='' # stream_words [] (dec (unat v) @ sp @ rest)"
      using stream_words_word [OF spaceless_lits(1) _ 3(3,1), of "''=='' @ b @ dec (unat v) @ sp @ rest"]
        stream_words_word [OF spaceless_lits(2) _ _ 3(2), of "dec (unat v) @ sp @ rest"] assms(1)
      by (simp add: status_clause_def layout_ok_def)
    then show ?thesis using set last by simp
  qed
qed

lemma no_status:
  "str_find ''status'' (''latency>'' @ dec n) = None"
  using dec_digits [of n] by (intro str_find_None_hd) (auto simp: isdigit_def)

lemma latency_words:
  assumes "layout_ok a b" "blank sp" "sp \<noteq> [] \<or> rest = []"
  shows "parse_words (stream_words [] (latency_clause a b v @ sp @ rest)) r =
    parse_words (stream_words [] rest) (r\<lparr>latency_target := v\<rparr>)"
proof -
  have last: "stream_words [] (dec (unat v) @ sp @ rest) = dec (unat v) # stream_words [] rest"
    by (rule stream_words_word' [OF dec_spaceless dec_nonempty assms(2,3)])
  have set: "set_latency (dec (unat v)) r = r\<lparr>latency_target := v\<rparr>" by (simp add: set_latency_def)
  consider "a = []" "b = []" | "a = []" "b \<noteq> []" | "a \<noteq> []" "b \<noteq> []" "blank a" using assms(1)
    by (auto simp: layout_ok_def)
  then show ?thesis
  proof cases
    case 1
    then have "stream_words [] (latency_clause a b v @ sp @ rest) = (''latency>'' @ dec (unat v)) # stream_words [] rest"
      using stream_words_word' [OF spaceless_lits(6) _ assms(2,3), of "unat v"] by (simp add: latency_clause_def)
    then show ?thesis using set no_status [of "unat v"] by simp
  next
    case 2
    have "stream_words [] (latency_clause a b v @ sp @ rest) = ''latency>'' # stream_words [] (dec (unat v) @ sp @ rest)"
      using stream_words_word [OF spaceless_lits(9) _ _ 2(2), of "dec (unat v) @ sp @ rest"] assms(1) 2
      by (simp add: latency_clause_def layout_ok_def)
    then show ?thesis using set last by simp
  next
    case 3
    have "stream_words [] (latency_clause a b v @ sp @ rest) = ''latency'' # ''>'' # stream_words [] (dec (unat v) @ sp @ rest)"
      using stream_words_word [OF spaceless_lits(3) _ 3(3,1), of "''>'' @ b @ dec (unat v) @ sp @ rest"]
        stream_words_word [OF spaceless_lits(4) _ _ 3(2), of "dec (unat v) @ sp @ rest"] assms(1)
      by (simp add: latency_clause_def layout_ok_def)
    then show ?thesis using set last by simp
  qed
qed

lemma connective_words:
  assumes l: "layout_ok a b" "layout_ok a' b'" and bl: "blank b1" "blank b2"
    and c: "c \<in> {''AND'', ''and'', ''&&'', ''&'', ''||'', ''|''} \<or> c = ''OR'' \<and> b1 \<noteq> [] \<and> b2 \<noteq> []"
  shows "parse_words (stream_words [] (clean_query (status_clause a b s @ b1 @ c @ b2 @ latency_clause a' b' l))) r =
    r\<lparr>status_target := s, latency_target := l\<rparr>"
proof -
  let ?lat = "latency_clause a' b' l"
  have lat: "clean_query ?lat = ?lat" using clean_latency [OF l(2), of l "[]"] clean_nil by simp
  have b2: "clean_query (b2 @ ?lat) = b2 @ ?lat"
    using clean_neutral [OF blank_neutral [OF bl(2)], of ?lat] lat by simp
  have tail: "parse_words (stream_words [] ?lat) r = r\<lparr>latency_target := l\<rparr>" for r
    using latency_words [OF l(2), of "[]" "[]"] by simp
  have head: "clean_query (status_clause a b s @ b1 @ c @ b2 @ ?lat) =
      status_clause a b s @ b1 @ clean_query (c @ b2 @ ?lat)"
    by (simp only: clean_status [OF l(1)] clean_neutral [OF blank_neutral [OF bl(1)]])
  from c show ?thesis
  proof
    assume "c \<in> {''AND'', ''and'', ''&&'', ''&'', ''||'', ''|''}"
    then obtain sp where sp: "clean_query (c @ b2 @ ?lat) = sp @ b2 @ ?lat" "blank sp" "sp \<noteq> []"
      using clean_connective [of "b2 @ ?lat"] clean_connective(3) [of "CHR ''&'' # b2 @ ?lat"]
        clean_connective(4) [of "CHR ''|'' # b2 @ ?lat"] b2 that [of "'' ''"] that [of "''  ''"]
      by (auto simp: isspace_def)
    then have "blank (b1 @ sp @ b2)" "b1 @ sp @ b2 \<noteq> []" using bl by auto
    then show ?thesis
      unfolding head sp(1) using status_words [OF l(1), of "b1 @ sp @ b2" ?lat s r] tail by simp
  next
    assume c: "c = ''OR'' \<and> b1 \<noteq> [] \<and> b2 \<noteq> []"
    have "clean_query (c @ b2 @ ?lat) = ''OR'' @ b2 @ ?lat"
      using clean_neutral [of "''OR''" "b2 @ ?lat"] b2 c by simp
    moreover have "stream_words [] (''OR'' @ b2 @ ?lat) = ''OR'' # stream_words [] ?lat"
      using stream_words_word [OF spaceless_lits(7) _ bl(2)] c by blast
    moreover have "parse_words (''OR'' # ws) r = parse_words ws r" for ws r by simp
    ultimately show ?thesis
      unfolding head using status_words [OF l(1) bl(1), of "c @ b2 @ ?lat" s r] tail c by simp
  qed
qed

lemma is_numerical_clause: "is_numerical (status_clause a b v @ s)"
proof -
  have "sublist ''=='' (status_clause a b v @ s)"
    unfolding status_clause_def append_assoc sublist_def by (metis append_assoc)
  then show ?thesis by (simp add: is_numerical_iff)
qed

lemma not_space_dec_last: "\<not> isspace (last (dec n))"
  using dec_spaceless [of n] by simp

lemma trim_query:
  assumes "blank lead" "blank trail"
  shows "trim (lead @ status_clause a b s @ m @ latency_clause a' b' l @ trail) =
    status_clause a b s @ m @ latency_clause a' b' l"
  using trim_core [OF assms, of "status_clause a b s @ m @ latency_clause a' b' l"] not_space_dec_last
  by (simp add: status_clause_def latency_clause_def isspace_def)

lemma parse_joined:
  assumes "layout_ok a b" "layout_ok a' b'" "blank lead" "blank trail" "blank b1" "blank b2"
    "c \<in> {''AND'', ''and'', ''&&'', ''&'', ''||'', ''|''} \<or> c = ''OR'' \<and> b1 \<noteq> [] \<and> b2 \<noteq> []"
  shows "parse_query (lead @ status_clause a b s @ b1 @ c @ b2 @ latency_clause a' b' l @ trail) =
    Inr (numerical_result s l)"
  using connective_words [OF assms(1,2,5-7), of s l "numerical_result 0 0"]
    trim_query [OF assms(3,4), of a b s "b1 @ c @ b2" a' b' l]
    is_numerical_clause [of a b s "b1 @ c @ b2 @ latency_clause a' b' l"]
  by (simp add: parse_query_def Let_def numerical_result_def)

lemma parse_status_only:
  assumes "layout_ok a b" "blank lead" "blank trail"
  shows "parse_query (lead @ status_clause a b s @ trail) = Inr (numerical_result s 0)"
proof -
  have "trim (lead @ status_clause a b s @ trail) = status_clause a b s"
    using trim_core [OF assms(2,3), of "status_clause a b s"] not_space_dec_last
    by (simp add: status_clause_def isspace_def)
  moreover have "clean_query (status_clause a b s) = status_clause a b s"
    using clean_status [OF assms(1), of s "[]"] clean_nil by simp
  ultimately show ?thesis
    using status_words [OF assms(1), of "[]" "[]" s "numerical_result 0 0"] is_numerical_clause [of a b s "[]"]
    by (simp add: parse_query_def Let_def numerical_result_def)
qed

subsection \<open>Scalar patterns\<close>

lemma is_numerical_embed:
  assumes "set xs \<inter> {CHR ''='', CHR ''<'', CHR ''>''} = {}" "set ys \<inter> {CHR ''='', CHR ''<'', CHR ''>''} = {}"
  shows "is_numerical (xs @ p @ ys) \<longleftrightarrow> is_numerical p"
  using assms sublist_skip_left [of "''==''" xs "p @ ys"] sublist_skip_right [of "''==''" ys p]
  by (auto simp: is_numerical_iff)

lemma blank_not_numerical:
  assumes "blank b"
  shows "set b \<inter> {CHR ''='', CHR ''<'', CHR ''>''} = {}"
proof -
  have "\<not> isspace (CHR ''='')" "\<not> isspace (CHR ''<'')" "\<not> isspace (CHR ''>'')"
    by (simp_all add: isspace_def)
  then show ?thesis using assms by blast
qed

lemma not_space_lits: "\<not> isspace (CHR ''c'')" "\<not> isspace quote" "\<not> isspace (CHR '')'')"
  by (simp_all add: isspace_def)

lemma trim_empty_iff: "trim s = [] \<longleftrightarrow> blank s"
proof -
  have "dropWhile isspace s \<noteq> [] \<Longrightarrow> \<not> isspace (hd (dropWhile isspace s))"
    by (rule hd_dropWhile)
  then show ?thesis
    unfolding trim_def by (auto simp: dropWhile_eq_Nil_conv dest!: dropWhile_eq_Nil_conv [THEN iffD1] set_dropWhileD)
      (metis dropWhile_eq_Nil_conv hd_in_set)
qed

lemma strip_quotes_quoted: "strip_quotes (quote # p @ [quote]) = Inr p"
  by (simp add: strip_quotes_def)

lemma strip_quotes_Inl: "strip_quotes s = Inl e \<longleftrightarrow> s = [] \<and> e = EmptyAccess"
  by (auto simp: strip_quotes_def)

lemma contains_shape:
  "prefix ''contains('' q \<and> last q = CHR '')'' \<longleftrightarrow> (\<exists>m. q = ''contains('' @ m @ '')'')"
proof
  assume q: "prefix ''contains('' q \<and> last q = CHR '')''"
  then obtain m where m: "q = ''contains('' @ m" by (auto simp: prefix_def)
  moreover have "m \<noteq> []" using q m by auto
  ultimately show "\<exists>m. q = ''contains('' @ m @ '')''"
    using q by (intro exI [of _ "butlast m"]) (metis append_butlast_last_id last_appendR)
qed auto

section \<open>Properties\<close>

text \<open>C12: queries round trip. Every conjunctive query over all 64-bit targets, in every layout of
  blanks the dispatcher understands (\<open>status==S\<close>, \<open>status== S\<close>, \<open>status == S\<close>, likewise for the
  latency), with any of its connectives and any surrounding white space, parses to exactly its two
  targets.\<close>

theorem parse_query_roundtrip:
  assumes "layout_ok a b" "layout_ok a' b'" "blank lead" "blank trail" "blank b1" "blank b2"
    "c \<in> {''AND'', ''and'', ''&&'', ''&''}"
  shows "parse_query (lead @ status_clause a b s @ b1 @ c @ b2 @ latency_clause a' b' l @ trail) =
    Inr (numerical_result s l)"
  by (rule parse_joined [OF assms(1-6)]) (use assms(7) in auto)

theorem parse_query_roundtrip_witness:
  "parse_query ('' status == '' @ dec 500 @ '' AND latency>'' @ dec 100) = Inr (numerical_result 500 100)"
  using parse_query_roundtrip [of "'' ''" "'' ''" "[]" "[]" "'' ''" "[]" "'' ''" "'' ''" "''AND''" 500 100]
  by (simp add: layout_ok_def isspace_def status_clause_def latency_clause_def)

text \<open>a disjunction is parsed as a conjunction. A query that joins its clauses with \<open>OR\<close>, \<open>||\<close> or
  \<open>|\<close> gives the very result of the query that joins them with \<open>AND\<close>.\<close>

theorem disjunction_parsed_as_conjunction:
  assumes "layout_ok a b" "layout_ok a' b'" "c \<in> {''OR'', ''||'', ''|''}"
  shows "parse_query (status_clause a b s @ '' '' @ c @ '' '' @ latency_clause a' b' l) =
    parse_query (status_clause a b s @ '' AND '' @ latency_clause a' b' l)"
proof -
  have sp: "blank '' ''" by (simp add: isspace_def)
  have nil: "blank []" by simp
  have c: "c \<in> {''AND'', ''and'', ''&&'', ''&'', ''||'', ''|''} \<or> c = ''OR'' \<and> '' '' \<noteq> [] \<and> '' '' \<noteq> []"
    using assms(3) by fast
  have "parse_query (status_clause a b s @ '' '' @ c @ '' '' @ latency_clause a' b' l) = Inr (numerical_result s l)"
    using parse_joined [OF assms(1,2) nil nil sp sp c, of s l] by simp
  moreover have "parse_query (status_clause a b s @ '' AND '' @ latency_clause a' b' l) = Inr (numerical_result s l)"
    using parse_joined [OF assms(1,2) nil nil sp sp, of "''AND''" s l] by simp
  ultimately show ?thesis by simp
qed

theorem disjunction_parsed_as_conjunction_witness:
  "parse_query (''status == '' @ dec 500 @ '' OR latency > '' @ dec 100) =
   parse_query (''status == '' @ dec 500 @ '' AND latency > '' @ dec 100)"
  using disjunction_parsed_as_conjunction [of "'' ''" "'' ''" "'' ''" "'' ''" "''OR''" 500 100]
  by (simp add: layout_ok_def isspace_def status_clause_def latency_clause_def)

text \<open>C33: search patterns round trip. Every pattern without a comparison operator, blanks and quotes
  included, is returned unchanged from \<open>contains("...")\<close> and from \<open>"..."\<close>, with any white space
  around the query and around the quoted pattern.\<close>

theorem parse_pattern_roundtrip:
  assumes "\<not> is_numerical p" "blank lead" "blank trail" "blank b1" "blank b2"
  shows "parse_query (lead @ (''contains('' @ b1 @ (quote # p @ [quote]) @ b2 @ '')'') @ trail) = Inr (scalar_result p) \<and>
    parse_query (lead @ (quote # p @ [quote]) @ trail) = Inr (scalar_result p)"
proof
  let ?q = "''contains('' @ b1 @ (quote # p @ [quote]) @ b2 @ '')''"
  have t: "trim (lead @ ?q @ trail) = ?q"
    by (rule trim_core [OF assms(2,3)]) (simp_all add: not_space_lits)
  have n: "\<not> is_numerical ?q"
    using is_numerical_embed [of "''contains('' @ b1 @ [quote]" "[quote] @ b2 @ '')''" p] assms(1)
      blank_not_numerical [OF assms(4)] blank_not_numerical [OF assms(5)] by simp
  have "trim (b1 @ (quote # p @ [quote]) @ b2) = quote # p @ [quote]"
    by (rule trim_core [OF assms(4,5)]) (simp_all add: not_space_lits)
  moreover have "take (length ?q - 10) (drop 9 ?q) = b1 @ (quote # p @ [quote]) @ b2" by simp
  ultimately have "strip_quotes (trim (take (length ?q - 10) (drop 9 ?q))) = Inr p"
    by (simp only: strip_quotes_quoted)
  moreover have "prefix ''contains('' ?q \<and> last ?q = CHR '')''" by simp
  ultimately show "parse_query (lead @ ?q @ trail) = Inr (scalar_result p)"
    using n unfolding parse_query_def Let_def t by (simp only: if_True simp_thms sum.case)
next
  let ?q = "quote # p @ [quote]"
  have t: "trim (lead @ ?q @ trail) = ?q"
    by (rule trim_core [OF assms(2,3)]) (simp_all add: not_space_lits)
  have "\<not> is_numerical ?q" using is_numerical_embed [of "[quote]" "[quote]" p] assms(1) by simp
  moreover have "\<not> prefix ''contains('' ?q" by simp
  ultimately show "parse_query (lead @ ?q @ trail) = Inr (scalar_result p)"
    unfolding parse_query_def Let_def t by (simp only: if_True if_False simp_thms strip_quotes_quoted sum.case)
qed

theorem parse_pattern_roundtrip_witness:
  "parse_query (''contains('' @ [quote] @ ''disk error'' @ [quote] @ '')'') = Inr (scalar_result ''disk error'')"
  using parse_pattern_roundtrip [of "''disk error''" "[]" "[]" "[]" "[]"]
  by (simp add: is_numerical_def)

text \<open>C34: when parsing is undefined. \<open>parse_query\<close> reads the first or last character of an empty
  string exactly for a blank query and for \<open>contains()\<close> with a blank argument; on every other input
  it returns a result.\<close>

theorem parse_query_undefined_iff:
  "parse_query s = Inl e \<longleftrightarrow>
     e = EmptyAccess \<and> (blank s \<or> (\<exists>m. blank m \<and> trim s = ''contains('' @ m @ '')''))"
proof (cases "\<exists>m. trim s = ''contains('' @ m @ '')''")
  case True
  then obtain m where m: "trim s = ''contains('' @ m @ '')''" by blast
  have nb: "\<not> blank s" using m trim_empty_iff [of s] by auto
  have num: "blank m \<Longrightarrow> \<not> is_numerical (trim s)"
    using is_numerical_embed [of "''contains('' @ m" "'')''" "[]"] blank_not_numerical [of m] m
    by (simp add: is_numerical_iff)
  have "parse_query s = Inl e \<longleftrightarrow> \<not> is_numerical (trim s) \<and> strip_quotes (trim m) = Inl e"
    unfolding parse_query_def Let_def m by (auto split: sum.splits)
  then show ?thesis using num nb m by (auto simp: strip_quotes_Inl trim_empty_iff)
next
  case False
  then have "parse_query s = Inl e \<longleftrightarrow> \<not> is_numerical (trim s) \<and> strip_quotes (trim s) = Inl e"
    unfolding parse_query_def Let_def contains_shape by (auto split: sum.splits)
  moreover have "\<not> is_numerical []" by (simp add: is_numerical_def)
  ultimately show ?thesis using False trim_empty_iff [of s] by (auto simp: strip_quotes_Inl)
qed

theorem parse_query_undefined_iff_witness:
  "parse_query ''  '' = Inl EmptyAccess \<and> parse_query ''contains( )'' = Inl EmptyAccess"
proof
  show "parse_query ''  '' = Inl EmptyAccess"
    using parse_query_undefined_iff [of "''  ''" EmptyAccess] by (simp add: isspace_def)
  have "trim ''contains( )'' = ''contains('' @ '' '' @ '')''" "blank '' ''"
    by (simp_all add: trim_def isspace_def)
  then show "parse_query ''contains( )'' = Inl EmptyAccess"
    using parse_query_undefined_iff [of "''contains( )''" EmptyAccess] by blast
qed

end
