(* ===== verification/String_Search.thy ===== *)
theory String_Search
  imports Cpp_Strings
begin

text \<open>
  The scalar substring counter \<open>run_scalar_string_search\<close>, of which the command line tool
  (\<^verbatim>\<open>bin/ag-lex.cpp\<close>) and the gRPC service (\<^verbatim>\<open>service_impl.cpp\<close>) have a copy each. The operating
  system's answers are arguments; the calls that acquire and release resources are logged.
\<close>

section \<open>Model\<close>

text \<open>\<open>memchr(p, c, end - p)\<close> as an index into the mapped bytes.\<close>

fun memchr_off :: "string \<Rightarrow> char \<Rightarrow> nat option" where
  "memchr_off [] c = None"
| "memchr_off (x # xs) c = (if x = c then Some 0 else map_option Suc (memchr_off xs c))"

definition memchr :: "string \<Rightarrow> nat \<Rightarrow> char \<Rightarrow> nat option" where
  "memchr data p c = map_option ((+) p) (memchr_off (drop p data) c)"

text \<open>\<open>strncmp(a, b, n) == 0\<close> on the first \<open>n\<close> characters of both strings: a common NUL ends the
  comparison.\<close>

fun strncmp_eq :: "string \<Rightarrow> string \<Rightarrow> bool" where
  "strncmp_eq (a # as) (b # bs) = (if a \<noteq> b then False else if a = CHR 0x00 then True else strncmp_eq as bs)"
| "strncmp_eq _ _ = True"

text \<open>The \<open>while\<close> loop.\<close>

function scan_loop :: "string \<Rightarrow> string \<Rightarrow> nat \<Rightarrow> u64 \<Rightarrow> u64" where
  "scan_loop data pattern p occurrences =
     (if pattern = [] \<or> \<not> p + length pattern \<le> length data then occurrences
      else case memchr data p (hd pattern) of
             None \<Rightarrow> occurrences
           | Some candidate \<Rightarrow>
               if candidate + length pattern > length data then occurrences
               else if strncmp_eq (take (length pattern) (drop candidate data)) pattern
                    then scan_loop data pattern (candidate + length pattern) (occurrences + 1)
                    else scan_loop data pattern (candidate + 1) occurrences)"
  by pat_completeness auto
termination
proof (relation "measure (\<lambda>(data, _, p, _). length data - p)", goal_cases)
  case (2 data pattern p occ q)
  then show ?case by (cases pattern) (auto simp: memchr_def)
next
  case (3 data pattern p occ q)
  then show ?case by (cases pattern) (auto simp: memchr_def)
qed simp

declare scan_loop.simps [simp del]

datatype sys_call = SysOpen | SysClose | SysMmap | SysMunmap | SysMlock | SysMunlock

text \<open>What the operating system answers for a path: whether \<open>open\<close>, \<open>fstat\<close>, \<open>mmap\<close> and \<open>mlock\<close>
  succeed, and the bytes of the file.\<close>

record os_file =
  can_open :: bool
  can_stat :: bool
  can_map :: bool
  can_lock :: bool
  contents :: string

text \<open>The two copies. The service's copy also stores the file size in its reference parameter,
  which keeps its old value when the file cannot be opened.\<close>

definition run_scalar_string_search_cli :: "os_file \<Rightarrow> string \<Rightarrow> bool \<Rightarrow> u64 \<times> sys_call list" where
  "run_scalar_string_search_cli f pattern pin_memory =
     (if \<not> can_open f then (0, [])
      else if \<not> can_stat f \<or> contents f = [] then (0, [SysOpen, SysClose])
      else if \<not> can_map f then (0, [SysOpen, SysClose])
      else let lock = (if pin_memory \<and> can_lock f then [SysMlock] else []);
               unlock = (if pin_memory then [SysMunlock] else []);
               occurrences = (if length pattern = 0 then 0 else scan_loop (contents f) pattern 0 0)
           in (occurrences, [SysOpen, SysMmap] @ lock @ unlock @ [SysMunmap, SysClose]))"

definition run_scalar_string_search_svc ::
  "os_file \<Rightarrow> string \<Rightarrow> bool \<Rightarrow> nat \<Rightarrow> u64 \<times> nat \<times> sys_call list" where
  "run_scalar_string_search_svc f pattern pin_memory file_bytes =
     (if \<not> can_open f then (0, file_bytes, [])
      else if \<not> can_stat f \<or> contents f = [] then (0, file_bytes, [SysOpen, SysClose])
      else let file_bytes = length (contents f)
           in if \<not> can_map f then (0, file_bytes, [SysOpen, SysClose])
              else let lock = (if pin_memory \<and> can_lock f then [SysMlock] else []);
                       unlock = (if pin_memory then [SysMunlock] else []);
                       occurrences = (if length pattern = 0 then 0 else scan_loop (contents f) pattern 0 0)
                   in (occurrences, file_bytes, [SysOpen, SysMmap] @ lock @ unlock @ [SysMunmap, SysClose]))"

section \<open>Lemmas\<close>

text \<open>The reference: count left to right, without overlaps.\<close>

function count_occ :: "string \<Rightarrow> string \<Rightarrow> nat" where
  "count_occ pat [] = 0"
| "count_occ pat (c # cs) =
     (if pat \<noteq> [] \<and> prefix pat (c # cs) then Suc (count_occ pat (drop (length pat) (c # cs)))
      else count_occ pat cs)"
  by pat_completeness auto
termination
  by (relation "measure (\<lambda>(_, s). length s)") auto

text \<open>\<open>s\<close> contains \<open>length us\<close> disjoint occurrences of \<open>pat\<close>, separated by the strings \<open>us\<close>.\<close>

definition disjoint_occs :: "string \<Rightarrow> string \<Rightarrow> string list \<Rightarrow> bool" where
  "disjoint_occs pat s us \<longleftrightarrow> prefix (concat (map (\<lambda>u. u @ pat) us)) s"

lemma disjoint_occs_Cons:
  "disjoint_occs pat s (u # us) \<longleftrightarrow> (\<exists>t. s = u @ pat @ t \<and> disjoint_occs pat t us)"
  by (auto simp: disjoint_occs_def prefix_def)

lemma disjoint_occs_extend:
  assumes "disjoint_occs pat t us"
  shows "\<exists>us'. length us' = length us \<and> disjoint_occs pat (w @ t) us'"
proof (cases us)
  case Nil
  then show ?thesis by (auto simp: disjoint_occs_def)
next
  case (Cons u us')
  with assms show ?thesis
    by (intro exI [of _ "(w @ u) # us'"]) (auto simp: disjoint_occs_Cons)
qed

lemma count_occ_achieved: "pat \<noteq> [] \<Longrightarrow> \<exists>us. length us = count_occ pat s \<and> disjoint_occs pat s us"
proof (induction pat s rule: count_occ.induct)
  case (1 pat)
  then show ?case by (simp add: disjoint_occs_def)
next
  case (2 pat c cs)
  show ?case
  proof (cases "prefix pat (c # cs)")
    case True
    with 2 obtain us where "length us = count_occ pat (drop (length pat) (c # cs))"
      "disjoint_occs pat (drop (length pat) (c # cs)) us" by blast
    with True 2(3) show ?thesis
      by (intro exI [of _ "[] # us"]) (auto simp: disjoint_occs_Cons prefix_def)
  next
    case False
    with 2 obtain us where us: "length us = count_occ pat cs" "disjoint_occs pat cs us" by blast
    from disjoint_occs_extend [OF us(2), of "[c]"] False us(1) show ?thesis by auto
  qed
qed

lemma count_occ_upper: "pat \<noteq> [] \<Longrightarrow> disjoint_occs pat s us \<Longrightarrow> length us \<le> count_occ pat s"
proof (induction pat s arbitrary: us rule: count_occ.induct)
  case (1 pat)
  then show ?case by (cases us) (auto simp: disjoint_occs_def)
next
  case (2 pat c cs)
  show ?case
  proof (cases us)
    case (Cons u us')
    with 2(4) obtain t where t: "c # cs = u @ pat @ t" "disjoint_occs pat t us'"
      by (auto simp: disjoint_occs_Cons)
    show ?thesis
    proof (cases "prefix pat (c # cs)")
      case True
      have "drop (length pat) (c # cs) = drop (length pat) (u @ pat) @ t" using t(1) by simp
      with disjoint_occs_extend [OF t(2)] obtain vs where
        "length vs = length us'" "disjoint_occs pat (drop (length pat) (c # cs)) vs" by metis
      with 2(1) [OF _ 2(3), of vs] True 2(3) Cons show ?thesis by simp
    next
      case False
      then obtain u' where "u = c # u'" using t(1) by (cases u) (auto simp: prefix_def)
      then have "disjoint_occs pat cs (u' # us')" using t by (auto simp: disjoint_occs_Cons)
      with 2(2) [OF _ 2(3), of "u' # us'"] False Cons show ?thesis by simp
    qed
  qed simp
qed

lemma memchr_None: "memchr data p c = None \<longleftrightarrow> c \<notin> set (drop p data)"
proof -
  have "memchr_off xs c = None \<longleftrightarrow> c \<notin> set xs" for xs by (induction xs) auto
  then show ?thesis by (simp add: memchr_def)
qed

lemma memchr_Some:
  assumes "memchr data p c = Some q"
  shows "p \<le> q \<and> drop p data = take (q - p) (drop p data) @ drop q data \<and> c \<notin> set (take (q - p) (drop p data))"
proof -
  have "memchr_off xs c = Some k \<Longrightarrow> c \<notin> set (take k xs)" for xs k
    by (induction xs arbitrary: k) (auto split: if_splits)
  then show ?thesis using assms
    by (auto simp: memchr_def) (metis append_take_drop_id drop_drop add.commute)
qed

lemma count_occ_short: "pat \<noteq> [] \<Longrightarrow> length s < length pat \<Longrightarrow> count_occ pat s = 0"
  by (induction s) (auto dest: prefix_length_le)

lemma count_occ_skip: "pat \<noteq> [] \<Longrightarrow> hd pat \<notin> set xs \<Longrightarrow> count_occ pat (xs @ ys) = count_occ pat ys"
  by (induction xs) (auto simp: prefix_def Cons_eq_append_conv)

lemma count_occ_absent: "pat \<noteq> [] \<Longrightarrow> hd pat \<notin> set xs \<Longrightarrow> count_occ pat xs = 0"
  using count_occ_skip [of pat xs "[]"] by simp

lemma strncmp_eq_iff: "length xs = length ys \<Longrightarrow> CHR 0x00 \<notin> set ys \<Longrightarrow> strncmp_eq xs ys \<longleftrightarrow> xs = ys"
  by (induction xs ys rule: list_induct2) auto

lemma count_occ_unfold:
  "pat \<noteq> [] \<Longrightarrow> s \<noteq> [] \<Longrightarrow> count_occ pat s =
    (if prefix pat s then Suc (count_occ pat (drop (length pat) s)) else count_occ pat (tl s))"
  by (cases s) auto

lemma scan_loop_count:
  assumes "pat \<noteq> []" "CHR 0x00 \<notin> set pat"
  shows "scan_loop data pat p occ = occ + of_nat (count_occ pat (drop p data))"
  using assms
proof (induction data pat p occ rule: scan_loop.induct)
  case (1 data pat p occ)
  note ne = 1(3) and nul = 1(4)
  show ?case
  proof (cases "p + length pat \<le> length data")
    case False
    then have "length (drop p data) < length pat" using ne by (cases pat) auto
    with False show ?thesis using ne count_occ_short [OF ne, of "drop p data"] by (subst scan_loop.simps) simp
  next
    case fits: True
    show ?thesis
    proof (cases "memchr data p (hd pat)")
      case None
      then show ?thesis using fits ne count_occ_absent [OF ne, of "drop p data"]
          memchr_None [of data p "hd pat"] by (subst scan_loop.simps) simp
    next
      case (Some q)
      have skip: "count_occ pat (drop p data) = count_occ pat (drop q data)"
        using memchr_Some [OF Some] count_occ_skip [OF ne] by metis
      show ?thesis
      proof (cases "q + length pat \<le> length data")
        case False
        then have "length (drop q data) < length pat" using ne by (cases pat) auto
        then show ?thesis using False fits ne Some skip count_occ_short [OF ne, of "drop q data"]
          by (subst scan_loop.simps) simp
      next
        case inside: True
        let ?hit = "strncmp_eq (take (length pat) (drop q data)) pat"
        have hit: "?hit \<longleftrightarrow> prefix pat (drop q data)"
          using inside strncmp_eq_iff [OF _ nul, of "take (length pat) (drop q data)"]
          by (auto simp: prefix_def) (metis append_take_drop_id)
        have guard: "\<not> (pat = [] \<or> \<not> p + length pat \<le> length data)" "\<not> length data < q + length pat"
          using ne fits inside by auto
        have nonempty: "drop q data \<noteq> []" using inside ne by (cases pat) auto
        show ?thesis
        proof (cases ?hit)
          case True
          have "scan_loop data pat p occ = scan_loop data pat (q + length pat) (occ + 1)"
            using guard Some True by (subst scan_loop.simps) simp
          with 1(1) [OF guard(1) Some guard(2) True ne nul] True hit skip
            count_occ_unfold [OF ne nonempty]
          show ?thesis by (simp add: add.commute)
        next
          case False
          have "scan_loop data pat p occ = scan_loop data pat (q + 1) occ"
            using guard Some False by (subst scan_loop.simps) simp
          with 1(2) [OF guard(1) Some guard(2) False ne nul] False hit skip
            count_occ_unfold [OF ne nonempty]
          show ?thesis by (simp add: tl_drop drop_Suc)
        qed
      qed
    qed
  qed
qed

lemma count_occ_le: "count_occ pat s \<le> length s"
proof (induction pat s rule: count_occ.induct)
  case (2 pat c cs)
  show ?case
  proof (cases "pat \<noteq> [] \<and> prefix pat (c # cs)")
    case True
    then have "length (drop (length pat) (c # cs)) \<le> length cs" by (cases pat) auto
    with 2(1) [OF True] True show ?thesis by simp
  next
    case False
    then show ?thesis using 2(2) [OF False] by auto
  qed
qed simp

lemma scalar_search_copies:
  "fst (run_scalar_string_search_svc f pattern pin b) = fst (run_scalar_string_search_cli f pattern pin)"
  "snd (snd (run_scalar_string_search_svc f pattern pin b)) = snd (run_scalar_string_search_cli f pattern pin)"
  by (simp_all add: run_scalar_string_search_svc_def run_scalar_string_search_cli_def Let_def)

section \<open>Properties\<close>

text \<open>C23: the scan is exact. On a readable file and for a non-empty pattern without NUL, the
  vectorised loop terminates with the number of occurrences counted left to right, and this is the
  greatest number of pairwise disjoint occurrences the file has: some choice of disjoint occurrences
  attains it and none exceeds it.\<close>

theorem scalar_search_exact:
  assumes "can_open f" "can_stat f" "can_map f" "length (contents f) < 2 ^ 64"
    "pattern \<noteq> []" "CHR 0x00 \<notin> set pattern"
  shows "(\<exists>us. length us = unat (fst (run_scalar_string_search_cli f pattern pin)) \<and>
      disjoint_occs pattern (contents f) us) \<and>
    (\<forall>us. disjoint_occs pattern (contents f) us \<longrightarrow>
      length us \<le> unat (fst (run_scalar_string_search_cli f pattern pin)))"
proof -
  let ?n = "unat (fst (run_scalar_string_search_cli f pattern pin))"
  have "count_occ pattern (contents f) < 2 ^ 64"
    using count_occ_le [of pattern "contents f"] assms(4) by linarith
  then have "?n = count_occ pattern (contents f)"
    using assms(1-3,5,6) scan_loop_count [OF assms(5,6), of "contents f" 0 0]
    by (cases "contents f = []")
      (simp_all add: run_scalar_string_search_cli_def Let_def unat_of_nat take_bit_nat_eq_self)
  then show ?thesis using count_occ_achieved [OF assms(5)] count_occ_upper [OF assms(5)] by simp
qed

definition sample_file :: os_file where
  "sample_file = \<lparr>can_open = True, can_stat = True, can_map = True, can_lock = False, contents = ''ababaXab''\<rparr>"

theorem scalar_search_exact_witness:
  "\<exists>us. length us = unat (fst (run_scalar_string_search_cli sample_file ''aba'' True)) \<and>
     disjoint_occs ''aba'' ''ababaXab'' us"
  using scalar_search_exact [of sample_file "''aba''" True] by (simp add: sample_file_def)

text \<open>the two copies agree and leak nothing. Whatever the operating system answers, the
  command line tool and the service count the same occurrences and make the same system calls; every
  descriptor that was opened is closed and every mapping is unmapped, on every path, and the pages
  that were pinned are unpinned.\<close>

theorem scalar_search_copies_agree:
  "fst (run_scalar_string_search_svc f pattern pin b) = fst (run_scalar_string_search_cli f pattern pin) \<and>
   snd (snd (run_scalar_string_search_svc f pattern pin b)) = snd (run_scalar_string_search_cli f pattern pin) \<and>
   (let calls = snd (run_scalar_string_search_cli f pattern pin)
    in count_list calls SysOpen = count_list calls SysClose \<and>
       count_list calls SysMmap = count_list calls SysMunmap \<and>
       count_list calls SysMlock \<le> count_list calls SysMunlock)"
  by (simp add: scalar_search_copies run_scalar_string_search_cli_def Let_def)

end
