(* ===== verification/External_Interfaces.thy ===== *)
theory External_Interfaces
  imports Eureka_Prelude
begin

text \<open>
  Two interfaces of the query pipeline, the exporter and the service: the results of a document stream of
  \<^verbatim>\<open>simdjson\<close>, which \<open>Simd_Stream\<close> models and \<open>Log_Pipeline\<close> connects with the pipeline, and the \<^verbatim>\<open>ApexEngine\<close>, which is
  not part of the repository. Here the stream is the sequence of
  results it delivers, and the engine is a function. The expressions that
  the sources build with \<^verbatim>\<open>apex::builder\<close> are data, and the two \<open>engine_\<close> predicates below state what
  the sources rely on: the engine counts the records on which the expression holds.
\<close>

section \<open>Document streams\<close>

text \<open>The result of one \<open>doc\<close>: the offset computed from \<open>raw_json()\<close> (\<open>None\<close> when it fails or is
  empty) and the two unsigned fields (\<open>None\<close> when \<open>get_uint64\<close> reports an error).\<close>

record log_doc =
  raw_offset :: "u64 option"
  status_field :: "u64 option"
  latency_field :: "u64 option"

text \<open>One round of \<open>for (auto doc_res : docs)\<close>: a document that carries an error, an exception that
  leaves the loop, or a document.\<close>

datatype stream_item = DocError | DocThrow | Doc log_doc

definition field_or_0 :: "u64 option \<Rightarrow> u64" where
  "field_or_0 r = (case r of Some v \<Rightarrow> v | None \<Rightarrow> 0)"

text \<open>The documents a loop that skips erroneous ones gets to see.\<close>

fun parsed_docs :: "stream_item list \<Rightarrow> log_doc list" where
  "parsed_docs [] = []"
| "parsed_docs (DocError # is) = parsed_docs is"
| "parsed_docs (DocThrow # is) = []"
| "parsed_docs (Doc d # is) = d # parsed_docs is"

abbreviation doc_status :: "log_doc \<Rightarrow> u64" where "doc_status d \<equiv> field_or_0 (status_field d)"
abbreviation doc_latency :: "log_doc \<Rightarrow> u64" where "doc_latency d \<equiv> field_or_0 (latency_field d)"

text \<open>What a numerical query asks of a document.\<close>

definition doc_matches :: "u64 \<Rightarrow> u64 \<Rightarrow> log_doc \<Rightarrow> bool" where
  "doc_matches s l d \<longleftrightarrow> doc_status d = s \<and> doc_latency d > l"

section \<open>The engine\<close>

datatype apex_expr =
    Load string
  | Const u64
  | EQ apex_expr apex_expr
  | GT apex_expr apex_expr
  | And apex_expr apex_expr

record FieldDescriptor =
  fd_name :: string
  fd_offset :: nat
  fd_width :: nat

type_synonym schema = "FieldDescriptor list"

fun eval_expr :: "schema \<Rightarrow> u64 list \<Rightarrow> apex_expr \<Rightarrow> u64" where
  "eval_expr sch rec (Load n) =
     (case find (\<lambda>f. fd_name f = n) sch of Some f \<Rightarrow> rec ! (fd_offset f div 8) | None \<Rightarrow> 0)"
| "eval_expr sch rec (Const v) = v"
| "eval_expr sch rec (EQ a b) = of_bool (eval_expr sch rec a = eval_expr sch rec b)"
| "eval_expr sch rec (GT a b) = of_bool (eval_expr sch rec a > eval_expr sch rec b)"
| "eval_expr sch rec (And a b) = of_bool (eval_expr sch rec a \<noteq> 0 \<and> eval_expr sch rec b \<noteq> 0)"

text \<open>\<open>engine.execute(records, count)\<close> and \<open>engine.execute_native_parallel(schema, words, blocks,
  threads)\<close>, with the schema and the expression the engine was configured with.\<close>

type_synonym engine_execute = "schema \<Rightarrow> apex_expr \<Rightarrow> u64 list list \<Rightarrow> u64"
type_synonym engine_native = "schema \<Rightarrow> apex_expr \<Rightarrow> u64 list \<Rightarrow> nat \<Rightarrow> nat \<Rightarrow> u64"

definition engine_counts_rows :: "engine_execute \<Rightarrow> bool" where
  "engine_counts_rows execute \<longleftrightarrow>
     (\<forall>sch e recs. execute sch e recs = of_nat (length (filter (\<lambda>r. eval_expr sch r e \<noteq> 0) recs)))"

text \<open>Field \<open>f\<close> of record \<open>row\<close> in a bit-sliced image of \<open>nf\<close> fields: 64 planes per field and block.\<close>

definition sliced_value :: "nat \<Rightarrow> u64 list \<Rightarrow> nat \<Rightarrow> nat \<Rightarrow> u64" where
  "sliced_value nf words f row =
     horner_sum of_bool 2 (map (\<lambda>b. bit (words ! (row div 64 * (nf * 64) + f * 64 + b)) (row mod 64)) [0..<64])"

definition engine_counts_sliced :: "engine_native \<Rightarrow> bool" where
  "engine_counts_sliced native \<longleftrightarrow>
     (\<forall>sch e words nb th. nb * (length sch * 64) \<le> length words \<longrightarrow>
        native sch e words nb th =
          of_nat (length (filter
            (\<lambda>row. eval_expr sch (map (\<lambda>f. sliced_value (length sch) words f row) [0..<length sch]) e \<noteq> 0)
            [0..<nb * 64])))"

text \<open>Engines that meet the two contracts, for concrete instances.\<close>

definition ref_execute :: engine_execute where
  "ref_execute sch e recs = of_nat (length (filter (\<lambda>r. eval_expr sch r e \<noteq> 0) recs))"

definition ref_native :: engine_native where
  "ref_native sch e words nb th =
     of_nat (length (filter
       (\<lambda>row. eval_expr sch (map (\<lambda>f. sliced_value (length sch) words f row) [0..<length sch]) e \<noteq> 0)
       [0..<nb * 64]))"

lemma ref_engines: "engine_counts_rows ref_execute" "engine_counts_sliced ref_native"
  by (simp_all add: engine_counts_rows_def ref_execute_def engine_counts_sliced_def ref_native_def)

section \<open>Words in files\<close>

text \<open>\<open>out.write(reinterpret_cast<const char*>(p), n * sizeof(uint64_t))\<close> on a little-endian machine,
  and the \<open>uint64_t\<close> view of the bytes of a file.\<close>

definition word_bytes :: "u64 \<Rightarrow> u8 list" where
  "word_bytes w = map (\<lambda>k. ucast (drop_bit (8 * k) w)) [0..<8]"

definition words_bytes :: "u64 list \<Rightarrow> u8 list" where
  "words_bytes ws = concat (map word_bytes ws)"

primrec bytes_word :: "u8 list \<Rightarrow> u64" where
  "bytes_word [] = 0"
| "bytes_word (b # bs) = ucast b OR push_bit 8 (bytes_word bs)"

fun bytes_words :: "u8 list \<Rightarrow> u64 list" where
  "bytes_words bs = (if length bs < 8 then [] else bytes_word (take 8 bs) # bytes_words (drop 8 bs))"

declare bytes_words.simps [simp del]

lemma length_word_bytes [simp]: "length (word_bytes w) = 8"
  by (simp add: word_bytes_def)

lemma length_words_bytes [simp]: "length (words_bytes ws) = 8 * length ws"
  by (induction ws) (auto simp: words_bytes_def)

lemma bit_bytes_word:
  "bit (bytes_word bs) n \<longleftrightarrow> n < 64 \<and> n div 8 < length bs \<and> bit (bs ! (n div 8)) (n mod 8)"
proof (induction bs arbitrary: n)
  case (Cons b bs)
  show ?case
  proof (cases "n < 8")
    case True
    then show ?thesis by (auto simp: bit_or_iff bit_ucast_iff bit_push_bit_iff)
  next
    case False
    then have "\<not> bit b n" using bit_imp_le_length [of b n] by auto
    moreover have "n div 8 = Suc ((n - 8) div 8)" "n mod 8 = (n - 8) mod 8"
      using False by (simp_all add: le_div_geq le_mod_geq)
    ultimately show ?thesis
      using False Cons.IH [of "n - 8"] by (auto simp: bit_or_iff bit_ucast_iff bit_push_bit_iff)
  qed
qed simp

lemma bytes_word_bytes [simp]: "bytes_word (word_bytes w) = w"
proof (rule bit_word_eqI)
  fix n assume "n < LENGTH(64)"
  then have "n div 8 < 8" "8 * (n div 8) + n mod 8 = n" "n < 64" by simp_all
  then show "bit (bytes_word (word_bytes w)) n \<longleftrightarrow> bit w n"
    by (auto simp: bit_bytes_word word_bytes_def bit_ucast_iff bit_drop_bit_eq)
qed

lemma bytes_words_bytes [simp]: "bytes_words (words_bytes ws) = ws"
proof (induction ws)
  case Nil
  show ?case by (subst bytes_words.simps) (simp add: words_bytes_def)
next
  case (Cons w ws)
  have "words_bytes (w # ws) = word_bytes w @ words_bytes ws" by (simp add: words_bytes_def)
  then show ?case using Cons by (subst bytes_words.simps) simp
qed

lemma words_bytes_append: "words_bytes (xs @ ys) = words_bytes xs @ words_bytes ys"
  by (simp add: words_bytes_def)

end
