(* ===== verification/Exporter.thy ===== *)
theory Exporter
  imports Adaptive_Ingester External_Interfaces
begin

text \<open>
  \<^verbatim>\<open>convert_json_to_agb\<close> (\<^verbatim>\<open>src/lex/exporter.cpp\<close>): the documents of an NDJSON file are packed in blocks
  of 64, sliced into bit-planes and written to the \<open>.agb\<close> file, with their byte offsets in the
  companion \<open>.idx\<close> file. Files are byte lists; \<open>None\<close> is a file that does not exist.
\<close>

section \<open>Model\<close>

record ExportState =
  ex_status_buf :: "u64 list"
  ex_latency_buf :: "u64 list"
  ex_offset_buf :: "u64 list"
  current_count :: nat
  record_count :: nat
  block_count :: nat
  out_file :: "u8 list"
  out_idx :: "u8 list"

definition ExportState_init :: ExportState where
  "ExportState_init =
     \<lparr>ex_status_buf = replicate 64 0, ex_latency_buf = replicate 64 0, ex_offset_buf = replicate 64 0,
      current_count = 0, record_count = 0, block_count = 0, out_file = [], out_idx = []\<rparr>"

text \<open>The 64 words of \<open>uint64_t planes[64]\<close> after \<open>slice_n(buf, 64, planes, 64)\<close>.\<close>

definition plane_array :: "slicer \<Rightarrow> u64 list \<Rightarrow> u64 list" where
  "plane_array slice_n buf = map (\<lambda>b. slice_n buf ! b) [0..<64]"

definition write_block :: "slicer \<Rightarrow> ExportState \<Rightarrow> ExportState" where
  "write_block slice_n st =
     st\<lparr>out_file := out_file st @ words_bytes (plane_array slice_n (ex_status_buf st))
                      @ words_bytes (plane_array slice_n (ex_latency_buf st)),
        out_idx := out_idx st @ words_bytes (ex_offset_buf st),
        block_count := block_count st + 1\<rparr>"

definition doc_offset :: "log_doc \<Rightarrow> u64" where "doc_offset d = field_or_0 (raw_offset d)"

definition export_doc :: "slicer \<Rightarrow> ExportState \<Rightarrow> log_doc \<Rightarrow> ExportState" where
  "export_doc slice_n st d =
     (let c = current_count st;
          st1 = st\<lparr>ex_status_buf := (ex_status_buf st)[c := field_or_0 (status_field d)],
                   ex_latency_buf := (ex_latency_buf st)[c := field_or_0 (latency_field d)],
                   ex_offset_buf := (ex_offset_buf st)[c := doc_offset d],
                   current_count := c + 1, record_count := record_count st + 1\<rparr>
      in if current_count st1 = 64 then (write_block slice_n st1)\<lparr>current_count := 0\<rparr> else st1)"

text \<open>The document loop; the Boolean is false when an exception left it.\<close>

fun export_loop :: "slicer \<Rightarrow> stream_item list \<Rightarrow> ExportState \<Rightarrow> bool \<times> ExportState" where
  "export_loop slice_n [] st = (True, st)"
| "export_loop slice_n (DocError # is) st = export_loop slice_n is st"
| "export_loop slice_n (DocThrow # is) st = (False, st)"
| "export_loop slice_n (Doc d # is) st = export_loop slice_n is (export_doc slice_n st d)"

text \<open>The partial final block with zero padding.\<close>

definition pad_buf :: "nat \<Rightarrow> u64 list \<Rightarrow> u64 list" where
  "pad_buf c buf = foldl (\<lambda>b i. b[i := 0]) buf [c..<64]"

definition export_tail :: "slicer \<Rightarrow> ExportState \<Rightarrow> ExportState" where
  "export_tail slice_n st =
     (if current_count st > 0
      then write_block slice_n
             (st\<lparr>ex_status_buf := pad_buf (current_count st) (ex_status_buf st),
                 ex_latency_buf := pad_buf (current_count st) (ex_latency_buf st),
                 ex_offset_buf := pad_buf (current_count st) (ex_offset_buf st)\<rparr>)
      else st)"

text \<open>The whole conversion: the input stream is \<open>None\<close> when \<open>iterate_many\<close> reports an error. The result
  is the return value with the two files as they are left.\<close>

definition convert_json_to_agb ::
  "slicer \<Rightarrow> bool \<Rightarrow> bool \<Rightarrow> bool \<Rightarrow> stream_item list option \<Rightarrow> u8 list option \<times> u8 list option \<Rightarrow>
   bool \<times> u8 list option \<times> u8 list option" where
  "convert_json_to_agb slice_n map_valid can_agb can_idx docs_res files =
     (if \<not> map_valid then (False, files)
      else if \<not> can_agb then (False, files)
      else if \<not> can_idx then (False, Some [], snd files)
      else case docs_res of
             None \<Rightarrow> (False, Some [], Some [])
           | Some docs \<Rightarrow>
               (case export_loop slice_n docs ExportState_init of
                  (False, st) \<Rightarrow> (False, Some (out_file st), Some (out_idx st))
                | (True, st) \<Rightarrow> let st' = export_tail slice_n st
                                in (True, Some (out_file st'), Some (out_idx st'))))"

section \<open>Lemmas\<close>

text \<open>A column of the documents, zero behind the last one, and its 64-row blocks.\<close>

definition col_or_0 :: "(log_doc \<Rightarrow> u64) \<Rightarrow> log_doc list \<Rightarrow> nat \<Rightarrow> u64" where
  "col_or_0 f ds row = (if row < length ds then f (ds ! row) else 0)"

definition block_col :: "(log_doc \<Rightarrow> u64) \<Rightarrow> log_doc list \<Rightarrow> nat \<Rightarrow> u64 list" where
  "block_col f ds blk = map (\<lambda>i. col_or_0 f ds (blk * 64 + i)) [0..<64]"

text \<open>The content of the two files after \<open>k\<close> blocks.\<close>

definition agb_words :: "slicer \<Rightarrow> log_doc list \<Rightarrow> nat \<Rightarrow> u64 list" where
  "agb_words slice_n ds k = concat (map (\<lambda>blk. plane_array slice_n (block_col doc_status ds blk) @
     plane_array slice_n (block_col doc_latency ds blk)) [0..<k])"

definition idx_words :: "log_doc list \<Rightarrow> nat \<Rightarrow> u64 list" where
  "idx_words ds k = concat (map (block_col doc_offset ds) [0..<k])"

text \<open>A buffer that holds the rows of the block being filled.\<close>

definition buf_holds :: "(log_doc \<Rightarrow> u64) \<Rightarrow> log_doc list \<Rightarrow> u64 list \<Rightarrow> bool" where
  "buf_holds f ds buf \<longleftrightarrow> length buf = 64 \<and>
     (\<forall>i < length ds mod 64. buf ! i = f (ds ! (length ds div 64 * 64 + i)))"

definition export_inv :: "slicer \<Rightarrow> log_doc list \<Rightarrow> ExportState \<Rightarrow> bool" where
  "export_inv slice_n ds st \<longleftrightarrow>
     current_count st = length ds mod 64 \<and> record_count st = length ds \<and> block_count st = length ds div 64 \<and>
     buf_holds doc_status ds (ex_status_buf st) \<and> buf_holds doc_latency ds (ex_latency_buf st) \<and>
     buf_holds doc_offset ds (ex_offset_buf st) \<and>
     out_file st = words_bytes (agb_words slice_n ds (length ds div 64)) \<and>
     out_idx st = words_bytes (idx_words ds (length ds div 64))"

lemma length_plane_array [simp]: "length (plane_array s buf) = 64"
  by (simp add: plane_array_def)

lemma block_col_stable:
  "(blk + 1) * 64 \<le> length ds \<Longrightarrow> block_col f (ds @ es) blk = block_col f ds blk"
  by (auto simp: block_col_def col_or_0_def nth_append)

lemma agb_words_stable: "k * 64 \<le> length ds \<Longrightarrow> agb_words s (ds @ es) k = agb_words s ds k"
  by (auto simp: agb_words_def block_col_stable intro!: arg_cong [of _ _ concat] map_cong)

lemma idx_words_stable: "k * 64 \<le> length ds \<Longrightarrow> idx_words (ds @ es) k = idx_words ds k"
  by (auto simp: idx_words_def block_col_stable intro!: arg_cong [of _ _ concat] map_cong)

lemma agb_words_Suc: "agb_words s ds (Suc k) = agb_words s ds k @
    plane_array s (block_col doc_status ds k) @ plane_array s (block_col doc_latency ds k)"
  by (simp add: agb_words_def)

lemma idx_words_Suc: "idx_words ds (Suc k) = idx_words ds k @ block_col doc_offset ds k"
  by (simp add: idx_words_def)

lemma buf_holds_full:
  assumes "buf_holds f ds buf" "length ds mod 64 = 63"
  shows "buf[63 := f d] = block_col f (ds @ [d]) (length ds div 64)"
proof (rule nth_equalityI)
  have n: "length ds = length ds div 64 * 64 + 63" using assms(2) by (metis div_mult_mod_eq)
  fix i assume "i < length (buf[63 := f d])"
  then have i: "i < 64" using assms(1) by (simp add: buf_holds_def)
  show "buf[63 := f d] ! i = block_col f (ds @ [d]) (length ds div 64) ! i"
  proof (cases "i = 63")
    case True
    then show ?thesis using assms(1) n i by (simp add: buf_holds_def block_col_def col_or_0_def)
  next
    case False
    then have "length ds div 64 * 64 + i < length ds" using n i by linarith
    then show ?thesis using assms n i False by (simp add: buf_holds_def block_col_def col_or_0_def nth_append)
  qed
qed (use assms in \<open>simp add: buf_holds_def block_col_def\<close>)

lemma buf_holds_next:
  assumes "buf_holds f ds buf" "length ds mod 64 \<noteq> 63"
  shows "buf_holds f (ds @ [d]) (buf[length ds mod 64 := f d])"
proof -
  have s: "Suc (length ds) mod 64 = Suc (length ds mod 64)" "Suc (length ds) div 64 = length ds div 64"
    using assms(2) by (simp_all add: mod_Suc div_Suc)
  have "length ds div 64 * 64 + i < length ds" if "i < length ds mod 64" for i
    using that by (metis add_less_cancel_left div_mult_mod_eq)
  then show ?thesis using assms(1) s
    by (auto simp: buf_holds_def nth_append nth_list_update less_Suc_eq)
qed

lemma buf_holds_pad:
  assumes "buf_holds f ds buf"
  shows "pad_buf (length ds mod 64) buf = block_col f ds (length ds div 64)"
proof -
  have pad: "length (foldl (\<lambda>b i. b[i := 0]) b [c..<n]) = length b \<and>
      (\<forall>i < length b. foldl (\<lambda>b i. b[i := 0]) b [c..<n] ! i = (if c \<le> i \<and> i < n then 0 else b ! i))"
    if "c \<le> n" for b :: "u64 list" and c n
    using that by (induction n) (auto simp: nth_list_update le_Suc_eq less_Suc_eq)
  have n: "length ds div 64 * 64 + i < length ds \<longleftrightarrow> i < length ds mod 64" for i
    using div_mult_mod_eq [of "length ds" 64] by linarith
  show ?thesis
    using pad [of "length ds mod 64" 64 buf] assms n
    by (intro nth_equalityI) (auto simp: pad_buf_def buf_holds_def block_col_def col_or_0_def not_less)
qed

lemma export_doc_inv:
  assumes "export_inv s ds st"
  shows "export_inv s (ds @ [d]) (export_doc s st d)"
proof (cases "length ds mod 64 = 63")
  case True
  then have m: "Suc (length ds) mod 64 = 0" "Suc (length ds) div 64 = Suc (length ds div 64)"
    by (simp_all add: mod_Suc div_Suc)
  have le: "length ds div 64 * 64 \<le> length ds" by simp
  have full: "(ex_status_buf st)[63 := doc_status d] = block_col doc_status (ds @ [d]) (length ds div 64)"
    "(ex_latency_buf st)[63 := doc_latency d] = block_col doc_latency (ds @ [d]) (length ds div 64)"
    "(ex_offset_buf st)[63 := doc_offset d] = block_col doc_offset (ds @ [d]) (length ds div 64)"
    using assms True by (auto simp: export_inv_def intro!: buf_holds_full)
  show ?thesis
    using assms True m full agb_words_stable [OF le] idx_words_stable [OF le]
    by (simp add: export_inv_def export_doc_def write_block_def Let_def buf_holds_def agb_words_Suc
        idx_words_Suc words_bytes_append block_col_def)
next
  case False
  then have m: "Suc (length ds) mod 64 = Suc (length ds mod 64)" "Suc (length ds) div 64 = length ds div 64"
    by (simp_all add: mod_Suc div_Suc)
  have le: "length ds div 64 * 64 \<le> length ds" by simp
  show ?thesis
    using assms False m buf_holds_next [OF _ False] agb_words_stable [OF le] idx_words_stable [OF le]
    by (auto simp: export_inv_def export_doc_def Let_def)
qed

lemma export_inv_init: "export_inv s [] ExportState_init"
  by (simp add: export_inv_def ExportState_init_def buf_holds_def agb_words_def idx_words_def words_bytes_def)

lemma export_loop_flag: "fst (export_loop s items st) \<longleftrightarrow> DocThrow \<notin> set items"
  by (induction s items st rule: export_loop.induct) auto

lemma export_loop_inv:
  assumes "export_inv s ds st"
  shows "export_inv s (ds @ parsed_docs items) (snd (export_loop s items st))"
  using assms
proof (induction s items st arbitrary: ds rule: export_loop.induct)
  case (4 s d items st)
  from 4(1) [OF export_doc_inv [OF 4(2)]] show ?case by simp
qed auto

abbreviation ceil64 :: "nat \<Rightarrow> nat" where "ceil64 n \<equiv> (n + 63) div 64"

lemma ceil64_split:
  fixes q r :: nat
  assumes "r < 64"
  shows "ceil64 (q * 64 + r) = (if r = 0 then q else Suc q)"
proof (cases "r = 0")
  case True
  then show ?thesis by (simp add: div_mult_self3)
next
  case False
  then have "q * 64 + r + 63 = Suc q * 64 + (r - 1)" "r - 1 < 64" using assms by simp_all
  then show ?thesis using False by (metis add_cancel_left_right div_less div_mult_self3 zero_neq_numeral)
qed

lemma ceil64_simps:
  fixes n :: nat
  shows "n mod 64 = 0 \<Longrightarrow> ceil64 n = n div 64" "n mod 64 \<noteq> 0 \<Longrightarrow> ceil64 n = Suc (n div 64)"
    "n \<le> ceil64 n * 64"
proof -
  have c: "ceil64 n = (if n mod 64 = 0 then n div 64 else Suc (n div 64))"
    using ceil64_split [of "n mod 64" "n div 64"] unfolding div_mult_mod_eq by simp
  have n: "n = n div 64 * 64 + n mod 64" "n mod 64 < 64" by simp_all
  show "n mod 64 = 0 \<Longrightarrow> ceil64 n = n div 64" "n mod 64 \<noteq> 0 \<Longrightarrow> ceil64 n = Suc (n div 64)"
    unfolding c by simp_all
  show "n \<le> ceil64 n * 64" unfolding c using n by (cases "n mod 64 = 0") auto
qed

lemma ceil64_eq_0: "ceil64 n = 0 \<longleftrightarrow> n = 0"
  by (auto simp: div_eq_0_iff)

lemma export_tail_files:
  assumes "export_inv s ds st"
  shows "out_file (export_tail s st) = words_bytes (agb_words s ds (ceil64 (length ds))) \<and>
    out_idx (export_tail s st) = words_bytes (idx_words ds (ceil64 (length ds)))"
proof (cases "length ds mod 64 = 0")
  case True
  then have "ceil64 (length ds) = length ds div 64" by (rule ceil64_simps)
  with True assms show ?thesis by (simp add: export_tail_def export_inv_def)
next
  case False
  then have "ceil64 (length ds) = Suc (length ds div 64)" by (rule ceil64_simps)
  with False assms show ?thesis
    using buf_holds_pad [of doc_status ds "ex_status_buf st"] buf_holds_pad [of doc_latency ds "ex_latency_buf st"]
      buf_holds_pad [of doc_offset ds "ex_offset_buf st"]
    by (simp add: export_tail_def export_inv_def write_block_def agb_words_Suc idx_words_Suc words_bytes_append)
qed

lemma length_agb_words [simp]: "length (agb_words s ds k) = 128 * k"
  by (induction k) (auto simp: agb_words_Suc agb_words_def)

lemma length_block_col [simp]: "length (block_col f ds k) = 64"
  by (simp add: block_col_def)

lemma length_idx_words [simp]: "length (idx_words ds k) = 64 * k"
  by (induction k) (auto simp: idx_words_Suc idx_words_def)

lemma agb_words_nth:
  assumes "blk < k" "b < 64"
  shows "agb_words s ds k ! (blk * 128 + b) = s (block_col doc_status ds blk) ! b"
    "agb_words s ds k ! (blk * 128 + 64 + b) = s (block_col doc_latency ds blk) ! b"
  using assms
  by (induction k) (auto simp: agb_words_Suc nth_append less_Suc_eq plane_array_def)

lemma idx_words_nth: "row < k * 64 \<Longrightarrow> idx_words ds k ! row = col_or_0 doc_offset ds row"
proof (induction k)
  case (Suc k)
  then show ?case
    by (cases "row < k * 64") (auto simp: idx_words_Suc nth_append block_col_def not_less)
qed simp

lemma sliced_agb:
  assumes "slicer_spec s" "row < k * 64"
  shows "sliced_value 2 (agb_words s ds k) 0 row = col_or_0 doc_status ds row"
    "sliced_value 2 (agb_words s ds k) 1 row = col_or_0 doc_latency ds row"
proof -
  have blk: "row div 64 < k" using assms(2) by (simp add: less_mult_imp_div_less)
  have row: "row div 64 * 64 + row mod 64 = row" by (rule div_mult_mod_eq)
  have bits: "bit (s (block_col f ds (row div 64)) ! b) (row mod 64) = bit (col_or_0 f ds row) b" if "b < 64" for f b
    using assms(1) that row by (simp add: slicer_spec_def block_col_def)
  have word: "horner_sum of_bool 2 (map (bit w) [0..<64]) = w" for w :: u64
    by (rule bit_word_eqI) (simp add: bit_horner_sum_bit_iff)
  have val: "sliced_value 2 (agb_words s ds k) i row = v"
    if "\<And>b. b < 64 \<Longrightarrow> bit (agb_words s ds k ! (row div 64 * 128 + i * 64 + b)) (row mod 64) = bit v b" for i v
  proof -
    have "sliced_value 2 (agb_words s ds k) i row = horner_sum of_bool 2 (map (bit v) [0..<64])"
      unfolding sliced_value_def using that
      by (intro arg_cong [where f = "horner_sum of_bool 2"] map_cong) auto
    then show ?thesis by (simp only: word)
  qed
  show "sliced_value 2 (agb_words s ds k) 0 row = col_or_0 doc_status ds row"
    by (rule val) (simp add: agb_words_nth(1) [OF blk] bits)
  show "sliced_value 2 (agb_words s ds k) 1 row = col_or_0 doc_latency ds row"
    by (rule val) (simp add: agb_words_nth(2) [OF blk] bits)
qed

lemma convert_files:
  assumes "DocThrow \<notin> set items"
  shows "convert_json_to_agb s True True True (Some items) files =
    (True, Some (words_bytes (agb_words s (parsed_docs items) (ceil64 (length (parsed_docs items))))),
     Some (words_bytes (idx_words (parsed_docs items) (ceil64 (length (parsed_docs items))))))"
proof -
  obtain st where st: "export_loop s items ExportState_init = (True, st)"
    "export_inv s (parsed_docs items) st"
    using export_loop_inv [OF export_inv_init, of s items] export_loop_flag [of s items ExportState_init] assms
    by (cases "export_loop s items ExportState_init") auto
  then show ?thesis using export_tail_files [OF st(2)] by (simp add: convert_json_to_agb_def Let_def)
qed

text \<open>An export that reports success had no exception in its stream.\<close>

lemma convert_success_calm:
  "convert_json_to_agb s True True True (Some items) files = (True, agb, idx) \<Longrightarrow> DocThrow \<notin> set items"
  using export_loop_flag [of s items ExportState_init]
  by (auto simp: convert_json_to_agb_def Let_def split: prod.splits bool.splits)

section \<open>Properties\<close>

text \<open>C11: export round trip. A conversion whose stream raises no exception succeeds and writes one
  1024-byte block per 64 documents (and a 512-byte index block). Read back as bit-sliced words, the
  image holds the status and latency of every document at its position and zeros in the padding
  rows, and the index holds the byte offset of every document.\<close>

theorem export_roundtrip:
  assumes "slicer_spec s" "DocThrow \<notin> set items"
  shows "\<exists>agb idx. convert_json_to_agb s True True True (Some items) files = (True, Some agb, Some idx) \<and>
    length agb = 1024 * ceil64 (length (parsed_docs items)) \<and>
    length idx = 512 * ceil64 (length (parsed_docs items)) \<and>
    (\<forall>row < 64 * ceil64 (length (parsed_docs items)).
       sliced_value 2 (bytes_words agb) 0 row = col_or_0 doc_status (parsed_docs items) row \<and>
       sliced_value 2 (bytes_words agb) 1 row = col_or_0 doc_latency (parsed_docs items) row \<and>
       bytes_words idx ! row = col_or_0 doc_offset (parsed_docs items) row)"
  using convert_files [OF assms(2), of s files] sliced_agb [OF assms(1)] idx_words_nth
  by (simp add: mult.commute)

definition sample_doc :: "u64 \<Rightarrow> u64 \<Rightarrow> u64 \<Rightarrow> stream_item" where
  "sample_doc off s l = Doc \<lparr>raw_offset = Some off, status_field = Some s, latency_field = Some l\<rparr>"

theorem export_roundtrip_witness:
  "\<exists>agb idx. convert_json_to_agb ref_slice True True True
      (Some [sample_doc 0 200 5, DocError, sample_doc 80 500 90]) (None, None) = (True, Some agb, Some idx) \<and>
    length agb = 1024 \<and> sliced_value 2 (bytes_words agb) 0 1 = 500 \<and> bytes_words idx ! 1 = 80"
proof -
  let ?items = "[sample_doc 0 200 5, DocError, sample_doc 80 500 90]"
  have docs: "length (parsed_docs ?items) = 2" "DocThrow \<notin> set ?items"
    "col_or_0 doc_status (parsed_docs ?items) 1 = 500" "col_or_0 doc_offset (parsed_docs ?items) 1 = 80"
    by (simp_all add: sample_doc_def col_or_0_def field_or_0_def doc_offset_def)
  obtain agb idx where "convert_json_to_agb ref_slice True True True (Some ?items) (None, None) = (True, Some agb, Some idx)"
    "length agb = 1024"
    "\<forall>row < 64. sliced_value 2 (bytes_words agb) 0 row = col_or_0 doc_status (parsed_docs ?items) row \<and>
       bytes_words idx ! row = col_or_0 doc_offset (parsed_docs ?items) row"
    using export_roundtrip [OF ref_slice_spec docs(2), of "(None, None)"] unfolding docs(1) by auto
  moreover have "(1::nat) < 64" by simp
  ultimately show ?thesis using docs(3,4) by metis
qed

text \<open>the conversion's error paths. It reports success exactly when the input maps, both outputs
  can be created, the stream starts and no exception is raised; when it cannot map the input or
  create the image, both files stay as they were.\<close>

theorem export_success_iff:
  "(fst (convert_json_to_agb s map_valid can_agb can_idx docs_res files) \<longleftrightarrow>
     map_valid \<and> can_agb \<and> can_idx \<and> (\<exists>items. docs_res = Some items \<and> DocThrow \<notin> set items)) \<and>
   (\<not> (map_valid \<and> can_agb) \<longrightarrow> snd (convert_json_to_agb s map_valid can_agb can_idx docs_res files) = files)"
proof -
  note run = export_loop_flag [of s _ ExportState_init]
  show ?thesis
  proof (cases docs_res)
    case (Some items)
    obtain b st where "export_loop s items ExportState_init = (b, st)" by fastforce
    with run [of items] Some show ?thesis
      by (cases b) (simp_all add: convert_json_to_agb_def Let_def)
  qed (simp add: convert_json_to_agb_def)
qed

theorem export_success_iff_witness:
  "snd (convert_json_to_agb ref_slice True False True None (Some [1], None)) = (Some [1], None)"
  using export_success_iff [of ref_slice True False True None "(Some [1], None)"] by simp

end
