(* ===== verification/Query_Ingester.thy ===== *)
theory Query_Ingester
  imports External_Interfaces
begin

text \<open>
  \<^verbatim>\<open>Ingester\<close> (\<^verbatim>\<open>include/lex/ingester.hpp\<close>, \<^verbatim>\<open>src/lex/ingester.cpp\<close>): the producer thread parses documents into
  chunks of 64 and pushes them into a ring buffer of 16 slots, the consumer thread pops them and
  runs the engine. A critical section (the code that holds \<open>queue_mutex_\<close>) is one step, a wait on a
  condition variable is a flag that the notifying step clears. File access and the placement of
  threads on cores have no effect on the state modelled here.
\<close>

section \<open>Model\<close>

subsection \<open>Data\<close>

text \<open>Columns 0 and 1 of a \<open>LogChunk\<close>; the sources use no other column.\<close>

record LogChunk =
  col_status :: "u64 list"
  col_latency :: "u64 list"
  chunk_count :: nat

definition LogChunk_new :: LogChunk where
  "LogChunk_new = \<lparr>col_status = replicate 64 0, col_latency = replicate 64 0, chunk_count = 0\<rparr>"

abbreviation kBlockSize :: nat where "kBlockSize \<equiv> 64"
abbreviation kQueueCapacity :: nat where "kQueueCapacity \<equiv> 16"

record Ingester =
  pin_memory :: bool
  filepath :: string
  file_size :: nat
  chunks :: "LogChunk list"
  head_idx :: nat
  tail_idx :: nat
  queue_size :: nat
  ingest_complete :: bool
  status_filter :: u64
  latency_filter :: u64
  match_count :: u64

definition Ingester_new :: Ingester where
  "Ingester_new =
     \<lparr>pin_memory = False, filepath = [], file_size = 0, chunks = replicate kQueueCapacity LogChunk_new,
      head_idx = 0, tail_idx = 0, queue_size = 0, ingest_complete = False,
      status_filter = 0, latency_filter = 0, match_count = 0\<rparr>"

text \<open>\<open>open_file\<close>: \<open>None\<close> when \<open>open\<close> fails, \<open>Some None\<close> when \<open>lseek\<close> does, else the size.\<close>

definition open_file :: "string \<Rightarrow> nat option option \<Rightarrow> Ingester \<Rightarrow> bool \<times> Ingester" where
  "open_file path os ing =
     (let ing1 = ing\<lparr>filepath := path\<rparr>
      in case os of
           None \<Rightarrow> (False, ing1)
         | Some None \<Rightarrow> (False, ing1)
         | Some (Some sz) \<Rightarrow> (True, ing1\<lparr>file_size := sz\<rparr>))"

definition close_file :: "Ingester \<Rightarrow> Ingester" where "close_file ing = ing\<lparr>filepath := []\<rparr>"
definition get_file_size :: "Ingester \<Rightarrow> nat" where "get_file_size ing = file_size ing"
definition set_pin_memory :: "bool \<Rightarrow> Ingester \<Rightarrow> Ingester" where
  "set_pin_memory pin ing = ing\<lparr>pin_memory := pin\<rparr>"

subsection \<open>The ring buffer\<close>

definition ring_push :: "Ingester \<Rightarrow> LogChunk \<Rightarrow> Ingester" where
  "ring_push ing c =
     ing\<lparr>chunks := (chunks ing)[head_idx ing := c],
         head_idx := (head_idx ing + 1) mod kQueueCapacity,
         queue_size := queue_size ing + 1\<rparr>"

definition ring_pop :: "Ingester \<Rightarrow> LogChunk \<times> Ingester" where
  "ring_pop ing =
     (chunks ing ! tail_idx ing,
      ing\<lparr>tail_idx := (tail_idx ing + 1) mod kQueueCapacity, queue_size := queue_size ing - 1\<rparr>)"

subsection \<open>The two threads\<close>

datatype producer_pc = PLoop | PPushFull | PPushLast | PSignal | PJoin | PReturn u64
datatype consumer_pc = CTake | CExec LogChunk | CExit | CDone

record Run =
  ing :: Ingester
  p_pc :: producer_pc
  p_items :: "stream_item list"
  p_chunk :: LogChunk
  p_count :: nat
  p_waiting :: bool
  c_pc :: consumer_pc
  c_waiting :: bool
  c_matches :: u64
  c_batch :: "u64 list list"

definition fill_chunk :: "LogChunk \<Rightarrow> nat \<Rightarrow> log_doc \<Rightarrow> LogChunk" where
  "fill_chunk c i d =
     c\<lparr>col_status := (col_status c)[i := field_or_0 (status_field d)],
       col_latency := (col_latency c)[i := field_or_0 (latency_field d)]\<rparr>"

definition pad_chunk :: "nat \<Rightarrow> LogChunk \<Rightarrow> LogChunk" where
  "pad_chunk n c =
     foldl (\<lambda>c i. c\<lparr>col_status := (col_status c)[i := 0], col_latency := (col_latency c)[i := 0]\<rparr>)
       (c\<lparr>chunk_count := n\<rparr>) [n..<kBlockSize]"

text \<open>One step of the producer in \<open>run_query\<close>: a round of the document loop, the push of a full or of
  the last chunk (or the wait for space), the completion signal, the join. \<open>None\<close>: it cannot move.\<close>

definition producer_step :: "Run \<Rightarrow> Run option" where
  "producer_step st =
     (if p_waiting st then None
      else case p_pc st of
        PLoop \<Rightarrow>
          (case p_items st of
             [] \<Rightarrow> if p_count st > 0
                   then Some (st\<lparr>p_chunk := pad_chunk (p_count st) (p_chunk st), p_pc := PPushLast\<rparr>)
                   else Some (st\<lparr>p_pc := PSignal\<rparr>)
           | DocError # is \<Rightarrow> Some (st\<lparr>p_items := is\<rparr>)
           | DocThrow # is \<Rightarrow> Some (st\<lparr>p_items := is, p_pc := PSignal\<rparr>)
           | Doc d # is \<Rightarrow>
               (let c = fill_chunk (p_chunk st) (p_count st) d; n = p_count st + 1
                in if n = kBlockSize
                   then Some (st\<lparr>p_items := is, p_chunk := c\<lparr>chunk_count := kBlockSize\<rparr>, p_count := n, p_pc := PPushFull\<rparr>)
                   else Some (st\<lparr>p_items := is, p_chunk := c, p_count := n\<rparr>)))
      | PPushFull \<Rightarrow>
          if queue_size (ing st) < kQueueCapacity
          then Some (st\<lparr>ing := ring_push (ing st) (p_chunk st), c_waiting := False, p_count := 0, p_pc := PLoop\<rparr>)
          else Some (st\<lparr>p_waiting := True\<rparr>)
      | PPushLast \<Rightarrow>
          if queue_size (ing st) < kQueueCapacity
          then Some (st\<lparr>ing := ring_push (ing st) (p_chunk st), c_waiting := False, p_pc := PSignal\<rparr>)
          else Some (st\<lparr>p_waiting := True\<rparr>)
      | PSignal \<Rightarrow> Some (st\<lparr>ing := (ing st)\<lparr>ingest_complete := True\<rparr>, c_waiting := False, p_pc := PJoin\<rparr>)
      | PJoin \<Rightarrow> if c_pc st = CDone then Some (st\<lparr>p_pc := PReturn (match_count (ing st))\<rparr>) else None
      | PReturn n \<Rightarrow> None)"

text \<open>The schema and the expression of \<open>processing_worker_loop\<close>; a \<open>LogRecord\<close> is eight words.\<close>

definition log_schema :: schema where
  "log_schema = [\<lparr>fd_name = ''status'', fd_offset = 0, fd_width = 64\<rparr>,
                 \<lparr>fd_name = ''latency'', fd_offset = 8, fd_width = 64\<rparr>]"

definition filter_expr :: "u64 \<Rightarrow> u64 \<Rightarrow> apex_expr" where
  "filter_expr s l = And (EQ (Load ''status'') (Const s)) (GT (Load ''latency'') (Const l))"

definition unpack_chunk :: "LogChunk \<Rightarrow> u64 list list \<Rightarrow> u64 list list" where
  "unpack_chunk c batch =
     foldl (\<lambda>b r. b[r := (b ! r)[0 := col_status c ! r, 1 := col_latency c ! r]]) batch [0..<chunk_count c]"

text \<open>One step of the consumer in \<open>processing_worker_loop\<close>.\<close>

definition consumer_step :: "engine_execute \<Rightarrow> Run \<Rightarrow> Run option" where
  "consumer_step execute st =
     (if c_waiting st then None
      else case c_pc st of
        CTake \<Rightarrow>
          if \<not> (queue_size (ing st) > 0 \<or> ingest_complete (ing st)) then Some (st\<lparr>c_waiting := True\<rparr>)
          else if queue_size (ing st) = 0 \<and> ingest_complete (ing st) then Some (st\<lparr>c_pc := CExit\<rparr>)
          else (case ring_pop (ing st) of (chunk, ing') \<Rightarrow>
                  Some (st\<lparr>ing := ing', p_waiting := False, c_pc := CExec chunk\<rparr>))
      | CExec chunk \<Rightarrow>
          let batch = unpack_chunk chunk (c_batch st)
          in Some (st\<lparr>c_batch := batch,
                      c_matches := c_matches st +
                        execute log_schema (filter_expr (status_filter (ing st)) (latency_filter (ing st)))
                          (take (chunk_count chunk) batch),
                      c_pc := CTake\<rparr>)
      | CExit \<Rightarrow> Some (st\<lparr>ing := (ing st)\<lparr>match_count := match_count (ing st) + c_matches st\<rparr>, c_pc := CDone\<rparr>)
      | CDone \<Rightarrow> None)"

text \<open>Interleavings: either thread moves; with spurious wake-ups, a waiting thread may also wake.\<close>

inductive thread_step :: "engine_execute \<Rightarrow> Run \<Rightarrow> Run \<Rightarrow> bool" for execute where
  producer: "producer_step st = Some st' \<Longrightarrow> thread_step execute st st'"
| consumer: "consumer_step execute st = Some st' \<Longrightarrow> thread_step execute st st'"

inductive run_step :: "engine_execute \<Rightarrow> Run \<Rightarrow> Run \<Rightarrow> bool" for execute where
  move: "thread_step execute st st' \<Longrightarrow> run_step execute st st'"
| wake_producer: "p_waiting st \<Longrightarrow> run_step execute st (st\<lparr>p_waiting := False\<rparr>)"
| wake_consumer: "c_waiting st \<Longrightarrow> run_step execute st (st\<lparr>c_waiting := False\<rparr>)"

definition reset_run :: "u64 \<Rightarrow> u64 \<Rightarrow> Ingester \<Rightarrow> Ingester" where
  "reset_run status_target latency_target ig =
     ig\<lparr>status_filter := status_target, latency_filter := latency_target, ingest_complete := False,
         match_count := 0, head_idx := 0, tail_idx := 0, queue_size := 0\<rparr>"

definition run_start :: "Ingester \<Rightarrow> stream_item list \<Rightarrow> Run" where
  "run_start ig items =
     \<lparr>ing = ig, p_pc = PLoop, p_items = items, p_chunk = LogChunk_new, p_count = 0, p_waiting = False,
      c_pc = CTake, c_waiting = False, c_matches = 0, c_batch = replicate 64 (replicate 8 0)\<rparr>"

text \<open>\<open>run_query\<close>, with every schedule and every pattern of spurious wake-ups: the early returns, and the
  value the producer returns after a run. \<open>map\<close> is the size of the mapped file when the map is
  valid, \<open>docs_res\<close> the document stream when it starts.\<close>

inductive run_query ::
  "engine_execute \<Rightarrow> nat option \<Rightarrow> stream_item list option \<Rightarrow> Ingester \<Rightarrow> u64 \<Rightarrow> u64 \<Rightarrow> u64 \<Rightarrow> Ingester \<Rightarrow> bool"
  for execute map_size docs_res ig s l where
  no_path: "filepath ig = [] \<Longrightarrow> run_query execute map_size docs_res ig s l 0 (reset_run s l ig)"
| no_map: "filepath ig \<noteq> [] \<Longrightarrow> map_size = None \<Longrightarrow> run_query execute map_size docs_res ig s l 0 (reset_run s l ig)"
| no_stream: "filepath ig \<noteq> [] \<Longrightarrow> map_size = Some n \<Longrightarrow> docs_res = None \<Longrightarrow>
    run_query execute map_size docs_res ig s l 0 ((reset_run s l ig)\<lparr>file_size := n\<rparr>)"
| runs: "filepath ig \<noteq> [] \<Longrightarrow> map_size = Some n \<Longrightarrow> docs_res = Some items \<Longrightarrow>
    (run_step execute)\<^sup>*\<^sup>* (run_start ((reset_run s l ig)\<lparr>file_size := n\<rparr>) items) st \<Longrightarrow> p_pc st = PReturn m \<Longrightarrow>
    run_query execute map_size docs_res ig s l m (ing st)"

section \<open>Lemmas\<close>

subsection \<open>Bounded FIFO queues\<close>

text \<open>The contract the two threads rely on: a queue of bounded capacity that hands out its elements
  in the order in which they were put in.\<close>

locale bounded_fifo =
  fixes elems :: "'q \<Rightarrow> 'a list"
    and invar :: "'q \<Rightarrow> bool"
    and cap :: nat
    and push :: "'q \<Rightarrow> 'a \<Rightarrow> 'q"
    and pop :: "'q \<Rightarrow> 'a \<times> 'q"
  assumes bounded: "invar q \<Longrightarrow> length (elems q) \<le> cap"
    and invar_push: "invar q \<Longrightarrow> length (elems q) < cap \<Longrightarrow> invar (push q x)"
    and elems_push: "invar q \<Longrightarrow> length (elems q) < cap \<Longrightarrow> elems (push q x) = elems q @ [x]"
    and invar_pop: "invar q \<Longrightarrow> elems q \<noteq> [] \<Longrightarrow> invar (snd (pop q))"
    and elems_pop: "invar q \<Longrightarrow> elems q \<noteq> [] \<Longrightarrow> elems q = fst (pop q) # elems (snd (pop q))"
begin

text \<open>A run of the queue: \<open>Some x\<close> pushes, \<open>None\<close> pops; an operation that is not possible is skipped.
  The result is the final queue with what was pushed and what was popped.\<close>

fun fifo_run :: "'a option list \<Rightarrow> 'q \<Rightarrow> 'q \<times> 'a list \<times> 'a list" where
  "fifo_run [] q = (q, [], [])"
| "fifo_run (Some x # ops) q =
     (if length (elems q) < cap
      then (case fifo_run ops (push q x) of (q', ins, outs) \<Rightarrow> (q', x # ins, outs))
      else fifo_run ops q)"
| "fifo_run (None # ops) q =
     (if elems q \<noteq> []
      then (case fifo_run ops (snd (pop q)) of (q', ins, outs) \<Rightarrow> (q', ins, fst (pop q) # outs))
      else fifo_run ops q)"

lemma fifo_order:
  "invar q \<Longrightarrow> fifo_run ops q = (q', ins, outs) \<Longrightarrow> invar q' \<and> elems q @ ins = outs @ elems q'"
proof (induction ops arbitrary: q q' ins outs)
  case (Cons op ops)
  show ?case
  proof (cases op)
    case None
    show ?thesis
    proof (cases "elems q = []")
      case False
      obtain q1 i1 o1 where r: "fifo_run ops (snd (pop q)) = (q1, i1, o1)" using prod_cases3 by blast
      with Cons.prems None False have "q' = q1" "ins = i1" "outs = fst (pop q) # o1" by auto
      with Cons.IH [OF invar_pop [OF Cons.prems(1) False] r] elems_pop [OF Cons.prems(1) False]
      show ?thesis by simp
    next
      case True
      then show ?thesis using Cons.IH [OF Cons.prems(1), of q' ins outs] Cons.prems(2) None by simp
    qed
  next
    case (Some x)
    show ?thesis
    proof (cases "length (elems q) < cap")
      case True
      obtain q1 i1 o1 where r: "fifo_run ops (push q x) = (q1, i1, o1)" using prod_cases3 by blast
      with Cons.prems Some True have "q' = q1" "ins = x # i1" "outs = o1" by auto
      with Cons.IH [OF invar_push [OF Cons.prems(1) True] r] elems_push [OF Cons.prems(1) True]
      show ?thesis by simp
    next
      case False
      then show ?thesis using Cons.IH [OF Cons.prems(1), of q' ins outs] Cons.prems(2) Some by simp
    qed
  qed
qed simp

end

definition ring_elems :: "Ingester \<Rightarrow> LogChunk list" where
  "ring_elems ig = map (\<lambda>i. chunks ig ! ((tail_idx ig + i) mod kQueueCapacity)) [0..<queue_size ig]"

definition ring_wf :: "Ingester \<Rightarrow> bool" where
  "ring_wf ig \<longleftrightarrow> length (chunks ig) = kQueueCapacity \<and> tail_idx ig < kQueueCapacity \<and>
     queue_size ig \<le> kQueueCapacity \<and> head_idx ig = (tail_idx ig + queue_size ig) mod kQueueCapacity"

lemma length_ring_elems [simp]: "length (ring_elems ig) = queue_size ig"
  by (simp add: ring_elems_def)

lemma ring_elems_push:
  assumes "ring_wf ig" "queue_size ig < kQueueCapacity"
  shows "ring_elems (ring_push ig c) = ring_elems ig @ [c]"
proof -
  have distinct_slot: "(tail_idx ig + i) mod kQueueCapacity \<noteq> head_idx ig" if "i < queue_size ig" for i
    using assms that by (auto simp: ring_wf_def mod_eq_iff_dvd_symdiff_nat
        dest!: mod_eq_dvd_iff_nat [THEN iffD1, rotated] dvd_imp_le)
  then have kept: "(chunks ig)[head_idx ig := c] ! ((tail_idx ig + i) mod kQueueCapacity) =
      chunks ig ! ((tail_idx ig + i) mod kQueueCapacity)" if "i < queue_size ig" for i
    using that by (metis nth_list_update_neq)
  have "head_idx ig < length (chunks ig)" "head_idx ig = (tail_idx ig + queue_size ig) mod kQueueCapacity"
    using assms by (simp_all add: ring_wf_def)
  then have new: "(chunks ig)[head_idx ig := c] ! ((tail_idx ig + queue_size ig) mod kQueueCapacity) = c"
    by simp
  show ?thesis unfolding ring_elems_def ring_push_def by (simp add: kept new)
qed

lemma ring_elems_pop:
  assumes "ring_wf ig" "ring_elems ig \<noteq> []"
  shows "ring_elems ig = fst (ring_pop ig) # ring_elems (snd (ring_pop ig))"
proof -
  obtain n where n: "queue_size ig = Suc n"
    using assms(2) by (cases "queue_size ig") (auto simp: ring_elems_def)
  have "[0..<Suc n] = 0 # map Suc [0..<n]" by (simp add: map_Suc_upt upt_conv_Cons)
  then show ?thesis using assms(1) n
    by (simp add: ring_elems_def ring_pop_def ring_wf_def mod_simps del: upt_Suc)
qed

interpretation ring: bounded_fifo ring_elems ring_wf kQueueCapacity ring_push ring_pop
proof
  fix q :: Ingester and x :: LogChunk
  assume wf: "ring_wf q"
  show "length (ring_elems q) \<le> kQueueCapacity" using wf by (simp add: ring_wf_def)
  show "length (ring_elems q) < kQueueCapacity \<Longrightarrow> ring_wf (ring_push q x)"
    using wf by (simp add: ring_wf_def ring_push_def mod_simps)
  show "length (ring_elems q) < kQueueCapacity \<Longrightarrow> ring_elems (ring_push q x) = ring_elems q @ [x]"
    using wf by (simp add: ring_elems_push)
  show "ring_elems q \<noteq> [] \<Longrightarrow> ring_wf (snd (ring_pop q))"
    using wf by (cases "queue_size q") (auto simp: ring_wf_def ring_pop_def ring_elems_def mod_simps)
  show "ring_elems q \<noteq> [] \<Longrightarrow> ring_elems q = fst (ring_pop q) # ring_elems (snd (ring_pop q))"
    using wf by (rule ring_elems_pop)
qed

subsection \<open>Rows and matches\<close>

type_synonym row = "u64 \<times> u64"

definition row_hit :: "u64 \<Rightarrow> u64 \<Rightarrow> row \<Rightarrow> bool" where
  "row_hit s l r \<longleftrightarrow> fst r = s \<and> snd r > l"

definition hits :: "u64 \<Rightarrow> u64 \<Rightarrow> row list \<Rightarrow> u64" where
  "hits s l rows = of_nat (length (filter (row_hit s l) rows))"

lemma hits_append [simp]: "hits s l (xs @ ys) = hits s l xs + hits s l ys"
  by (simp add: hits_def)

lemma hits_Nil [simp]: "hits s l [] = 0"
  by (simp add: hits_def)

definition chunk_rows :: "nat \<Rightarrow> LogChunk \<Rightarrow> row list" where
  "chunk_rows n c = map (\<lambda>i. (col_status c ! i, col_latency c ! i)) [0..<n]"

abbreviation full_rows :: "LogChunk \<Rightarrow> row list" where "full_rows c \<equiv> chunk_rows (chunk_count c) c"

definition doc_row :: "log_doc \<Rightarrow> row" where "doc_row d = (doc_status d, doc_latency d)"

definition chunk_wf :: "LogChunk \<Rightarrow> bool" where
  "chunk_wf c \<longleftrightarrow> length (col_status c) = 64 \<and> length (col_latency c) = 64 \<and> chunk_count c \<le> 64"

lemma length_chunk_rows [simp]: "length (chunk_rows n c) = n"
  by (simp add: chunk_rows_def)

lemma chunk_rows_0 [simp]: "chunk_rows 0 c = []"
  by (simp add: chunk_rows_def)

lemma chunk_rows_count [simp]: "chunk_rows n (c\<lparr>chunk_count := k\<rparr>) = chunk_rows n c"
  by (simp add: chunk_rows_def)

lemma chunk_wf_new: "chunk_wf LogChunk_new"
  by (simp add: chunk_wf_def LogChunk_new_def)

lemma fill_chunk_wf:
  "chunk_wf c \<Longrightarrow> chunk_wf (fill_chunk c n d)" "chunk_count (fill_chunk c n d) = chunk_count c"
  by (simp_all add: chunk_wf_def fill_chunk_def)

lemma fill_chunk_rows:
  "chunk_wf c \<Longrightarrow> n < 64 \<Longrightarrow> chunk_rows (Suc n) (fill_chunk c n d) = chunk_rows n c @ [doc_row d]"
  by (auto simp: chunk_rows_def fill_chunk_def chunk_wf_def doc_row_def)

lemma pad_chunk_props:
  assumes "chunk_wf c" "n \<le> 64"
  shows "chunk_wf (pad_chunk n c) \<and> chunk_count (pad_chunk n c) = n \<and> chunk_rows n (pad_chunk n c) = chunk_rows n c"
proof -
  let ?f = "\<lambda>c i. c\<lparr>col_status := (col_status c)[i := 0], col_latency := (col_latency c)[i := 0]\<rparr>"
  have "length (col_status (foldl ?f c is)) = length (col_status c) \<and>
      length (col_latency (foldl ?f c is)) = length (col_latency c) \<and>
      chunk_count (foldl ?f c is) = chunk_count c \<and>
      (\<forall>i < n. col_status (foldl ?f c is) ! i = col_status c ! i \<and> col_latency (foldl ?f c is) ! i = col_latency c ! i)"
    if "\<forall>j \<in> set is. n \<le> j" for "is" c
    using that by (induction "is" arbitrary: c) (auto simp: nth_list_update)
  from this [of "[n..<kBlockSize]" "c\<lparr>chunk_count := n\<rparr>"] assms show ?thesis
    by (auto simp: pad_chunk_def chunk_wf_def chunk_rows_def)
qed

definition batch_wf :: "u64 list list \<Rightarrow> bool" where
  "batch_wf batch \<longleftrightarrow> length batch = 64 \<and> (\<forall>r \<in> set batch. length r = 8)"

lemma unpack_chunk_rows:
  assumes "batch_wf batch" "chunk_count c \<le> 64"
  shows "batch_wf (unpack_chunk c batch) \<and>
    map (\<lambda>r. (r ! 0, r ! 1)) (take (chunk_count c) (unpack_chunk c batch)) = full_rows c"
proof -
  let ?f = "\<lambda>b r. b[r := (b ! r)[0 := col_status c ! r, 1 := col_latency c ! r]]"
  have "batch_wf (foldl ?f batch [0..<n]) \<and>
      (\<forall>i < n. foldl ?f batch [0..<n] ! i ! 0 = col_status c ! i \<and> foldl ?f batch [0..<n] ! i ! 1 = col_latency c ! i)"
    if "n \<le> 64" for n
    using that
  proof (induction n)
    case (Suc n)
    let ?b = "foldl ?f batch [0..<n]"
    have b: "batch_wf ?b" "length (?b ! n) = 8" using Suc by (auto simp: batch_wf_def)
    then have "batch_wf (?b[n := (?b ! n)[0 := col_status c ! n, 1 := col_latency c ! n]])"
      by (auto simp: batch_wf_def dest!: set_update_subset_insert [THEN subsetD])
    with Suc b show ?case by (auto simp: less_Suc_eq batch_wf_def nth_list_update)
  qed (use assms in simp)
  from this [OF assms(2)] show ?thesis
    using assms(2) by (auto simp: unpack_chunk_def chunk_rows_def batch_wf_def intro!: nth_equalityI)
qed

lemma eval_filter_expr:
  "eval_expr log_schema r (filter_expr s l) \<noteq> 0 \<longleftrightarrow> row_hit s l (r ! 0, r ! 1)"
  by (auto simp: log_schema_def filter_expr_def row_hit_def)

lemma execute_chunk:
  assumes "engine_counts_rows execute" "batch_wf batch" "chunk_count c \<le> 64"
  shows "execute log_schema (filter_expr s l) (take (chunk_count c) (unpack_chunk c batch)) = hits s l (full_rows c)"
proof -
  have "hits s l (full_rows c) = hits s l (map (\<lambda>r. (r ! 0, r ! 1)) (take (chunk_count c) (unpack_chunk c batch)))"
    using unpack_chunk_rows [OF assms(2,3)] by simp
  also have "\<dots> = of_nat (length (filter (\<lambda>r. eval_expr log_schema r (filter_expr s l) \<noteq> 0)
      (take (chunk_count c) (unpack_chunk c batch))))"
    unfolding hits_def filter_map length_map eval_filter_expr o_def ..
  finally show ?thesis using assms(1) by (simp add: engine_counts_rows_def)
qed

subsection \<open>The invariant of a run\<close>

text \<open>The rows of a stream that reach the engine: all of them, unless an exception ends the stream;
  then the chunk that was being filled is dropped.\<close>

definition delivered :: "bool \<Rightarrow> row list \<Rightarrow> row list" where
  "delivered thrown rows = (if thrown then take (length rows div 64 * 64) rows else rows)"

abbreviation item_rows :: "stream_item list \<Rightarrow> row list" where
  "item_rows items \<equiv> map doc_row (parsed_docs items)"

lemma delivered_block:
  assumes "length xs = 64"
  shows "delivered t (xs @ ys) = xs @ delivered t ys"
proof -
  have "(64 + length ys) div 64 * 64 = 64 + length ys div 64 * 64" by (simp add: div_add_self1)
  then show ?thesis using assms by (simp add: delivered_def)
qed

definition p_rest :: "Run \<Rightarrow> row list" where
  "p_rest st =
     (case p_pc st of
        PLoop \<Rightarrow> delivered (DocThrow \<in> set (p_items st)) (chunk_rows (p_count st) (p_chunk st) @ item_rows (p_items st))
      | PPushFull \<Rightarrow> chunk_rows 64 (p_chunk st) @ delivered (DocThrow \<in> set (p_items st)) (item_rows (p_items st))
      | PPushLast \<Rightarrow> full_rows (p_chunk st)
      | _ \<Rightarrow> [])"

definition c_rest :: "Run \<Rightarrow> row list" where
  "c_rest st = (case c_pc st of CExec c \<Rightarrow> full_rows c | _ \<Rightarrow> [])"

definition q_rest :: "Run \<Rightarrow> row list" where
  "q_rest st = concat (map full_rows (ring_elems (ing st)))"

lemma rest_frames [simp]:
  "p_rest (st\<lparr>ing := i\<rparr>) = p_rest st" "p_rest (st\<lparr>p_waiting := b\<rparr>) = p_rest st"
  "p_rest (st\<lparr>c_waiting := b\<rparr>) = p_rest st" "p_rest (st\<lparr>c_pc := c\<rparr>) = p_rest st"
  "p_rest (st\<lparr>c_matches := m\<rparr>) = p_rest st" "p_rest (st\<lparr>c_batch := x\<rparr>) = p_rest st"
  "c_rest (st\<lparr>ing := i\<rparr>) = c_rest st" "c_rest (st\<lparr>p_waiting := b\<rparr>) = c_rest st"
  "c_rest (st\<lparr>c_waiting := b\<rparr>) = c_rest st" "c_rest (st\<lparr>p_pc := p\<rparr>) = c_rest st"
  "c_rest (st\<lparr>p_items := is\<rparr>) = c_rest st" "c_rest (st\<lparr>p_chunk := ck\<rparr>) = c_rest st"
  "c_rest (st\<lparr>p_count := n\<rparr>) = c_rest st"
  "q_rest (st\<lparr>p_waiting := b\<rparr>) = q_rest st" "q_rest (st\<lparr>c_waiting := b\<rparr>) = q_rest st"
  "q_rest (st\<lparr>c_pc := c\<rparr>) = q_rest st" "q_rest (st\<lparr>c_matches := m\<rparr>) = q_rest st"
  "q_rest (st\<lparr>c_batch := x\<rparr>) = q_rest st" "q_rest (st\<lparr>p_pc := p\<rparr>) = q_rest st"
  "q_rest (st\<lparr>p_items := is\<rparr>) = q_rest st" "q_rest (st\<lparr>p_chunk := ck\<rparr>) = q_rest st"
  "q_rest (st\<lparr>p_count := n\<rparr>) = q_rest st"
  by (simp_all add: p_rest_def c_rest_def q_rest_def split: producer_pc.split consumer_pc.split)

text \<open>Data: sizes and indices. Control: who waits, and what is known when a thread is where it is.
  Account: what was counted and what is still under way adds up.\<close>

definition inv_data :: "u64 \<Rightarrow> u64 \<Rightarrow> Run \<Rightarrow> bool" where
  "inv_data s l st \<longleftrightarrow>
     ring_wf (ing st) \<and> status_filter (ing st) = s \<and> latency_filter (ing st) = l \<and>
     chunk_wf (p_chunk st) \<and> batch_wf (c_batch st) \<and>
     (\<forall>c \<in> set (ring_elems (ing st)). chunk_wf c) \<and> (\<forall>c. c_pc st = CExec c \<longrightarrow> chunk_wf c) \<and>
     (p_pc st = PLoop \<longrightarrow> p_count st < 64) \<and>
     (p_pc st = PPushFull \<longrightarrow> chunk_count (p_chunk st) = 64)"

definition inv_ctl :: "Run \<Rightarrow> bool" where
  "inv_ctl st \<longleftrightarrow>
     (ingest_complete (ing st) \<longleftrightarrow> p_pc st = PJoin \<or> (\<exists>n. p_pc st = PReturn n)) \<and>
     (p_waiting st \<longrightarrow> p_pc st \<in> {PPushFull, PPushLast} \<and> queue_size (ing st) = kQueueCapacity) \<and>
     (c_waiting st \<longrightarrow> c_pc st = CTake \<and> queue_size (ing st) = 0 \<and> \<not> ingest_complete (ing st)) \<and>
     (c_pc st \<in> {CExit, CDone} \<longrightarrow> queue_size (ing st) = 0 \<and> ingest_complete (ing st)) \<and>
     (c_pc st \<noteq> CDone \<longrightarrow> match_count (ing st) = 0) \<and>
     (c_pc st = CDone \<longrightarrow> match_count (ing st) = c_matches st) \<and>
     (\<forall>n. p_pc st = PReturn n \<longrightarrow> c_pc st = CDone \<and> n = match_count (ing st))"

definition inv_account :: "u64 \<Rightarrow> u64 \<Rightarrow> u64 \<Rightarrow> Run \<Rightarrow> bool" where
  "inv_account s l tot st \<longleftrightarrow> c_matches st + hits s l (c_rest st @ q_rest st @ p_rest st) = tot"

lemmas inv_defs = inv_data_def inv_ctl_def inv_account_def

lemma producer_cases:
  assumes "producer_step st = Some st'"
  obtains
    (fetch_last) "p_pc st = PLoop" "p_items st = []" "p_count st > 0" "\<not> p_waiting st"
      "st' = st\<lparr>p_chunk := pad_chunk (p_count st) (p_chunk st), p_pc := PPushLast\<rparr>"
  | (fetch_end) "p_pc st = PLoop" "p_items st = []" "p_count st = 0" "\<not> p_waiting st" "st' = st\<lparr>p_pc := PSignal\<rparr>"
  | (skip) "is" where "p_pc st = PLoop" "p_items st = DocError # is" "\<not> p_waiting st" "st' = st\<lparr>p_items := is\<rparr>"
  | (throw) "is" where "p_pc st = PLoop" "p_items st = DocThrow # is" "\<not> p_waiting st"
      "st' = st\<lparr>p_items := is, p_pc := PSignal\<rparr>"
  | (full) d "is" where "p_pc st = PLoop" "p_items st = Doc d # is" "Suc (p_count st) = 64" "\<not> p_waiting st"
      "st' = st\<lparr>p_items := is, p_chunk := (fill_chunk (p_chunk st) (p_count st) d)\<lparr>chunk_count := 64\<rparr>,
               p_count := 64, p_pc := PPushFull\<rparr>"
  | (fill) d "is" where "p_pc st = PLoop" "p_items st = Doc d # is" "Suc (p_count st) \<noteq> 64" "\<not> p_waiting st"
      "st' = st\<lparr>p_items := is, p_chunk := fill_chunk (p_chunk st) (p_count st) d, p_count := Suc (p_count st)\<rparr>"
  | (push_full) "p_pc st = PPushFull" "queue_size (ing st) < 16" "\<not> p_waiting st"
      "st' = st\<lparr>ing := ring_push (ing st) (p_chunk st), c_waiting := False, p_count := 0, p_pc := PLoop\<rparr>"
  | (push_last) "p_pc st = PPushLast" "queue_size (ing st) < 16" "\<not> p_waiting st"
      "st' = st\<lparr>ing := ring_push (ing st) (p_chunk st), c_waiting := False, p_pc := PSignal\<rparr>"
  | (wait) "p_pc st \<in> {PPushFull, PPushLast}" "\<not> queue_size (ing st) < 16" "\<not> p_waiting st" "st' = st\<lparr>p_waiting := True\<rparr>"
  | (signal) "p_pc st = PSignal" "\<not> p_waiting st"
      "st' = st\<lparr>ing := (ing st)\<lparr>ingest_complete := True\<rparr>, c_waiting := False, p_pc := PJoin\<rparr>"
  | (join) "p_pc st = PJoin" "c_pc st = CDone" "\<not> p_waiting st" "st' = st\<lparr>p_pc := PReturn (match_count (ing st))\<rparr>"
proof -
  have nw: "\<not> p_waiting st" using assms by (auto simp: producer_step_def)
  note step = assms [symmetric, unfolded producer_step_def]
  show thesis
  proof (cases "p_pc st")
    case PLoop
    show thesis
    proof (cases "p_items st")
      case Nil
      show thesis
      proof (cases "p_count st > 0")
        case True
        show thesis by (rule fetch_last) (use PLoop Nil True nw step in simp_all)
      next
        case False
        show thesis by (rule fetch_end) (use PLoop Nil False nw step in simp_all)
      qed
    next
      case (Cons x "is")
      show thesis
      proof (cases x)
        case DocError
        show thesis by (rule skip) (use PLoop Cons DocError nw step in simp_all)
      next
        case DocThrow
        show thesis by (rule throw) (use PLoop Cons DocThrow nw step in simp_all)
      next
        case (Doc d)
        show thesis
        proof (cases "Suc (p_count st) = 64")
          case True
          show thesis by (rule full) (use PLoop Cons Doc True nw step in \<open>simp_all add: Let_def\<close>)
        next
          case False
          show thesis by (rule fill) (use PLoop Cons Doc False nw step in \<open>simp_all add: Let_def\<close>)
        qed
      qed
    qed
  next
    case PPushFull
    show thesis
    proof (cases "queue_size (ing st) < 16")
      case True
      show thesis by (rule push_full) (use PPushFull True nw step in simp_all)
    next
      case False
      show thesis by (rule wait) (use PPushFull False nw step in simp_all)
    qed
  next
    case PPushLast
    show thesis
    proof (cases "queue_size (ing st) < 16")
      case True
      show thesis by (rule push_last) (use PPushLast True nw step in simp_all)
    next
      case False
      show thesis by (rule wait) (use PPushLast False nw step in simp_all)
    qed
  next
    case PSignal
    show thesis by (rule signal) (use PSignal nw step in simp_all)
  next
    case PJoin
    show thesis by (rule join) (use PJoin nw step in \<open>simp_all split: if_splits\<close>)
  qed (use nw step in simp)
qed

lemma consumer_cases:
  assumes "consumer_step execute st = Some st'"
  obtains
    (wait) "c_pc st = CTake" "queue_size (ing st) = 0" "\<not> ingest_complete (ing st)" "\<not> c_waiting st"
      "st' = st\<lparr>c_waiting := True\<rparr>"
  | (exit) "c_pc st = CTake" "queue_size (ing st) = 0" "ingest_complete (ing st)" "\<not> c_waiting st" "st' = st\<lparr>c_pc := CExit\<rparr>"
  | (take) "c_pc st = CTake" "queue_size (ing st) > 0" "\<not> c_waiting st"
      "st' = st\<lparr>ing := snd (ring_pop (ing st)), p_waiting := False, c_pc := CExec (fst (ring_pop (ing st)))\<rparr>"
  | (exec) c where "c_pc st = CExec c" "\<not> c_waiting st"
      "st' = st\<lparr>c_batch := unpack_chunk c (c_batch st),
               c_matches := c_matches st + execute log_schema (filter_expr (status_filter (ing st)) (latency_filter (ing st)))
                  (take (chunk_count c) (unpack_chunk c (c_batch st))),
               c_pc := CTake\<rparr>"
  | (finish) "c_pc st = CExit" "\<not> c_waiting st"
      "st' = st\<lparr>ing := (ing st)\<lparr>match_count := match_count (ing st) + c_matches st\<rparr>, c_pc := CDone\<rparr>"
proof -
  have nw: "\<not> c_waiting st" using assms by (auto simp: consumer_step_def)
  note step = assms [symmetric, unfolded consumer_step_def]
  show thesis
  proof (cases "c_pc st")
    case CTake
    show thesis
    proof (cases "queue_size (ing st) > 0")
      case True
      show thesis by (rule take) (use CTake True nw step in \<open>simp_all add: case_prod_unfold\<close>)
    next
      case empty: False
      show thesis
      proof (cases "ingest_complete (ing st)")
        case True
        show thesis by (rule exit) (use CTake empty True nw step in simp_all)
      next
        case False
        show thesis by (rule wait) (use CTake empty False nw step in simp_all)
      qed
    qed
  next
    case (CExec c)
    show thesis by (rule exec) (use CExec nw step in \<open>simp_all add: Let_def\<close>)
  next
    case CExit
    show thesis by (rule finish) (use CExit nw step in simp_all)
  qed (use nw step in simp)
qed

lemma ring_frames [simp]:
  "ring_elems (ig\<lparr>ingest_complete := b\<rparr>) = ring_elems ig" "ring_elems (ig\<lparr>match_count := m\<rparr>) = ring_elems ig"
  "ring_wf (ig\<lparr>ingest_complete := b\<rparr>) = ring_wf ig" "ring_wf (ig\<lparr>match_count := m\<rparr>) = ring_wf ig"
  by (simp_all add: ring_elems_def ring_wf_def)

lemma ring_push_frame [simp]:
  "status_filter (ring_push ig c) = status_filter ig" "latency_filter (ring_push ig c) = latency_filter ig"
  "ingest_complete (ring_push ig c) = ingest_complete ig" "match_count (ring_push ig c) = match_count ig"
  "queue_size (ring_push ig c) = Suc (queue_size ig)"
  by (simp_all add: ring_push_def)

lemma ring_pop_frame [simp]:
  "status_filter (snd (ring_pop ig)) = status_filter ig" "latency_filter (snd (ring_pop ig)) = latency_filter ig"
  "ingest_complete (snd (ring_pop ig)) = ingest_complete ig" "match_count (snd (ring_pop ig)) = match_count ig"
  "queue_size (snd (ring_pop ig)) = queue_size ig - 1"
  by (simp_all add: ring_pop_def)

lemma push_facts:
  assumes "ring_wf ig" "queue_size ig < 16"
  shows "ring_wf (ring_push ig c)" "ring_elems (ring_push ig c) = ring_elems ig @ [c]"
  using ring.invar_push [OF assms(1)] ring.elems_push [OF assms(1)] assms(2) by simp_all

lemma pop_facts:
  assumes "ring_wf ig" "queue_size ig > 0"
  shows "ring_wf (snd (ring_pop ig))" "ring_elems ig = fst (ring_pop ig) # ring_elems (snd (ring_pop ig))"
proof -
  have ne: "ring_elems ig \<noteq> []" using assms(2) by (metis length_greater_0_conv length_ring_elems)
  show "ring_wf (snd (ring_pop ig))" "ring_elems ig = fst (ring_pop ig) # ring_elems (snd (ring_pop ig))"
    using ring.invar_pop [OF assms(1) ne] ring.elems_pop [OF assms(1) ne] by simp_all
qed

lemma producer_data:
  assumes "producer_step st = Some st'" "inv_data s l st"
  shows "inv_data s l st'"
  using assms(1)
proof (cases rule: producer_cases)
  case fetch_last
  then show ?thesis using assms(2) pad_chunk_props [of "p_chunk st" "p_count st"] by (simp add: inv_data_def)
next
  case full
  then show ?thesis using assms(2) fill_chunk_wf by (simp add: inv_data_def chunk_wf_def)
next
  case fill
  then show ?thesis using assms(2) fill_chunk_wf by (simp add: inv_data_def)
next
  case push_full
  then show ?thesis using assms(2) push_facts [of "ing st" "p_chunk st"] by (simp add: inv_data_def)
next
  case push_last
  then show ?thesis using assms(2) push_facts [of "ing st" "p_chunk st"] by (simp add: inv_data_def)
qed (use assms(2) in \<open>auto simp: inv_data_def\<close>)

lemma consumer_data:
  assumes "consumer_step execute st = Some st'" "inv_data s l st"
  shows "inv_data s l st'"
  using assms(1)
proof (cases rule: consumer_cases)
  case take
  then show ?thesis using assms(2) pop_facts [of "ing st"] by (auto simp: inv_data_def)
next
  case exec
  then show ?thesis using assms(2) unpack_chunk_rows by (auto simp: inv_data_def chunk_wf_def)
qed (use assms(2) in \<open>auto simp: inv_data_def\<close>)

lemma producer_ctl:
  assumes "producer_step st = Some st'" "inv_ctl st" "inv_data s l st"
  shows "inv_ctl st'"
  using assms(1)
  by (cases rule: producer_cases) (use assms(2,3) in \<open>auto simp: inv_ctl_def inv_data_def ring_wf_def\<close>)

lemma consumer_ctl:
  assumes "consumer_step execute st = Some st'" "inv_ctl st" "inv_data s l st"
  shows "inv_ctl st'"
  using assms(1)
  by (cases rule: consumer_cases) (use assms(2,3) in \<open>auto simp: inv_ctl_def inv_data_def ring_wf_def\<close>)

lemma consumer_account:
  assumes "engine_counts_rows execute" "consumer_step execute st = Some st'" "inv_data s l st" "inv_account s l tot st"
  shows "inv_account s l tot st'"
  using assms(2)
proof (cases rule: consumer_cases)
  case take
  then show ?thesis using assms(3,4) pop_facts(2) [of "ing st"]
    by (simp add: inv_account_def c_rest_def q_rest_def inv_data_def)
next
  case (exec c)
  then have "chunk_count c \<le> 64" "batch_wf (c_batch st)" using assms(3) by (auto simp: inv_data_def chunk_wf_def)
  then show ?thesis using exec assms(3,4) execute_chunk [OF assms(1)]
    by (simp add: inv_account_def c_rest_def inv_data_def add.assoc)
next
  case finish
  then show ?thesis using assms(4) by (simp add: inv_account_def c_rest_def q_rest_def)
qed (use assms(4) in \<open>auto simp: inv_account_def c_rest_def\<close>)

lemma producer_account:
  assumes "producer_step st = Some st'" "inv_data s l st" "inv_account s l tot st"
  shows "inv_account s l tot st'"
proof -
  note data = assms(2) [unfolded inv_data_def]
  have "c_rest st' @ q_rest st' @ p_rest st' = c_rest st @ q_rest st @ p_rest st \<and> c_matches st' = c_matches st"
    using assms(1)
  proof (cases rule: producer_cases)
    case fetch_last
    then show ?thesis using data pad_chunk_props [of "p_chunk st" "p_count st"]
      by (simp add: p_rest_def delivered_def)
  next
    case throw
    then show ?thesis using data by (simp add: p_rest_def delivered_def)
  next
    case (full d "is")
    have "chunk_rows 64 (fill_chunk (p_chunk st) (p_count st) d) = chunk_rows (p_count st) (p_chunk st) @ [doc_row d]"
      using fill_chunk_rows [of "p_chunk st" "p_count st" d] data full(3) by simp
    moreover have "length (chunk_rows (p_count st) (p_chunk st) @ [doc_row d]) = 64" using full(3) by simp
    ultimately show ?thesis using full delivered_block [of "chunk_rows (p_count st) (p_chunk st) @ [doc_row d]"]
      by (simp add: p_rest_def)
  next
    case (fill d "is")
    then show ?thesis using data fill_chunk_rows [of "p_chunk st" "p_count st" d]
      by (simp add: p_rest_def)
  next
    case push_full
    then show ?thesis using data push_facts(2) [of "ing st" "p_chunk st"]
      by (simp add: q_rest_def p_rest_def)
  next
    case push_last
    then show ?thesis using data push_facts(2) [of "ing st" "p_chunk st"]
      by (simp add: q_rest_def p_rest_def)
  qed (use data in \<open>auto simp: q_rest_def p_rest_def delivered_def\<close>)
  then show ?thesis using assms(3) by (simp add: inv_account_def del: hits_append)
qed

definition run_inv :: "u64 \<Rightarrow> u64 \<Rightarrow> u64 \<Rightarrow> Run \<Rightarrow> bool" where
  "run_inv s l tot st \<longleftrightarrow> inv_data s l st \<and> inv_ctl st \<and> inv_account s l tot st"

lemma thread_step_inv:
  assumes "engine_counts_rows execute" "thread_step execute st st'" "run_inv s l tot st"
  shows "run_inv s l tot st'"
  using assms(2,3)
proof cases
  case producer
  then show ?thesis using assms(3) producer_data producer_ctl producer_account by (auto simp: run_inv_def)
next
  case consumer
  then show ?thesis using assms(1,3) consumer_data consumer_ctl consumer_account by (auto simp: run_inv_def)
qed

lemma wake_inv:
  assumes "run_inv s l tot st"
  shows "run_inv s l tot (st\<lparr>p_waiting := False\<rparr>)" "run_inv s l tot (st\<lparr>c_waiting := False\<rparr>)"
proof -
  have "inv_data s l (st\<lparr>p_waiting := False\<rparr>)" "inv_data s l (st\<lparr>c_waiting := False\<rparr>)"
    "inv_account s l tot (st\<lparr>p_waiting := False\<rparr>)" "inv_account s l tot (st\<lparr>c_waiting := False\<rparr>)"
    using assms by (simp_all add: run_inv_def inv_data_def inv_account_def)
  moreover have "inv_ctl (st\<lparr>p_waiting := False\<rparr>)" "inv_ctl (st\<lparr>c_waiting := False\<rparr>)"
    using assms by (auto simp: run_inv_def inv_ctl_def)
  ultimately show "run_inv s l tot (st\<lparr>p_waiting := False\<rparr>)" "run_inv s l tot (st\<lparr>c_waiting := False\<rparr>)"
    by (simp_all add: run_inv_def)
qed

lemma run_step_inv:
  assumes "engine_counts_rows execute" "run_step execute st st'" "run_inv s l tot st"
  shows "run_inv s l tot st'"
  using assms(2) by cases (use assms thread_step_inv wake_inv in blast)+

lemma run_steps_inv:
  assumes "engine_counts_rows execute" "(run_step execute)\<^sup>*\<^sup>* st st'" "run_inv s l tot st"
  shows "run_inv s l tot st'"
  using assms(2,3) by (induction rule: rtranclp_induct) (use assms(1) run_step_inv in blast)+

definition expected :: "u64 \<Rightarrow> u64 \<Rightarrow> stream_item list \<Rightarrow> u64" where
  "expected s l items = hits s l (delivered (DocThrow \<in> set items) (item_rows items))"

definition ready :: "u64 \<Rightarrow> u64 \<Rightarrow> Ingester \<Rightarrow> bool" where
  "ready s l ig \<longleftrightarrow> ring_wf ig \<and> queue_size ig = 0 \<and> status_filter ig = s \<and> latency_filter ig = l \<and>
     \<not> ingest_complete ig \<and> match_count ig = 0"

lemma run_start_inv:
  assumes "ready s l ig"
  shows "run_inv s l (expected s l items) (run_start ig items)"
proof -
  have "ring_elems ig = []" using assms by (simp add: ready_def ring_elems_def)
  then show ?thesis using assms
    by (simp add: ready_def run_inv_def inv_defs run_start_def chunk_wf_new batch_wf_def c_rest_def q_rest_def
        p_rest_def expected_def)
qed

lemma reset_run_ready:
  "length (chunks ig) = 16 \<Longrightarrow> ready s l ((reset_run s l ig)\<lparr>file_size := n\<rparr>)"
  by (simp add: ready_def reset_run_def ring_wf_def)

text \<open>When the producer returns, everything is accounted for.\<close>

lemma returned_exact:
  assumes "run_inv s l tot st" "p_pc st = PReturn n"
  shows "n = tot"
proof -
  from assms have ctl: "c_pc st = CDone" "queue_size (ing st) = 0" "n = c_matches st"
    by (auto simp: run_inv_def inv_ctl_def)
  then have "c_rest st = []" "q_rest st = []" "p_rest st = []"
    using assms(2) by (simp_all add: c_rest_def q_rest_def p_rest_def ring_elems_def)
  then show ?thesis using assms(1) ctl by (simp add: run_inv_def inv_account_def)
qed

lemma producer_stuck:
  assumes "producer_step st = None" "\<not> p_waiting st" "\<forall>n. p_pc st \<noteq> PReturn n"
  shows "p_pc st = PJoin \<and> c_pc st \<noteq> CDone"
proof (cases "p_pc st")
  case PLoop
  show ?thesis
  proof (cases "p_items st")
    case Nil
    then show ?thesis using assms PLoop by (simp add: producer_step_def split: if_splits)
  next
    case (Cons x "is")
    then show ?thesis using assms PLoop by (cases x) (simp_all add: producer_step_def Let_def split: if_splits)
  qed
qed (use assms in \<open>simp_all add: producer_step_def split: if_splits\<close>)

lemma consumer_stuck: "consumer_step execute st = None \<Longrightarrow> c_waiting st \<or> c_pc st = CDone"
  by (cases "c_pc st") (auto simp: consumer_step_def Let_def split: if_splits prod.splits)

text \<open>No deadlock: while the producer has not returned, one of the threads can move.\<close>

lemma run_progress:
  assumes "run_inv s l tot st" "\<forall>n. p_pc st \<noteq> PReturn n"
  shows "\<exists>st'. thread_step execute st st'"
proof (rule ccontr)
  assume none: "\<nexists>st'. thread_step execute st st'"
  have stuck: "producer_step st = None" "consumer_step execute st = None"
    using none thread_step.producer [of st] thread_step.consumer [of execute st] by (meson not_Some_eq)+
  have ctl: "inv_ctl st" using assms(1) by (simp add: run_inv_def)
  have c: "c_waiting st \<or> c_pc st = CDone" using consumer_stuck [OF stuck(2)] .
  have p: "p_waiting st \<or> (p_pc st = PJoin \<and> c_pc st \<noteq> CDone)"
    using producer_stuck [OF stuck(1) _ assms(2)] by blast
  show False using c p ctl by (auto simp: inv_ctl_def)
qed

text \<open>Every step of a thread makes progress.\<close>

definition p_weight :: "producer_pc \<Rightarrow> nat" where
  "p_weight pc = (case pc of PLoop \<Rightarrow> 10 | PPushFull \<Rightarrow> 16 | PPushLast \<Rightarrow> 9 | PSignal \<Rightarrow> 3 | PJoin \<Rightarrow> 1 | PReturn _ \<Rightarrow> 0)"

definition c_weight :: "consumer_pc \<Rightarrow> nat" where
  "c_weight pc = (case pc of CTake \<Rightarrow> 2 | CExec _ \<Rightarrow> 3 | CExit \<Rightarrow> 1 | CDone \<Rightarrow> 0)"

definition run_measure :: "Run \<Rightarrow> nat" where
  "run_measure st = 20 * length (p_items st) + p_weight (p_pc st) + c_weight (c_pc st) +
     4 * queue_size (ing st) + of_bool (\<not> p_waiting st) + of_bool (\<not> c_waiting st)"

lemma thread_step_measure:
  assumes "thread_step execute st st'"
  shows "run_measure st' < run_measure st"
  using assms
proof cases
  case producer
  then show ?thesis
    by (cases rule: producer_cases) (auto simp: run_measure_def p_weight_def)
next
  case consumer
  then show ?thesis
    by (cases rule: consumer_cases) (auto simp: run_measure_def c_weight_def)
qed

lemma thread_steps_bound: "(thread_step execute ^^ k) st st' \<Longrightarrow> k + run_measure st' \<le> run_measure st"
proof (induction k arbitrary: st')
  case (Suc k)
  then obtain m where "(thread_step execute ^^ k) st m" "thread_step execute m st'" by auto
  with Suc.IH thread_step_measure [of execute m st'] show ?case by fastforce
qed simp

lemma thread_run_finishes:
  assumes "engine_counts_rows execute" "run_inv s l tot st"
  shows "\<exists>st'. (thread_step execute)\<^sup>*\<^sup>* st st' \<and> p_pc st' = PReturn tot \<and> run_inv s l tot st'"
  using assms(2)
proof (induction "run_measure st" arbitrary: st rule: less_induct)
  case less
  show ?case
  proof (cases "\<exists>n. p_pc st = PReturn n")
    case True
    then show ?thesis using less.prems returned_exact by blast
  next
    case False
    then obtain m where m: "thread_step execute st m" using run_progress [OF less.prems] by blast
    from less.hyps [OF thread_step_measure [OF m] thread_step_inv [OF assms(1) m less.prems]]
    show ?thesis using m by (meson converse_rtranclp_into_rtranclp)
  qed
qed

lemma thread_steps_run_steps: "(thread_step execute)\<^sup>*\<^sup>* st st' \<Longrightarrow> (run_step execute)\<^sup>*\<^sup>* st st'"
  by (rule rtranclp_mono [THEN predicate2D]) (auto intro: run_step.move)

lemma hits_docs: "hits s l (map doc_row ds) = of_nat (length (filter (doc_matches s l) ds))"
proof -
  have "row_hit s l \<circ> doc_row = doc_matches s l"
    by (auto simp: fun_eq_iff row_hit_def doc_row_def doc_matches_def)
  then show ?thesis by (simp add: hits_def filter_map)
qed

lemma run_query_expected:
  assumes "engine_counts_rows execute" "length (chunks ig) = 16" "filepath ig \<noteq> []"
  shows "(\<exists>ig'. run_query execute (Some n) (Some items) ig s l m ig') \<longleftrightarrow> m = expected s l items"
proof
  assume "\<exists>ig'. run_query execute (Some n) (Some items) ig s l m ig'"
  then obtain st where "(run_step execute)\<^sup>*\<^sup>* (run_start ((reset_run s l ig)\<lparr>file_size := n\<rparr>) items) st" "p_pc st = PReturn m"
    using assms(3) by (auto elim!: run_query.cases)
  with run_steps_inv [OF assms(1) _ run_start_inv [OF reset_run_ready [OF assms(2)]]]
  show "m = expected s l items" using returned_exact by blast
next
  assume "m = expected s l items"
  with thread_run_finishes [OF assms(1) run_start_inv [OF reset_run_ready [OF assms(2)]]]
  obtain st where "(run_step execute)\<^sup>*\<^sup>* (run_start ((reset_run s l ig)\<lparr>file_size := n\<rparr>) items) st" "p_pc st = PReturn m"
    using thread_steps_run_steps by blast
  with run_query.runs [OF assms(3)] show "\<exists>ig'. run_query execute (Some n) (Some items) ig s l m ig'" by blast
qed

definition opened :: Ingester where
  "opened = snd (open_file ''a.json'' (Some (Some 90)) Ingester_new)"

lemma opened_ok: "length (chunks opened) = 16" "filepath opened \<noteq> []"
  by (simp_all add: opened_def open_file_def Ingester_new_def)

definition a_doc :: "u64 \<Rightarrow> u64 \<Rightarrow> stream_item" where
  "a_doc s l = Doc \<lparr>raw_offset = None, status_field = Some s, latency_field = Some l\<rparr>"

section \<open>Properties\<close>

text \<open>C2: the pipeline counts exactly. On an opened file whose stream raises no exception, for every
  scheduling of the two threads and every pattern of spurious wake-ups, \<open>run_query\<close> returns the number
  of documents (absent fields read as 0) with the status and above the latency, and some run does
  return it.\<close>

theorem run_query_exact:
  assumes "engine_counts_rows execute" "length (chunks ig) = 16" "filepath ig \<noteq> []" "DocThrow \<notin> set items"
  shows "(\<exists>ig'. run_query execute (Some n) (Some items) ig s l m ig') \<longleftrightarrow>
    m = of_nat (length (filter (doc_matches s l) (parsed_docs items)))"
  using run_query_expected [OF assms(1-3), of n items s l m] assms(4)
  by (simp add: expected_def delivered_def hits_docs)

theorem run_query_exact_witness:
  "\<exists>ig'. run_query ref_execute (Some 90) (Some [a_doc 500 9, DocError, a_doc 200 9, a_doc 500 3]) opened 500 5 1 ig'"
  using run_query_exact [OF ref_engines(1) opened_ok, of "[a_doc 500 9, DocError, a_doc 200 9, a_doc 500 3]" 90 500 5 1]
  by (simp add: a_doc_def doc_matches_def field_or_0_def)

text \<open>C10: no deadlock, no lost wake-up, and termination. In every state a run can reach, with spurious
  wake-ups at any point, the ring holds at most 16 chunks and, unless the producer has returned, one of
  the two threads can take a step; and a run without spurious wake-ups has at most 20 thread steps per
  stream item and 14 more, in every schedule.\<close>

theorem run_query_live:
  assumes "engine_counts_rows execute" "length (chunks ig) = 16"
    "(run_step execute)\<^sup>*\<^sup>* (run_start ((reset_run s l ig)\<lparr>file_size := n\<rparr>) items) st"
  shows "queue_size (ing st) \<le> 16 \<and>
    ((\<exists>m. p_pc st = PReturn m) \<or> (\<exists>st'. thread_step execute st st')) \<and>
    (\<forall>k st'. (thread_step execute ^^ k) (run_start ((reset_run s l ig)\<lparr>file_size := n\<rparr>) items) st' \<longrightarrow>
       k \<le> 20 * length items + 14)"
proof (intro conjI allI impI)
  have inv: "run_inv s l (expected s l items) st"
    using run_steps_inv [OF assms(1,3) run_start_inv [OF reset_run_ready [OF assms(2)]]] .
  then show "queue_size (ing st) \<le> 16"
    using ring.bounded [of "ing st"] by (simp add: run_inv_def inv_data_def)
  show "(\<exists>m. p_pc st = PReturn m) \<or> (\<exists>st'. thread_step execute st st')"
    using run_progress [OF inv] by blast
next
  fix k st'
  assume "(thread_step execute ^^ k) (run_start ((reset_run s l ig)\<lparr>file_size := n\<rparr>) items) st'"
  from thread_steps_bound [OF this] show "k \<le> 20 * length items + 14"
    by (simp add: run_measure_def run_start_def reset_run_def p_weight_def c_weight_def)
qed

theorem run_query_live_witness:
  "\<exists>st'. thread_step ref_execute (run_start ((reset_run 500 5 opened)\<lparr>file_size := 90\<rparr>) [a_doc 500 9]) st'"
  using run_query_live [OF ref_engines(1) opened_ok(1) rtranclp.rtrancl_refl, of 90 500 5 "[a_doc 500 9]"]
  by (auto simp: run_start_def)

text \<open>C29: the ring buffer is a queue. Over any sequence of pushes (while there is space) and pops
  (while there is something to take) the chunks come out in the order in which they went in, none is
  lost, overwritten or duplicated, and the head and tail indices stay consistent.\<close>

theorem ring_buffer_fifo:
  assumes "ring_wf ig" "ring.fifo_run ops ig = (ig', ins, outs)"
  shows "ring_wf ig' \<and> ring_elems ig @ ins = outs @ ring_elems ig'"
  using assms by (rule ring.fifo_order)

theorem ring_buffer_fifo_witness:
  "\<exists>ig'. ring.fifo_run [Some (LogChunk_new\<lparr>chunk_count := 7\<rparr>), None, None] Ingester_new =
      (ig', [LogChunk_new\<lparr>chunk_count := 7\<rparr>], [LogChunk_new\<lparr>chunk_count := 7\<rparr>]) \<and> ring_elems ig' = []"
proof -
  have wf: "ring_wf Ingester_new" by (simp add: ring_wf_def Ingester_new_def)
  obtain ig' ins outs where
    run: "ring.fifo_run [Some (LogChunk_new\<lparr>chunk_count := 7\<rparr>), None, None] Ingester_new = (ig', ins, outs)"
    using prod_cases3 by blast
  then have "ins = [LogChunk_new\<lparr>chunk_count := 7\<rparr>]" "outs = [LogChunk_new\<lparr>chunk_count := 7\<rparr>]"
    by (auto simp: ring_elems_def ring_push_def ring_pop_def Ingester_new_def)
  with ring_buffer_fifo [OF wf run] run show ?thesis by (simp add: ring_elems_def Ingester_new_def)
qed

text \<open>an exception loses the open chunk. When the document stream raises an exception, the
  query still returns normally, with the matches of the full 64-document chunks before it only: the
  documents of the chunk being filled are not counted, and nothing reports it.\<close>

theorem run_query_exception_drops_chunk:
  assumes "engine_counts_rows execute" "length (chunks ig) = 16" "filepath ig \<noteq> []" "DocThrow \<in> set items"
  shows "(\<exists>ig'. run_query execute (Some n) (Some items) ig s l m ig') \<longleftrightarrow>
    m = of_nat (length (filter (doc_matches s l)
          (take (length (parsed_docs items) div 64 * 64) (parsed_docs items))))"
  using run_query_expected [OF assms(1-3), of n items s l m] assms(4)
  by (simp add: expected_def delivered_def take_map hits_docs)

theorem run_query_exception_drops_chunk_witness:
  "\<exists>ig'. run_query ref_execute (Some 90) (Some [a_doc 500 9, a_doc 500 9, DocThrow]) opened 500 5 0 ig'"
  using run_query_exception_drops_chunk [OF ref_engines(1) opened_ok, of "[a_doc 500 9, a_doc 500 9, DocThrow]" 90 500 5 0]
  by (simp add: a_doc_def)

end
