(* ===== verification/Service.thy ===== *)
theory Service
  imports Query_Ingester Exporter Dispatcher String_Search
begin

text \<open>
  The gRPC service (\<^verbatim>\<open>eureka-services/aarchgate-core-grpc\<close>): the cache of mapped \<open>.agb\<close> files with its
  background pinning threads, \<open>ExecuteQuery\<close>, \<open>StreamIngest\<close>, the destructor and the start-up scan of
  \<^verbatim>\<open>main.cpp\<close>. The file system, the memory a mapping shows and the engine are parameters.
\<close>

section \<open>Model\<close>

subsection \<open>The cache of mapped files\<close>

record MappedFile =
  addr :: nat
  mf_size :: nat
  pinned :: bool
  pin_in_progress :: bool

text \<open>A detached thread that pins a mapping: path, address and size as it captured them.\<close>

type_synonym pin_thread = "string \<times> nat \<times> nat"

record Service =
  mapped_files :: "string \<Rightarrow> MappedFile option"
  pin_threads :: "pin_thread list"

definition Service_new :: Service where
  "Service_new = \<lparr>mapped_files = Map.empty, pin_threads = []\<rparr>"

text \<open>What the operating system answers for a path: whether \<open>open\<close> succeeds, the \<open>st_size\<close> that \<open>fstat\<close>
  reports (\<open>None\<close> when it fails) and the address \<open>mmap\<close> gives (\<open>None\<close> for \<open>MAP_FAILED\<close>).\<close>

record map_answers =
  ma_open :: bool
  ma_st_size :: "int option"
  ma_mmap :: "nat option"

text \<open>A file of \<open>n\<close> bytes that opens and can be mapped at \<open>a\<close>.\<close>

definition MappedAt :: "nat \<Rightarrow> nat \<Rightarrow> map_answers" where
  "MappedAt a n = \<lparr>ma_open = True, ma_st_size = Some (int n), ma_mmap = Some a\<rparr>"

text \<open>The calls of \<open>PrewarmCache\<close> on a file that is not cached, with its early returns.\<close>

definition map_file :: "map_answers \<Rightarrow> (nat \<times> nat) option" where
  "map_file os =
     (if \<not> ma_open os then None
      else case ma_st_size os of
             None \<Rightarrow> None
           | Some st_size \<Rightarrow>
               if st_size \<le> 0 then None
               else case ma_mmap os of None \<Rightarrow> None | Some mapped \<Rightarrow> Some (mapped, nat st_size))"

lemma map_file_MappedAt [simp]: "map_file (MappedAt a n) = (if n = 0 then None else Some (a, n))"
  by (simp add: map_file_def MappedAt_def)

type_synonym canonical = "string \<Rightarrow> string option"  \<comment> \<open>\<open>weakly_canonical\<close>; \<open>None\<close> when it throws\<close>

definition resolve :: "canonical \<Rightarrow> string \<Rightarrow> string" where
  "resolve canon raw = (case canon raw of Some p \<Rightarrow> p | None \<Rightarrow> raw)"

definition is_agb :: "string \<Rightarrow> bool" where
  "is_agb p \<longleftrightarrow> length p \<ge> 4 \<and> drop (length p - 4) p = ''.agb''"

definition PrewarmCache :: "canonical \<Rightarrow> (string \<Rightarrow> map_answers) \<Rightarrow> string \<Rightarrow> bool \<Rightarrow> Service \<Rightarrow> Service" where
  "PrewarmCache canon os raw pin st =
     (let path = resolve canon raw
      in if \<not> is_agb path then st
         else case mapped_files st path of
           Some m \<Rightarrow>
             if pin \<and> \<not> pinned m \<and> \<not> pin_in_progress m
             then st\<lparr>mapped_files := (mapped_files st)(path \<mapsto> m\<lparr>pin_in_progress := True\<rparr>),
                     pin_threads := pin_threads st @ [(path, addr m, mf_size m)]\<rparr>
             else st
         | None \<Rightarrow>
             (case map_file (os path) of
                None \<Rightarrow> st
              | Some (a, n) \<Rightarrow>
                  st\<lparr>mapped_files := (mapped_files st)
                        (path \<mapsto> \<lparr>addr = a, mf_size = n, pinned = False, pin_in_progress = pin\<rparr>),
                     pin_threads := (if pin then pin_threads st @ [(path, a, n)] else pin_threads st)\<rparr>))"

text \<open>A pinning thread runs to its end; \<open>ok\<close> is the answer of \<open>mlock\<close>.\<close>

definition pin_done :: "nat \<Rightarrow> bool \<Rightarrow> Service \<Rightarrow> Service" where
  "pin_done i ok st =
     (case pin_threads st ! i of (path, _, _) \<Rightarrow>
       st\<lparr>pin_threads := take i (pin_threads st) @ drop (Suc i) (pin_threads st),
          mapped_files := (case mapped_files st path of
              None \<Rightarrow> mapped_files st
            | Some m \<Rightarrow> (mapped_files st)(path \<mapsto>
                 (if ok then m\<lparr>pinned := True, pin_in_progress := False\<rparr> else m\<lparr>pin_in_progress := False\<rparr>)))\<rparr>)"

text \<open>The destructor: what it unlocks and unmaps (the null address and \<open>MAP_FAILED\<close> never enter the
  cache). The detached threads are not waited for.\<close>

definition destroy_calls :: "string list \<Rightarrow> Service \<Rightarrow> (sys_call \<times> nat) list" where
  "destroy_calls paths st =
     concat (map (\<lambda>p. case mapped_files st p of
         None \<Rightarrow> []
       | Some m \<Rightarrow> (if pinned m then [(SysMunlock, addr m)] else []) @ [(SysMunmap, addr m)]) paths)"

text \<open>What can happen to a service while it is alive.\<close>

inductive service_step :: "canonical \<Rightarrow> (string \<Rightarrow> map_answers) \<Rightarrow> Service \<Rightarrow> Service \<Rightarrow> bool" for canon os where
  prewarm: "service_step canon os st (PrewarmCache canon os raw pin st)"
| pinning: "i < length (pin_threads st) \<Longrightarrow> service_step canon os st (pin_done i ok st)"

subsection \<open>The start-up scan\<close>

text \<open>\<open>path::extension\<close> of a file name: from its last dot, unless that is its first character or the
  name is \<open>..\<close>.\<close>

definition extension :: "string \<Rightarrow> string" where
  "extension name =
     (let ext = rev (takeWhile (\<lambda>c. c \<noteq> CHR ''.'') (rev name))
      in if name = ''..'' \<or> length ext \<ge> length name \<or> length name = Suc (length ext) then []
         else CHR ''.'' # ext)"

record dir_entry =
  entry_name :: string
  is_regular :: bool
  absolute :: string

definition startup_scan :: "canonical \<Rightarrow> (string \<Rightarrow> map_answers) \<Rightarrow> dir_entry list \<Rightarrow> Service \<Rightarrow> Service" where
  "startup_scan canon os entries st =
     foldl (\<lambda>st e. if is_regular e \<and> extension (entry_name e) = ''.agb''
                    then PrewarmCache canon os (absolute e) True st else st) st entries"

subsection \<open>Queries\<close>

datatype status_code = StatusOK | StatusINTERNAL | StatusNOT_FOUND

record QueryResponse =
  total_matches :: u64
  bytes_processed :: nat
  error_message :: string

text \<open>The binary scan: the number of fields is guessed from the file size.\<close>

definition agb_fields :: "nat \<Rightarrow> nat" where
  "agb_fields file_bytes = (if file_bytes = 1996800000 then 3 else 2)"

definition agb_schema :: "nat \<Rightarrow> schema" where
  "agb_schema num_fields =
     [\<lparr>fd_name = ''status'', fd_offset = 0, fd_width = 8\<rparr>, \<lparr>fd_name = ''latency'', fd_offset = 8, fd_width = 8\<rparr>] @
     (if num_fields = 3 then [\<lparr>fd_name = ''severity'', fd_offset = 16, fd_width = 8\<rparr>] else [])"

definition agb_scan :: "engine_native \<Rightarrow> ParsedQuery \<Rightarrow> nat \<Rightarrow> u8 list \<Rightarrow> u64" where
  "agb_scan native q file_bytes bytes =
     (let num_fields = agb_fields file_bytes; num_blocks = file_bytes div (num_fields * 64 * 8)
      in native (agb_schema num_fields) (filter_expr (status_target q) (latency_target q))
           (bytes_words bytes) num_blocks 4)"

text \<open>The environment of a request: the file system, the memory behind a mapped address, the
  answers for the text path, and the engine.\<close>

record env =
  e_canon :: canonical
  e_map :: "string \<Rightarrow> map_answers"
  e_mem :: "nat \<Rightarrow> u8 list"
  e_file :: "string \<Rightarrow> os_file"
  e_size :: "string \<Rightarrow> nat option option"
  e_view :: "string \<Rightarrow> nat option"
  e_docs :: "string \<Rightarrow> stream_item list option"
  e_execute :: engine_execute
  e_native :: engine_native

definition ok_response :: "u64 \<Rightarrow> nat \<Rightarrow> QueryResponse" where
  "ok_response m b = \<lparr>total_matches = m, bytes_processed = b, error_message = []\<rparr>"

definition error_response :: "string \<Rightarrow> QueryResponse" where
  "error_response msg = \<lparr>total_matches = 0, bytes_processed = 0, error_message = msg\<rparr>"

inductive ExecuteQuery ::
  "env \<Rightarrow> string \<Rightarrow> string \<Rightarrow> bool \<Rightarrow> Service \<Rightarrow> cpp_error + (status_code \<times> QueryResponse) \<Rightarrow> Service \<Rightarrow> bool"
  for e query raw pin st where
  undefined_parse: "parse_query query = Inl err \<Longrightarrow> ExecuteQuery e query raw pin st (Inl err) st"
| agb_unmapped: "parse_query query = Inr q \<Longrightarrow> path = resolve (e_canon e) raw \<Longrightarrow> is_agb path \<Longrightarrow>
    st' = PrewarmCache (e_canon e) (e_map e) path pin st \<Longrightarrow> (\<forall>m. mapped_files st' path = Some m \<longrightarrow> addr m = 0) \<Longrightarrow>
    ExecuteQuery e query raw pin st
      (Inr (StatusINTERNAL, error_response (''Failed to map binary file: '' @ path))) st'"
| agb_mapped: "parse_query query = Inr q \<Longrightarrow> path = resolve (e_canon e) raw \<Longrightarrow> is_agb path \<Longrightarrow>
    st' = PrewarmCache (e_canon e) (e_map e) path pin st \<Longrightarrow> mapped_files st' path = Some m \<Longrightarrow> addr m \<noteq> 0 \<Longrightarrow>
    ExecuteQuery e query raw pin st
      (Inr (StatusOK, ok_response (agb_scan (e_native e) q (mf_size m) (e_mem e (addr m))) (mf_size m))) st'"
| text_scalar: "parse_query query = Inr q \<Longrightarrow> path = resolve (e_canon e) raw \<Longrightarrow> \<not> is_agb path \<Longrightarrow>
    qtype q = SCALAR_STRING_SEARCH \<Longrightarrow>
    run_scalar_string_search_svc (e_file e path) (string_pattern q) pin 0 = (n, b, calls) \<Longrightarrow>
    ExecuteQuery e query raw pin st (Inr (StatusOK, ok_response n b)) st"
| text_missing: "parse_query query = Inr q \<Longrightarrow> path = resolve (e_canon e) raw \<Longrightarrow> \<not> is_agb path \<Longrightarrow>
    qtype q = BIT_SLICED_NUMERICAL_LOGIC \<Longrightarrow>
    open_file path (e_size e path) (set_pin_memory pin Ingester_new) = (False, ig) \<Longrightarrow>
    ExecuteQuery e query raw pin st
      (Inr (StatusNOT_FOUND, error_response (''Failed to open index file: '' @ path))) st"
| text_numerical: "parse_query query = Inr q \<Longrightarrow> path = resolve (e_canon e) raw \<Longrightarrow> \<not> is_agb path \<Longrightarrow>
    qtype q = BIT_SLICED_NUMERICAL_LOGIC \<Longrightarrow>
    open_file path (e_size e path) (set_pin_memory pin Ingester_new) = (True, ig) \<Longrightarrow>
    run_query (e_execute e) (e_view e path) (e_docs e path) ig (status_target q) (latency_target q) n ig' \<Longrightarrow>
    ExecuteQuery e query raw pin st (Inr (StatusOK, ok_response n (get_file_size ig))) st"

subsection \<open>Ingestion\<close>

text \<open>One round of \<open>append_raw_batch\<close> and \<open>transcode_batch_now\<close>: the row group is a local variable
  of the loop body and goes out of scope at its end.\<close>

definition ingest_batch ::
  "json_u64 \<Rightarrow> json_str \<Rightarrow> slicer \<Rightarrow> bool \<Rightarrow> string list \<Rightarrow> AdaptiveIngester \<times> wal_disk \<Rightarrow>
   cpp_error + (AdaptiveIngester \<times> wal_disk)" where
  "ingest_batch ju js slice_n wal_ok batch s =
     (case append_raw_batch wal_ok (fst s) (snd s) batch of (ai, wal, rg) \<Rightarrow>
       case transcode_batch_now ju js slice_n wal_ok ai wal (Some rg) of
         Inl err \<Rightarrow> Inl err
       | Inr (ai', wal', rg', n) \<Rightarrow> Inr (ai', wal'))"

record IngestRequest =
  database_path :: string
  log_lines :: "string list"

text \<open>The read loop of \<open>StreamIngest\<close>.\<close>

fun stream_loop ::
  "json_u64 \<Rightarrow> json_str \<Rightarrow> slicer \<Rightarrow> bool \<Rightarrow> IngestRequest list \<Rightarrow> string \<Rightarrow> nat \<Rightarrow> AdaptiveIngester \<times> wal_disk \<Rightarrow>
   cpp_error + (string \<times> nat \<times> wal_disk)" where
  "stream_loop ju js slice_n wal_ok [] db_path total_ingested s = Inr (db_path, total_ingested, snd s)"
| "stream_loop ju js slice_n wal_ok (r # rs) db_path total_ingested s =
     (let db_path = (if db_path = [] then database_path r else db_path); lines = log_lines r
      in if lines = [] then stream_loop ju js slice_n wal_ok rs db_path total_ingested s
         else case ingest_batch ju js slice_n wal_ok lines s of
                Inl err \<Rightarrow> Inl err
              | Inr s' \<Rightarrow> stream_loop ju js slice_n wal_ok rs db_path (total_ingested + length lines) s')"

definition StreamIngest ::
  "env \<Rightarrow> json_u64 \<Rightarrow> json_str \<Rightarrow> slicer \<Rightarrow> bool \<Rightarrow> IngestRequest list \<Rightarrow> Service \<times> wal_disk \<Rightarrow>
   cpp_error + (nat \<times> bool \<times> Service \<times> wal_disk)" where
  "StreamIngest e ju js slice_n wal_ok reqs s =
     (case stream_loop ju js slice_n wal_ok reqs [] 0 (AdaptiveIngester_new, snd s) of
        Inl err \<Rightarrow> Inl err
      | Inr (db_path, total_ingested, wal) \<Rightarrow>
          Inr (total_ingested, True,
               if db_path \<noteq> [] then PrewarmCache (e_canon e) (e_map e) db_path True (fst s) else fst s, wal))"

section \<open>Lemmas\<close>

subsection \<open>Pinning\<close>

text \<open>A path has a pinning thread exactly while its entry says so, at most one, on the entry's own
  mapping; a pinned entry has none.\<close>

definition pin_inv :: "Service \<Rightarrow> bool" where
  "pin_inv st \<longleftrightarrow>
     distinct (map fst (pin_threads st)) \<and>
     (\<forall>p a n. (p, a, n) \<in> set (pin_threads st) \<longrightarrow>
        (\<exists>m. mapped_files st p = Some m \<and> addr m = a \<and> mf_size m = n \<and> pin_in_progress m)) \<and>
     (\<forall>p m. mapped_files st p = Some m \<longrightarrow> is_agb p \<and> \<not> (pinned m \<and> pin_in_progress m) \<and>
        (pin_in_progress m \<longrightarrow> p \<in> fst ` set (pin_threads st)))"

lemma pin_inv_new: "pin_inv Service_new"
  by (simp add: pin_inv_def Service_new_def)

lemma pin_inv_thread:
  "pin_inv st \<Longrightarrow> (p, a, n) \<in> set (pin_threads st) \<Longrightarrow>
    \<exists>m. mapped_files st p = Some m \<and> addr m = a \<and> mf_size m = n \<and> pin_in_progress m"
  unfolding pin_inv_def by blast

lemma pin_inv_entry:
  "pin_inv st \<Longrightarrow> mapped_files st p = Some m \<Longrightarrow>
    is_agb p \<and> \<not> (pinned m \<and> pin_in_progress m) \<and> (pin_in_progress m \<longrightarrow> p \<in> fst ` set (pin_threads st))"
  unfolding pin_inv_def by blast

lemma pin_inv_path:
  assumes "pin_inv st" "p \<in> fst ` set (pin_threads st)"
  shows "\<exists>m. mapped_files st p = Some m \<and> pin_in_progress m"
proof -
  from assms(2) obtain a n where "(p, a, n) \<in> set (pin_threads st)" by auto
  from pin_inv_thread [OF assms(1) this] show ?thesis by blast
qed

lemma pin_inv_put:
  assumes "pin_inv st" "p \<notin> fst ` set (pin_threads st)" "is_agb p" "\<not> pinned m"
    and ts: "ts = (if pin_in_progress m then pin_threads st @ [(p, addr m, mf_size m)] else pin_threads st)"
  shows "pin_inv (st\<lparr>mapped_files := (mapped_files st)(p \<mapsto> m), pin_threads := ts\<rparr>)"
  unfolding pin_inv_def
proof (intro conjI allI impI)
  let ?st = "st\<lparr>mapped_files := (mapped_files st)(p \<mapsto> m), pin_threads := ts\<rparr>"
  show "distinct (map fst (pin_threads ?st))"
    using assms(1,2) by (auto simp: ts pin_inv_def)
  show "\<exists>m. mapped_files ?st q = Some m \<and> addr m = a \<and> mf_size m = n \<and> pin_in_progress m"
    if t: "(q, a, n) \<in> set (pin_threads ?st)" for q a n
  proof (cases "(q, a, n) \<in> set (pin_threads st)")
    case True
    then have "q \<noteq> p" using assms(2) by force
    then show ?thesis using pin_inv_thread [OF assms(1) True] by simp
  next
    case False
    then show ?thesis using t by (auto simp: ts split: if_splits)
  qed
  fix q m0 assume e: "mapped_files ?st q = Some m0"
  show "is_agb q"
    using e pin_inv_entry [OF assms(1), of q m0] assms(3) by (cases "q = p") auto
  show "\<not> (pinned m0 \<and> pin_in_progress m0)"
    using e pin_inv_entry [OF assms(1), of q m0] assms(4) by (cases "q = p") auto
  show "q \<in> fst ` set (pin_threads ?st)" if "pin_in_progress m0"
    using e pin_inv_entry [OF assms(1), of q m0] that by (cases "q = p") (auto simp: ts)
qed

lemma prewarm_inv:
  assumes "pin_inv st"
  shows "pin_inv (PrewarmCache canon os raw pin st)"
proof -
  let ?p = "resolve canon raw"
  show ?thesis
  proof (cases "is_agb ?p")
    case agb: True
    show ?thesis
    proof (cases "mapped_files st ?p")
      case None
      then have free: "?p \<notin> fst ` set (pin_threads st)" using pin_inv_path [OF assms] by fastforce
      show ?thesis
      proof (cases "map_file (os ?p)")
        case (Some an)
        obtain a n where an: "an = (a, n)" by (cases an)
        let ?m = "\<lparr>addr = a, mf_size = n, pinned = False, pin_in_progress = pin\<rparr>"
        from pin_inv_put [OF assms free agb, of ?m] show ?thesis
          using agb None Some an by (cases pin) (simp_all add: PrewarmCache_def Let_def)
      qed (use assms agb None in \<open>simp_all add: PrewarmCache_def Let_def\<close>)
    next
      case (Some m)
      show ?thesis
      proof (cases "pin \<and> \<not> pinned m \<and> \<not> pin_in_progress m")
        case True
        then have free: "?p \<notin> fst ` set (pin_threads st)" using pin_inv_path [OF assms] Some by fastforce
        from pin_inv_put [OF assms free agb, of "m\<lparr>pin_in_progress := True\<rparr>"] show ?thesis
          using agb Some True by (simp add: PrewarmCache_def Let_def)
      next
        case False
        then show ?thesis using assms agb Some by (auto simp: PrewarmCache_def Let_def)
      qed
    qed
  qed (use assms in \<open>simp add: PrewarmCache_def Let_def\<close>)
qed

lemma pin_done_inv:
  assumes "pin_inv st" "i < length (pin_threads st)"
  shows "pin_inv (pin_done i ok st)"
proof -
  obtain p a n where t: "pin_threads st ! i = (p, a, n)" using prod_cases3 by blast
  let ?xs = "take i (pin_threads st)" let ?ys = "drop (Suc i) (pin_threads st)"
  have split: "pin_threads st = ?xs @ (p, a, n) # ?ys" using id_take_nth_drop [OF assms(2)] t by simp
  have dist: "distinct (map fst (?xs @ (p, a, n) # ?ys))" using assms(1) split by (simp add: pin_inv_def)
  have "(p, a, n) \<in> set (pin_threads st)" using t assms(2) nth_mem by fastforce
  then obtain m where m: "mapped_files st p = Some m" "addr m = a" "mf_size m = n" "pin_in_progress m"
    using pin_inv_thread [OF assms(1)] by blast
  have threads: "set (pin_threads st) = insert (p, a, n) (set (?xs @ ?ys))" by (subst split) simp
  have other: "q \<noteq> p" if "(q, b, k) \<in> set (?xs @ ?ys)" for q b k
    using dist that by (force simp: image_iff)
  let ?m' = "if ok then m\<lparr>pinned := True, pin_in_progress := False\<rparr> else m\<lparr>pin_in_progress := False\<rparr>"
  have st': "pin_done i ok st = st\<lparr>pin_threads := ?xs @ ?ys, mapped_files := (mapped_files st)(p \<mapsto> ?m')\<rparr>"
    using t m(1) by (simp add: pin_done_def)
  have "distinct (map fst (?xs @ ?ys))" using dist by simp
  moreover have "\<exists>m. ((mapped_files st)(p \<mapsto> ?m')) q = Some m \<and> addr m = b \<and> mf_size m = k \<and> pin_in_progress m"
    if "(q, b, k) \<in> set (?xs @ ?ys)" for q b k
    using pin_inv_thread [OF assms(1), of q b k] that other [OF that] threads by simp
  moreover have "is_agb q \<and> \<not> (pinned m0 \<and> pin_in_progress m0) \<and> (pin_in_progress m0 \<longrightarrow> q \<in> fst ` set (?xs @ ?ys))"
    if "((mapped_files st)(p \<mapsto> ?m')) q = Some m0" for q m0
  proof (cases "q = p")
    case True
    then show ?thesis using that pin_inv_entry [OF assms(1) m(1)] by (auto split: if_splits)
  next
    case False
    then show ?thesis using that pin_inv_entry [OF assms(1), of q m0] threads by auto
  qed
  ultimately show ?thesis unfolding st' pin_inv_def by simp
qed

lemma service_step_inv: "service_step canon os st st' \<Longrightarrow> pin_inv st \<Longrightarrow> pin_inv st'"
  by (induction rule: service_step.induct) (auto intro: prewarm_inv pin_done_inv)

lemma service_reach_inv: "(service_step canon os)\<^sup>*\<^sup>* st st' \<Longrightarrow> pin_inv st \<Longrightarrow> pin_inv st'"
  by (induction rule: rtranclp_induct) (auto intro: service_step_inv)

text \<open>An entry, once made, keeps its mapping; a pin is never undone.\<close>

definition keeps :: "Service \<Rightarrow> Service \<Rightarrow> bool" where
  "keeps st st' \<longleftrightarrow> (\<forall>p m. mapped_files st p = Some m \<longrightarrow>
     (\<exists>m'. mapped_files st' p = Some m' \<and> addr m' = addr m \<and> mf_size m' = mf_size m \<and> (pinned m \<longrightarrow> pinned m')))"

lemma keeps_trans: "keeps a b \<Longrightarrow> keeps b c \<Longrightarrow> keeps a c"
  unfolding keeps_def by (metis (no_types, lifting))

lemma service_step_keeps: "service_step canon os st st' \<Longrightarrow> keeps st st'"
proof (induction rule: service_step.induct)
  case (prewarm st raw pin)
  show ?case
    by (auto simp: keeps_def PrewarmCache_def Let_def split: option.splits)
next
  case (pinning i st ok)
  obtain p a n where "pin_threads st ! i = (p, a, n)" using prod_cases3 by blast
  then show ?case by (auto simp: keeps_def pin_done_def split: option.splits)
qed

lemma service_reach_keeps: "(service_step canon os)\<^sup>*\<^sup>* st st' \<Longrightarrow> keeps st st'"
proof (induction rule: rtranclp_induct)
  case base
  show ?case by (simp add: keeps_def)
qed (blast intro: keeps_trans service_step_keeps)

subsection \<open>The binary scan\<close>

lemma eval_agb: "eval_expr (agb_schema k) r (filter_expr s l) \<noteq> 0 \<longleftrightarrow> r ! 0 = s \<and> r ! 1 > l"
  by (auto simp: agb_schema_def filter_expr_def)

lemma filter_rows:
  assumes "length ds \<le> n"
  shows "length (filter (\<lambda>row. row < length ds \<and> P (ds ! row)) [0..<n]) = length (filter P ds)"
proof -
  have "[0..<n] = [0..<length ds] @ [length ds..<n]"
    using upt_add_eq_append [of 0 "length ds" "n - length ds"] assms by simp
  moreover have "filter (\<lambda>row. row < length ds \<and> P (ds ! row)) [0..<length ds] = filter (P \<circ> (!) ds) [0..<length ds]"
    by (rule filter_cong) auto
  moreover have "filter (\<lambda>row. row < length ds \<and> P (ds ! row)) [length ds..<n] = []"
    by (simp add: filter_empty_conv)
  ultimately have "filter (\<lambda>row. row < length ds \<and> P (ds ! row)) [0..<n] = filter (P \<circ> (!) ds) [0..<length ds]"
    by simp
  moreover have "filter P ds = map ((!) ds) (filter (P \<circ> (!) ds) [0..<length ds])"
    by (metis filter_map map_nth)
  ultimately show ?thesis by simp
qed

lemma agb_scan_exact:
  assumes "slicer_spec s" "engine_counts_sliced native" "1024 * ceil64 (length ds) \<noteq> 1996800000"
  shows "agb_scan native q (1024 * ceil64 (length ds)) (words_bytes (agb_words s ds (ceil64 (length ds)))) =
    of_nat (length (filter (doc_matches (status_target q) (latency_target q)) ds))"
proof -
  let ?k = "ceil64 (length ds)" let ?w = "agb_words s ds ?k"
  let ?e = "filter_expr (status_target q) (latency_target q)"
  have cover: "length ds \<le> ?k * 64" by (rule ceil64_simps)
  have len: "length (agb_schema 2) = 2" by (simp add: agb_schema_def)
  have fits: "?k * (2 * 64) \<le> length ?w" by simp
  have "agb_scan native q (1024 * ?k) (words_bytes ?w) = native (agb_schema 2) ?e ?w ?k 4"
    using assms(3) by (simp add: agb_scan_def agb_fields_def Let_def)
  also have "\<dots> = of_nat (length (filter (\<lambda>row. eval_expr (agb_schema 2) (map (\<lambda>f. sliced_value 2 ?w f row) [0..<2]) ?e \<noteq> 0)
      [0..<?k * 64]))"
    by (rule assms(2) [unfolded engine_counts_sliced_def, THEN spec, of "agb_schema 2", THEN spec, THEN spec, THEN spec,
          THEN spec, unfolded len, THEN mp, OF fits])
  also have "filter (\<lambda>row. eval_expr (agb_schema 2) (map (\<lambda>f. sliced_value 2 ?w f row) [0..<2]) ?e \<noteq> 0) [0..<?k * 64] =
      filter (\<lambda>row. row < length ds \<and> doc_matches (status_target q) (latency_target q) (ds ! row)) [0..<?k * 64]"
  proof (rule filter_cong [OF refl])
    fix row assume "row \<in> set [0..<?k * 64]"
    then have "row < ?k * 64" by simp
    from sliced_agb [OF assms(1) this, of ds]
    show "eval_expr (agb_schema 2) (map (\<lambda>f. sliced_value 2 ?w f row) [0..<2]) ?e \<noteq> 0 \<longleftrightarrow>
        row < length ds \<and> doc_matches (status_target q) (latency_target q) (ds ! row)"
      unfolding eval_agb by (auto simp: upt_rec [of 0 2] upt_rec [of 1 2] col_or_0_def doc_matches_def)
  qed
  also have "length \<dots> = length (filter (doc_matches (status_target q) (latency_target q)) ds)"
    by (rule filter_rows [OF cover])
  finally show ?thesis .
qed

subsection \<open>Ingestion\<close>

lemma ingest_batch_ok:
  assumes "slicer_spec slice_n" "ingester_wf ai"
  shows "\<exists>ai'. ingest_batch ju js slice_n True batch (ai, wal) = Inr (ai', Some []) \<and> ingester_wf ai'"
proof -
  obtain ai1 wal1 rg where a: "append_raw_batch True ai wal batch = (ai1, wal1, rg)" using prod_cases3 by blast
  note simps = append_raw_batch_simps [OF a]
  have "ingester_wf ai1" using simps(1) assms(2) by simp
  with transcode_batch_spec [OF assms(1), of ai1 ju js True wal1 "Some rg"] obtain ai2 rg' where
    "transcode_batch_now ju js slice_n True ai1 wal1 (Some rg) = Inr (ai2, truncate_wal True wal1, rg', length (pending (Some rg)))"
    "ingester_wf ai2"
    using simps(5) by (auto simp: needs_drain_def)
  then show ?thesis using a by (simp add: ingest_batch_def truncate_wal_def)
qed

definition first_path :: "string \<Rightarrow> IngestRequest list \<Rightarrow> string" where
  "first_path db reqs = (if db \<noteq> [] then db else case filter (\<lambda>p. p \<noteq> []) (map database_path reqs) of [] \<Rightarrow> [] | p # _ \<Rightarrow> p)"

lemma stream_loop_result:
  assumes "slicer_spec slice_n" "ingester_wf ai"
  shows "stream_loop ju js slice_n True reqs db t (ai, wal) =
    Inr (first_path db reqs, t + length (concat (map log_lines reqs)),
         if concat (map log_lines reqs) = [] then wal else Some [])"
  using assms(2)
proof (induction reqs arbitrary: db t ai wal)
  case Nil
  then show ?case by (simp add: first_path_def)
next
  case (Cons r rs)
  have path: "first_path (if db = [] then database_path r else db) rs = first_path db (r # rs)"
    by (simp add: first_path_def)
  show ?case
  proof (cases "log_lines r = []")
    case True
    then show ?thesis using Cons path by (simp add: Let_def)
  next
    case False
    obtain ai' where "ingest_batch ju js slice_n True (log_lines r) (ai, wal) = Inr (ai', Some [])" "ingester_wf ai'"
      using ingest_batch_ok [OF assms(1) Cons.prems] by blast
    with False Cons.IH path show ?thesis by (auto simp: Let_def)
  qed
qed

definition sample_env :: env where
  "sample_env = \<lparr>e_canon = Some, e_map = (\<lambda>p. MappedAt 4096 1024), e_mem = (\<lambda>_. replicate 1024 0),
     e_file = (\<lambda>_. sample_file), e_size = (\<lambda>_. Some (Some 90)), e_view = (\<lambda>_. Some 90),
     e_docs = (\<lambda>_. Some [sample_doc 0 500 9]), e_execute = ref_execute, e_native = ref_native\<rparr>"

section \<open>Properties\<close>

text \<open>C26: the mapping cache. In every state a service can reach, through any interleaving of pre-warms
  and of pinning threads that end, a file has at most one pinning thread, and has one exactly when its
  entry is marked as being pinned and is not pinned yet, so no file is pinned twice; and whatever
  happens later, an entry keeps its address and size and stays pinned once it is.\<close>

theorem mapping_cache_discipline:
  assumes "(service_step canon os)\<^sup>*\<^sup>* Service_new st"
  shows "distinct (map fst (pin_threads st)) \<and>
    (\<forall>p. p \<in> fst ` set (pin_threads st) \<longleftrightarrow>
       (\<exists>m. mapped_files st p = Some m \<and> pin_in_progress m \<and> \<not> pinned m)) \<and>
    (\<forall>st' p m. (service_step canon os)\<^sup>*\<^sup>* st st' \<and> mapped_files st p = Some m \<longrightarrow>
       (\<exists>m'. mapped_files st' p = Some m' \<and> addr m' = addr m \<and> mf_size m' = mf_size m \<and> (pinned m \<longrightarrow> pinned m')))"
proof -
  have inv: "pin_inv st" by (rule service_reach_inv [OF assms pin_inv_new])
  have "p \<in> fst ` set (pin_threads st) \<longleftrightarrow> (\<exists>m. mapped_files st p = Some m \<and> pin_in_progress m \<and> \<not> pinned m)" for p
    using pin_inv_path [OF inv, of p] pin_inv_entry [OF inv, of p] by blast
  moreover have "distinct (map fst (pin_threads st))" using inv by (simp add: pin_inv_def)
  moreover have "\<exists>m'. mapped_files st' p = Some m' \<and> addr m' = addr m \<and> mf_size m' = mf_size m \<and> (pinned m \<longrightarrow> pinned m')"
    if "(service_step canon os)\<^sup>*\<^sup>* st st' \<and> mapped_files st p = Some m" for st' p m
    using service_reach_keeps [of canon os st st'] that by (simp add: keeps_def)
  ultimately show ?thesis by (intro conjI allI impI)
qed

theorem mapping_cache_discipline_witness:
  "''a.agb'' \<in> fst ` set (pin_threads (PrewarmCache Some (\<lambda>_. MappedAt 4096 1024) ''a.agb'' True Service_new))"
proof -
  let ?os = "\<lambda>_ :: string. MappedAt 4096 1024"
  let ?st = "PrewarmCache Some ?os ''a.agb'' True Service_new"
  have "(service_step Some ?os)\<^sup>*\<^sup>* Service_new ?st"
    by (rule r_into_rtranclp) (rule service_step.prewarm)
  moreover have "\<exists>m. mapped_files ?st ''a.agb'' = Some m \<and> pin_in_progress m \<and> \<not> pinned m"
    by (simp add: PrewarmCache_def resolve_def is_agb_def Service_new_def Let_def)
  ultimately show ?thesis using mapping_cache_discipline by blast
qed

text \<open>the destructor does not wait for the pinning threads. In every reachable state, the mapping
  that a still running pinning thread works on is unmapped by the destructor, without being unlocked.\<close>

theorem destructor_unmaps_under_pin_threads:
  assumes "(service_step canon os)\<^sup>*\<^sup>* Service_new st" "(p, a, n) \<in> set (pin_threads st)"
  shows "destroy_calls [p] st = [(SysMunmap, a)]"
proof -
  have inv: "pin_inv st" by (rule service_reach_inv [OF assms(1) pin_inv_new])
  obtain m where "mapped_files st p = Some m" "addr m = a" "pin_in_progress m"
    using pin_inv_thread [OF inv assms(2)] by blast
  then show ?thesis using pin_inv_entry [OF inv, of p m] by (simp add: destroy_calls_def)
qed

theorem destructor_unmaps_under_pin_threads_witness:
  "destroy_calls [''a.agb''] (PrewarmCache Some (\<lambda>_. MappedAt 4096 1024) ''a.agb'' True Service_new) =
     [(SysMunmap, 4096)]"
proof -
  let ?os = "\<lambda>_ :: string. MappedAt 4096 1024"
  let ?st = "PrewarmCache Some ?os ''a.agb'' True Service_new"
  have "(service_step Some ?os)\<^sup>*\<^sup>* Service_new ?st"
    by (rule r_into_rtranclp) (rule service_step.prewarm)
  moreover have "(''a.agb'', 4096, 1024) \<in> set (pin_threads ?st)"
    by (simp add: PrewarmCache_def resolve_def is_agb_def Service_new_def Let_def)
  ultimately show ?thesis by (rule destructor_unmaps_under_pin_threads)
qed

text \<open>C38: a stream is acknowledged but not kept. \<open>StreamIngest\<close> never fails, reports every line of every
  request as ingested, and leaves behind only an empty log and the pre-warmed path: the final state
  does not depend on the lines.\<close>

theorem stream_ingest_keeps_nothing:
  assumes "slicer_spec slice_n" "concat (map log_lines reqs) \<noteq> []"
  shows "StreamIngest e ju js slice_n True reqs (st, wal) =
    Inr (length (concat (map log_lines reqs)), True,
         if first_path [] reqs \<noteq> [] then PrewarmCache (e_canon e) (e_map e) (first_path [] reqs) True st else st,
         Some [])"
  using stream_loop_result [OF assms(1) ingester_wf_new, of ju js reqs "[]" 0 wal] assms(2)
  by (auto simp: StreamIngest_def)

theorem stream_ingest_keeps_nothing_witness:
  "StreamIngest sample_env sample_u64 sample_str ref_slice True
     [\<lparr>database_path = [], log_lines = [''x'', ''y'']\<rparr>] (Service_new, None) = Inr (2, True, Service_new, Some [])"
  using stream_ingest_keeps_nothing [OF ref_slice_spec, of "[\<lparr>database_path = [], log_lines = [''x'', ''y'']\<rparr>]"
      sample_env sample_u64 sample_str Service_new None]
  by (simp add: first_path_def)

text \<open>C25: the service answers text queries exactly. For a numerical query on a text file that opens,
  maps and streams without an exception, every outcome of \<open>ExecuteQuery\<close> is OK with the exact number of
  matching documents and the file size, the cache untouched, and there is such an outcome.\<close>

theorem execute_text_query_exact:
  assumes "engine_counts_rows (e_execute e)" "parse_query query = Inr q" "qtype q = BIT_SLICED_NUMERICAL_LOGIC"
    "path = resolve (e_canon e) raw" "\<not> is_agb path" "path \<noteq> []"
    "e_size e path = Some (Some n)" "e_view e path = Some v" "e_docs e path = Some items" "DocThrow \<notin> set items"
  shows "ExecuteQuery e query raw pin st r st' \<longleftrightarrow>
    r = Inr (StatusOK, ok_response
          (of_nat (length (filter (doc_matches (status_target q) (latency_target q)) (parsed_docs items)))) n) \<and> st' = st"
    (is "_ \<longleftrightarrow> r = Inr (StatusOK, ok_response ?m n) \<and> st' = st")
proof -
  define ig where "ig = snd (open_file path (Some (Some n)) (set_pin_memory pin Ingester_new))"
  have ig: "open_file path (e_size e path) (set_pin_memory pin Ingester_new) = (True, ig)"
    "length (chunks ig) = 16" "filepath ig \<noteq> []" "get_file_size ig = n"
    using assms(6,7) by (simp_all add: ig_def open_file_def set_pin_memory_def Ingester_new_def get_file_size_def)
  have exact: "(\<exists>ig'. run_query (e_execute e) (Some v) (Some items) ig (status_target q) (latency_target q) m ig') \<longleftrightarrow> m = ?m" for m
    using run_query_expected [OF assms(1) ig(2,3), of v items "status_target q" "latency_target q" m] assms(10)
    by (simp add: expected_def delivered_def hits_docs)
  have only: "run_query (e_execute e) (Some v) (Some items) ig (status_target q) (latency_target q) m ig' \<Longrightarrow> m = ?m" for m ig'
    using exact by blast
  show ?thesis
  proof
    assume "ExecuteQuery e query raw pin st r st'"
    then show "r = Inr (StatusOK, ok_response ?m n) \<and> st' = st"
      using assms ig by cases (auto dest!: only)
  next
    obtain ig' where run: "run_query (e_execute e) (Some v) (Some items) ig (status_target q) (latency_target q) ?m ig'"
      using exact [of ?m] by blast
    assume "r = Inr (StatusOK, ok_response ?m n) \<and> st' = st"
    then show "ExecuteQuery e query raw pin st r st'"
      using ExecuteQuery.text_numerical [OF assms(2,4,5,3) ig(1), of ?m ig' st] run ig(4) assms(8,9) by simp
  qed
qed

theorem execute_text_query_exact_witness:
  "ExecuteQuery sample_env (''status == '' @ dec 500 @ '' AND latency > '' @ dec 5) ''a.json'' False Service_new
     (Inr (StatusOK, ok_response 1 90)) Service_new"
proof -
  have "parse_query (''status == '' @ dec 500 @ '' AND latency > '' @ dec 5) = Inr (numerical_result 500 5)"
    using parse_joined [of "'' ''" "'' ''" "'' ''" "'' ''" "[]" "[]" "'' ''" "'' ''" "''AND''" 500 5]
    by (simp add: layout_ok_def isspace_def status_clause_def latency_clause_def)
  from execute_text_query_exact [OF _ this, of sample_env "''a.json''" "''a.json''" 90 90 "[sample_doc 0 500 9]"
      False Service_new "Inr (StatusOK, ok_response 1 90)" Service_new]
  show ?thesis
    by (simp add: sample_env_def ref_engines numerical_result_def resolve_def is_agb_def sample_doc_def
        doc_matches_def field_or_0_def)
qed

end
