(* ===== verification/Cli.thy ===== *)
theory Cli
  imports Service
begin

text \<open>
  The command line tool (\<^verbatim>\<open>bin/ag-lex.cpp\<close>): argument handling, the conversion command, the tailing of
  standard input in batches of 1000 lines, and queries. The performance figures it prints are not
  modelled.
\<close>

section \<open>Model\<close>

definition split_args :: "string list \<Rightarrow> bool \<times> string list" where
  "split_args argv = (''--pin-memory'' \<in> set argv, filter (\<lambda>a. a \<noteq> ''--pin-memory'') argv)"

datatype cli_command =
    Convert string string
  | StreamStdin string
  | Usage
  | Query string string

definition dispatch :: "string list \<Rightarrow> cli_command" where
  "dispatch args =
     (if length args \<ge> 3 \<and> args ! 0 = ''--convert'' then Convert (args ! 1) (args ! 2)
      else if length args \<ge> 2 \<and> args ! 0 = ''--stream-ingest'' then StreamStdin (args ! 1)
      else if length args < 2 then Usage
      else Query (args ! 0) (args ! 1))"

text \<open>The \<open>getline\<close> loop of \<open>--stream-ingest\<close> over the lines of standard input.\<close>

fun stdin_loop ::
  "json_u64 \<Rightarrow> json_str \<Rightarrow> slicer \<Rightarrow> bool \<Rightarrow> string list \<Rightarrow> string list \<Rightarrow> nat \<Rightarrow> AdaptiveIngester \<times> wal_disk \<Rightarrow>
   cpp_error + (nat \<times> wal_disk)" where
  "stdin_loop ju js slice_n wal_ok [] batch n s =
     (if batch = [] then Inr (n, snd s)
      else case ingest_batch ju js slice_n wal_ok batch s of
             Inl err \<Rightarrow> Inl err
           | Inr s' \<Rightarrow> Inr (n + length batch, snd s'))"
| "stdin_loop ju js slice_n wal_ok (line # lines) batch n s =
     (let batch = batch @ [line]
      in if length batch \<ge> 1000
         then (case ingest_batch ju js slice_n wal_ok batch s of
                 Inl err \<Rightarrow> Inl err
               | Inr s' \<Rightarrow> stdin_loop ju js slice_n wal_ok lines [] (n + length batch) s')
         else stdin_loop ju js slice_n wal_ok lines batch n s)"

definition stream_stdin ::
  "json_u64 \<Rightarrow> json_str \<Rightarrow> slicer \<Rightarrow> bool \<Rightarrow> string \<Rightarrow> wal_disk \<Rightarrow> cpp_error + (nat \<times> wal_disk)" where
  "stream_stdin ju js slice_n wal_ok input wal =
     stdin_loop ju js slice_n wal_ok (getlines [] input) [] 0 (AdaptiveIngester_new, wal)"

text \<open>A query: exit code and number of matches.\<close>

inductive cli_query :: "env \<Rightarrow> string \<Rightarrow> string \<Rightarrow> bool \<Rightarrow> cpp_error + (nat \<times> u64) \<Rightarrow> bool" for e query path pin where
  undefined_parse: "parse_query query = Inl err \<Longrightarrow> cli_query e query path pin (Inl err)"
| scalar: "parse_query query = Inr q \<Longrightarrow> qtype q = SCALAR_STRING_SEARCH \<Longrightarrow>
    run_scalar_string_search_cli (e_file e path) (string_pattern q) pin = (n, calls) \<Longrightarrow>
    cli_query e query path pin (Inr (0, n))"
| missing: "parse_query query = Inr q \<Longrightarrow> qtype q = BIT_SLICED_NUMERICAL_LOGIC \<Longrightarrow>
    open_file path (e_size e path) (set_pin_memory pin Ingester_new) = (False, ig) \<Longrightarrow>
    cli_query e query path pin (Inr (1, 0))"
| numerical: "parse_query query = Inr q \<Longrightarrow> qtype q = BIT_SLICED_NUMERICAL_LOGIC \<Longrightarrow>
    open_file path (e_size e path) (set_pin_memory pin Ingester_new) = (True, ig) \<Longrightarrow>
    run_query (e_execute e) (e_view e path) (e_docs e path) ig (status_target q) (latency_target q) n ig' \<Longrightarrow>
    cli_query e query path pin (Inr (0, n))"

section \<open>Lemmas\<close>

lemma stdin_loop_result:
  assumes "slicer_spec slice_n" "ingester_wf ai" "length batch < 1000"
  shows "stdin_loop ju js slice_n True lines batch n (ai, wal) =
    Inr (n + length batch + length lines, if batch @ lines = [] then wal else Some [])"
  using assms(2,3)
proof (induction lines arbitrary: batch n ai wal)
  case Nil
  then show ?case using ingest_batch_ok [OF assms(1) Nil(1), of ju js batch wal] by auto
next
  case (Cons line lines)
  show ?case
  proof (cases "length (batch @ [line]) \<ge> 1000")
    case True
    obtain ai' where "ingest_batch ju js slice_n True (batch @ [line]) (ai, wal) = Inr (ai', Some [])" "ingester_wf ai'"
      using ingest_batch_ok [OF assms(1) Cons.prems(1)] by blast
    with True Cons.IH [of ai' "[]" "n + length (batch @ [line])" "Some []"] show ?thesis by (simp add: Let_def)
  next
    case False
    then show ?thesis using Cons.IH [OF Cons.prems(1), of "batch @ [line]" n wal] by (simp add: Let_def)
  qed
qed

lemma scalar_search_svc_of_cli:
  assumes "run_scalar_string_search_cli f p pin = (n, c)"
  shows "\<exists>b. run_scalar_string_search_svc f p pin 0 = (n, b, c)"
  using scalar_search_copies [of f p pin 0] assms by (metis prod.collapse fst_conv snd_conv)

lemma scalar_search_cli_of_svc:
  assumes "run_scalar_string_search_svc f p pin 0 = (n, b, c)"
  shows "run_scalar_string_search_cli f p pin = (n, c)"
  using scalar_search_copies [of f p pin 0] assms by (metis prod.collapse fst_conv snd_conv)

section \<open>Properties\<close>

text \<open>tailing standard input. Every line of the input is counted as ingested exactly once, whatever
  the number of lines is modulo the batch size, and afterwards the log is empty: as for the service,
  no row group outlives its batch and the target database is not written.\<close>

theorem stream_stdin_counts:
  assumes "slicer_spec slice_n"
  shows "stream_stdin ju js slice_n True input wal =
    Inr (length (getlines [] input), if getlines [] input = [] then wal else Some [])"
  using stdin_loop_result [OF assms ingester_wf_new, of "[]"] by (simp add: stream_stdin_def)

theorem stream_stdin_counts_witness:
  "stream_stdin sample_u64 sample_str ref_slice True (''a'' @ [nl] @ ''b'') None = Inr (2, Some [])"
  using stream_stdin_counts [OF ref_slice_spec, of sample_u64 sample_str "''a'' @ [nl] @ ''b''" None] by simp

text \<open>C35: the tool and the service agree. On a path that is its own canonical form and no \<open>.agb\<close> file,
  the tool can report a number of matches with exit code 0 exactly when the service can answer the same
  query on the same file with that number and status OK; both fail on a file that does not open, and
  both run into undefined behaviour on the same queries.\<close>

theorem cli_service_agree:
  assumes "e_canon e path = Some path" "\<not> is_agb path"
  shows "(cli_query e query path pin (Inr (0, n)) \<longleftrightarrow>
      (\<exists>b. ExecuteQuery e query path pin st (Inr (StatusOK, ok_response n b)) st)) \<and>
    ((\<exists>n. cli_query e query path pin (Inr (1, n))) \<longleftrightarrow>
      (\<exists>resp. ExecuteQuery e query path pin st (Inr (StatusNOT_FOUND, resp)) st)) \<and>
    (cli_query e query path pin (Inl err) \<longleftrightarrow> ExecuteQuery e query path pin st (Inl err) st)"
proof -
  have path: "path = resolve (e_canon e) path" using assms(1) by (simp add: resolve_def)
  have "cli_query e query path pin (Inr (0, n)) \<Longrightarrow>
      \<exists>b. ExecuteQuery e query path pin st (Inr (StatusOK, ok_response n b)) st"
  proof (erule cli_query.cases)
    fix q k calls
    assume "parse_query query = Inr q" "qtype q = SCALAR_STRING_SEARCH"
      "run_scalar_string_search_cli (e_file e path) (string_pattern q) pin = (k, calls)" "Inr (0, n) = Inr (0, k)"
    then show ?thesis
      using ExecuteQuery.text_scalar [OF _ path assms(2), of query q] scalar_search_svc_of_cli by blast
  next
    fix q ig k ig'
    assume "parse_query query = Inr q" "qtype q = BIT_SLICED_NUMERICAL_LOGIC"
      "open_file path (e_size e path) (set_pin_memory pin Ingester_new) = (True, ig)"
      "run_query (e_execute e) (e_view e path) (e_docs e path) ig (status_target q) (latency_target q) k ig'"
      "Inr (0, n) = Inr (0, k)"
    then show ?thesis using ExecuteQuery.text_numerical [OF _ path assms(2)] by blast
  qed auto
  moreover have "ExecuteQuery e query path pin st (Inr (StatusOK, ok_response n b)) st \<Longrightarrow>
      cli_query e query path pin (Inr (0, n))" for b
    by (erule ExecuteQuery.cases)
      (use assms path in \<open>auto simp: ok_response_def intro: cli_query.intros dest!: scalar_search_cli_of_svc\<close>)
  moreover have "cli_query e query path pin (Inr (1, k)) \<Longrightarrow>
      \<exists>resp. ExecuteQuery e query path pin st (Inr (StatusNOT_FOUND, resp)) st" for k
    by (erule cli_query.cases) (auto intro: ExecuteQuery.text_missing [OF _ path assms(2)])
  moreover have "ExecuteQuery e query path pin st (Inr (StatusNOT_FOUND, resp)) st \<Longrightarrow>
      \<exists>n. cli_query e query path pin (Inr (1, n))" for resp
    by (erule ExecuteQuery.cases) (use path in \<open>auto intro: cli_query.missing [unfolded One_nat_def]\<close>)
  moreover have "cli_query e query path pin (Inl err) \<longleftrightarrow> ExecuteQuery e query path pin st (Inl err) st"
    by (auto elim!: cli_query.cases ExecuteQuery.cases intro: cli_query.intros ExecuteQuery.intros)
  ultimately show ?thesis by blast
qed

theorem cli_service_agree_witness:
  "\<exists>resp. ExecuteQuery (sample_env\<lparr>e_size := \<lambda>_. None\<rparr>)
     (''status == '' @ dec 500 @ '' AND latency > '' @ dec 5) ''a.json'' False Service_new
     (Inr (StatusNOT_FOUND, resp)) Service_new"
proof -
  let ?e = "sample_env\<lparr>e_size := \<lambda>_. None\<rparr>" let ?q = "''status == '' @ dec 500 @ '' AND latency > '' @ dec 5"
  have q: "parse_query ?q = Inr (numerical_result 500 5)"
    using parse_joined [of "'' ''" "'' ''" "'' ''" "'' ''" "[]" "[]" "'' ''" "'' ''" "''AND''" 500 5]
    by (simp add: layout_ok_def isspace_def status_clause_def latency_clause_def)
  have "cli_query ?e ?q ''a.json'' False (Inr (1, 0))"
    by (rule cli_query.missing [OF q]) (simp_all add: open_file_def numerical_result_def)
  moreover have "e_canon ?e ''a.json'' = Some ''a.json''" "\<not> is_agb ''a.json''"
    by (simp_all add: sample_env_def is_agb_def)
  ultimately show ?thesis using cli_service_agree [of ?e "''a.json''" ?q False 0 Service_new OutOfBounds] by blast
qed

end
