(* ===== verification/Simd_Bits.thy ===== *)
theory Simd_Bits
  imports Eureka_Prelude
begin

text \<open>
  The register-level layer of the \<^verbatim>\<open>simdjson\<close> ARM64 kernel (\<^verbatim>\<open>simdjson/arm64/bitmanipulation.h\<close>,
  \<^verbatim>\<open>bitmask.h\<close> and \<^verbatim>\<open>simd.h\<close> in \<^verbatim>\<open>external/simdjson/simdjson.cpp\<close>): 64-bit mask operations, and the
  64-byte blocks \<open>simd8x64\<close> made of four 16-lane registers. A register is the list of its lanes, lane
  0 first; a NEON intrinsic is the list function its documentation gives. The lemmas read every
  mask bit by bit, so that the scanner theories reason about byte positions only.
\<close>

text \<open>Properties of a byte, by enumeration.\<close>

lemma u8_all:
  assumes "P 0" "P 1" "list_all P (map of_nat [2..<256])"
  shows "P (b :: u8)"
proof (cases "unat b < 2")
  case True
  then have "unat b = 0 \<or> unat b = 1" by auto
  then show ?thesis using assms(1,2) by (metis unat_eq_zero word_unat_eq_iff unat_1)
next
  case False
  then have "unat b \<in> set [2..<256]" using unsigned_less [of b] by (simp only: set_upt) simp
  then have "P (of_nat (unat b))" using assms(3) by (simp only: list_all_iff set_map) blast
  then show ?thesis by simp
qed

section \<open>Mask operations\<close>

text \<open>Arithmetic on 64-bit masks. \<open>__builtin_ctzll\<close> and \<open>__builtin_clzll\<close> are the ARM instructions, which
  give 64 for a zero argument; the callers never use that value.\<close>

definition trailing_zeroes :: "u64 \<Rightarrow> nat" where
  "trailing_zeroes input_num = length (takeWhile (\<lambda>i. \<not> bit input_num i) [0..<64])"

definition clear_lowest_bit :: "u64 \<Rightarrow> u64" where
  "clear_lowest_bit input_num = input_num AND (input_num - 1)"

definition leading_zeroes :: "u64 \<Rightarrow> nat" where
  "leading_zeroes input_num = length (takeWhile (\<lambda>i. \<not> bit input_num (63 - i)) [0..<64])"

text \<open>The three intrinsics of \<open>count_ones\<close>: the bytes of a word, the population count of each lane, and
  the (8-bit) sum across lanes.\<close>

definition vcreate_u8 :: "u64 \<Rightarrow> u8 list" where
  "vcreate_u8 x = map (\<lambda>k. ucast (drop_bit (8 * k) x)) [0..<8]"

definition vcnt_u8 :: "u8 list \<Rightarrow> u8 list" where
  "vcnt_u8 = map (\<lambda>b. of_nat (length (filter (bit b) [0..<8])))"

definition vaddv_u8 :: "u8 list \<Rightarrow> u8" where
  "vaddv_u8 = sum_list"

definition count_ones :: "u64 \<Rightarrow> nat" where
  "count_ones input_num = unat (vaddv_u8 (vcnt_u8 (vcreate_u8 input_num)))"

text \<open>\<open>rbit\<close>.\<close>

definition reverse_bits :: "u64 \<Rightarrow> u64" where
  "reverse_bits input_num = horner_sum of_bool 2 (map (\<lambda>i. bit input_num (63 - i)) [0..<64])"

definition zero_leading_bit :: "u64 \<Rightarrow> nat \<Rightarrow> u64" where
  "zero_leading_bit rev_bits lz = rev_bits XOR drop_bit lz 0x8000000000000000"

text \<open>\<open>__builtin_uaddll_overflow\<close>: the wrapped sum and the carry.\<close>

definition add_overflow :: "u64 \<Rightarrow> u64 \<Rightarrow> bool \<times> u64" where
  "add_overflow value1 value2 = (uint value1 + uint value2 \<ge> 2 ^ 64, value1 + value2)"

definition prefix_xor :: "u64 \<Rightarrow> u64" where
  "prefix_xor bitmask =
    (let bitmask = bitmask XOR push_bit 1 bitmask;
         bitmask = bitmask XOR push_bit 2 bitmask;
         bitmask = bitmask XOR push_bit 4 bitmask;
         bitmask = bitmask XOR push_bit 8 bitmask;
         bitmask = bitmask XOR push_bit 16 bitmask;
         bitmask = bitmask XOR push_bit 32 bitmask
     in bitmask)"

section \<open>Registers\<close>

type_synonym simd8 = "u8 list"
type_synonym simd8x64 = "simd8 list"

definition splat :: "u8 \<Rightarrow> simd8" where
  "splat v = replicate 16 v"

definition vceqq_u8 :: "simd8 \<Rightarrow> simd8 \<Rightarrow> simd8" where
  "vceqq_u8 = map2 (\<lambda>a b. if a = b then 0xFF else 0)"

definition vcleq_u8 :: "simd8 \<Rightarrow> simd8 \<Rightarrow> simd8" where
  "vcleq_u8 = map2 (\<lambda>a b. if a \<le> b then 0xFF else 0)"

definition vcgtq_u8 :: "simd8 \<Rightarrow> simd8 \<Rightarrow> simd8" where
  "vcgtq_u8 = map2 (\<lambda>a b. if a > b then 0xFF else 0)"

text \<open>\<open>vtstq_u8\<close>: all ones in the lanes that share a bit.\<close>

definition any_bits_set :: "simd8 \<Rightarrow> u8 \<Rightarrow> simd8" where
  "any_bits_set v bits = map2 (\<lambda>a b. if a AND b \<noteq> 0 then 0xFF else 0) v (splat bits)"

text \<open>\<open>vqtbl1q_u8\<close>: table lookup, zero for an index of 16 or more.\<close>

definition lookup_16 :: "simd8 \<Rightarrow> simd8 \<Rightarrow> simd8" where
  "lookup_16 v table = map (\<lambda>i. if unat i < 16 then table ! unat i else 0) v"

definition simd_and :: "simd8 \<Rightarrow> simd8 \<Rightarrow> simd8" where
  "simd_and = map2 (AND)"

definition simd_or :: "simd8 \<Rightarrow> simd8 \<Rightarrow> simd8" where
  "simd_or = map2 (OR)"

definition simd_xor :: "simd8 \<Rightarrow> simd8 \<Rightarrow> simd8" where
  "simd_xor = map2 (XOR)"

definition shr :: "nat \<Rightarrow> simd8 \<Rightarrow> simd8" where
  "shr n = map (drop_bit n)"

text \<open>\<open>vqsubq_u8\<close>: subtraction that stops at zero.\<close>

definition saturating_sub :: "simd8 \<Rightarrow> simd8 \<Rightarrow> simd8" where
  "saturating_sub = map2 (\<lambda>a b. if b \<le> a then a - b else 0)"

text \<open>\<open>vextq_u8(prev_chunk, *this, 16 - N)\<close>: the lanes shifted by \<open>N\<close>, the last \<open>N\<close> of the previous
  register in front.\<close>

definition prev :: "nat \<Rightarrow> simd8 \<Rightarrow> simd8 \<Rightarrow> simd8" where
  "prev N v prev_chunk = take 16 (drop (16 - N) (prev_chunk @ v))"

definition max_val :: "simd8 \<Rightarrow> u8" where
  "max_val v = foldr max v 0"

definition any_bits_set_anywhere :: "simd8 \<Rightarrow> bool" where
  "any_bits_set_anywhere v \<longleftrightarrow> list_ex (\<lambda>b. b \<noteq> 0) v"

text \<open>\<open>vpaddq_u8\<close>: sums of adjacent lanes.\<close>

fun pairwise_add :: "simd8 \<Rightarrow> simd8" where
  "pairwise_add (a # b # v) = (a + b) # pairwise_add v"
| "pairwise_add v = []"

definition vpaddq_u8 :: "simd8 \<Rightarrow> simd8 \<Rightarrow> simd8" where
  "vpaddq_u8 a b = pairwise_add (a @ b)"

text \<open>The first 64-bit lane of a register (the target is little-endian).\<close>

fun le_u64 :: "u8 list \<Rightarrow> u64" where
  "le_u64 [] = 0"
| "le_u64 (b # bs) = ucast b OR push_bit 8 (le_u64 bs)"

section \<open>64-byte blocks\<close>

definition simd8x64_load :: "u8 list \<Rightarrow> simd8x64" where
  "simd8x64_load ptr = [take 16 ptr, take 16 (drop 16 ptr), take 16 (drop 32 ptr), take 16 (drop 48 ptr)]"

definition reduce_or :: "simd8x64 \<Rightarrow> simd8" where
  "reduce_or chunks = simd_or (simd_or (chunks ! 0) (chunks ! 1)) (simd_or (chunks ! 2) (chunks ! 3))"

definition bit_mask :: simd8 where
  "bit_mask = [0x01, 0x02, 0x4, 0x8, 0x10, 0x20, 0x40, 0x80, 0x01, 0x02, 0x4, 0x8, 0x10, 0x20, 0x40, 0x80]"

definition to_bitmask :: "simd8x64 \<Rightarrow> u64" where
  "to_bitmask chunks =
    (let sum0 = vpaddq_u8 (simd_and (chunks ! 0) bit_mask) (simd_and (chunks ! 1) bit_mask);
         sum1 = vpaddq_u8 (simd_and (chunks ! 2) bit_mask) (simd_and (chunks ! 3) bit_mask);
         sum0 = vpaddq_u8 sum0 sum1;
         sum0 = vpaddq_u8 sum0 sum0
     in le_u64 (take 8 sum0))"

definition eq_mask :: "simd8x64 \<Rightarrow> u8 \<Rightarrow> u64" where
  "eq_mask chunks m =
    (let mask = splat m
     in to_bitmask [vceqq_u8 (chunks ! 0) mask, vceqq_u8 (chunks ! 1) mask,
                    vceqq_u8 (chunks ! 2) mask, vceqq_u8 (chunks ! 3) mask])"

definition lteq_mask :: "simd8x64 \<Rightarrow> u8 \<Rightarrow> u64" where
  "lteq_mask chunks m =
    (let mask = splat m
     in to_bitmask [vcleq_u8 (chunks ! 0) mask, vcleq_u8 (chunks ! 1) mask,
                    vcleq_u8 (chunks ! 2) mask, vcleq_u8 (chunks ! 3) mask])"

section \<open>Reading masks bit by bit\<close>

lemma bit_le_u64: "bit (le_u64 bs) i \<longleftrightarrow> i < 64 \<and> i div 8 < length bs \<and> bit (bs ! (i div 8)) (i mod 8)"
proof (induction bs arbitrary: i)
  case (Cons b bs)
  show ?case
  proof (cases "i < 8")
    case True
    then show ?thesis by (auto simp: bit_simps)
  next
    case False
    then obtain j where j: "i = 8 + j" by (metis le_add_diff_inverse not_less)
    have "\<not> bit b i" using False by (auto dest: bit_imp_le_length)
    moreover have "i div 8 = Suc (j div 8)" "i mod 8 = j mod 8" using j by simp_all
    ultimately show ?thesis using j Cons.IH [of j] by (auto simp: bit_simps)
  qed
qed simp

lemma length_pairwise_add [simp]: "length (pairwise_add v) = length v div 2"
  by (induction v rule: pairwise_add.induct) auto

lemma nth_pairwise_add: "Suc (2 * i) < length v \<Longrightarrow> pairwise_add v ! i = v ! (2 * i) + v ! (2 * i + 1)"
proof (induction v arbitrary: i rule: pairwise_add.induct)
  case (1 a b v)
  then show ?case by (cases i) auto
qed auto

lemma pairwise_add_append: "even (length v) \<Longrightarrow> pairwise_add (v @ w) = pairwise_add v @ pairwise_add w"
  by (induction v rule: pairwise_add.induct) auto

text \<open>The three rounds of pairwise additions pack eight lanes into a byte.\<close>

lemma nth_pairwise_add3:
  assumes "8 * i + 7 < length v"
  shows "pairwise_add (pairwise_add (pairwise_add v)) ! i =
    ((v ! (8 * i) + v ! (8 * i + 1)) + (v ! (8 * i + 2) + v ! (8 * i + 3))) +
    ((v ! (8 * i + 4) + v ! (8 * i + 5)) + (v ! (8 * i + 6) + v ! (8 * i + 7)))"
proof -
  have e: "8 * i + 3 = Suc (Suc (Suc (8 * i)))" "8 * i + 4 = Suc (Suc (Suc (Suc (8 * i))))"
    "8 * i + 5 = Suc (Suc (Suc (Suc (Suc (8 * i)))))" "8 * i + 6 = Suc (Suc (Suc (Suc (Suc (Suc (8 * i))))))"
    "8 * i + 7 = Suc (Suc (Suc (Suc (Suc (Suc (Suc (8 * i)))))))"
    by simp_all
  have "pairwise_add (pairwise_add v) ! (2 * i) = (v ! (8 * i) + v ! (8 * i + 1)) + (v ! (8 * i + 2) + v ! (8 * i + 3))"
    "pairwise_add (pairwise_add v) ! (2 * i + 1) =
      (v ! (8 * i + 4) + v ! (8 * i + 5)) + (v ! (8 * i + 6) + v ! (8 * i + 7))"
    using assms by (simp_all add: nth_pairwise_add e)
  then show ?thesis using assms by (simp add: nth_pairwise_add)
qed

definition bool_lanes :: "simd8 \<Rightarrow> bool" where
  "bool_lanes v \<longleftrightarrow> set v \<subseteq> {0, 0xFF}"

lemma to_bitmask_eq:
  assumes "length a = 16" "length b = 16" "length c = 16" "length d = 16"
  shows "to_bitmask [a, b, c, d] = le_u64 (pairwise_add (pairwise_add (pairwise_add
    (simd_and a bit_mask @ simd_and b bit_mask @ simd_and c bit_mask @ simd_and d bit_mask))))"
proof -
  have l: "length (simd_and x bit_mask) = 16" if "length x = 16" for x
    using that by (simp add: simd_and_def bit_mask_def)
  show ?thesis using assms
    by (simp add: to_bitmask_def Let_def vpaddq_u8_def pairwise_add_append l)
qed

lemma sum_of_bools:
  "(of_bool b0 + 2 * of_bool b1) + (4 * of_bool b2 + 8 * of_bool b3) +
   ((16 * of_bool b4 + 32 * of_bool b5) + (64 * of_bool b6 + 128 * of_bool b7)) =
   (horner_sum of_bool 2 [b0, b1, b2, b3, b4, b5, b6, b7] :: u8)"
  by (simp add: algebra_simps)

lemma simd_and_bit_mask_nth:
  assumes "length v = 16" "bool_lanes v" "i < 16"
  shows "simd_and v bit_mask ! i = 2 ^ (i mod 8) * of_bool (v ! i \<noteq> 0)"
proof -
  have "v ! i \<in> {0, 0xFF}" using assms nth_mem [of i v] by (simp add: bool_lanes_def subset_iff)
  moreover have "bit_mask ! i = 2 ^ (i mod 8) \<and> 0xFF AND bit_mask ! i = bit_mask ! i"
  proof -
    have "i \<in> {0, 1, 2, 3, 4, 5, 6, 7, 8, 9, 10, 11, 12, 13, 14, 15}"
      using assms(3) by (simp add: less_Suc_eq numeral_eq_Suc)
    then show ?thesis by (auto simp: bit_mask_def)
  qed
  ultimately show ?thesis using assms by (auto simp: simd_and_def bit_mask_def)
qed

definition wf_block :: "simd8x64 \<Rightarrow> bool" where
  "wf_block chunks \<longleftrightarrow> length chunks = 4 \<and> (\<forall>c \<in> set chunks. length c = 16)"

lemma wf_block_obtain:
  assumes "wf_block chunks"
  obtains a b c d where "chunks = [a, b, c, d]" "length a = 16" "length b = 16" "length c = 16" "length d = 16"
proof -
  have "\<exists>a b c d. chunks = [a, b, c, d]"
    using assms by (auto simp: wf_block_def numeral_eq_Suc length_Suc_conv)
  then show ?thesis using assms that by (auto simp: wf_block_def)
qed

lemma length_concat_block: "wf_block chunks \<Longrightarrow> length (concat chunks) = 64"
  by (elim wf_block_obtain) simp

lemma wf_block_load: "length ptr = 64 \<Longrightarrow> wf_block (simd8x64_load ptr)"
  by (simp add: wf_block_def simd8x64_load_def)

lemma concat_load:
  assumes "length ptr = 64"
  shows "concat (simd8x64_load ptr) = ptr"
proof -
  have "take 16 (drop 48 ptr) = drop 48 ptr" using assms by simp
  moreover have "take 16 (drop 32 ptr) @ drop 48 ptr = drop 32 ptr"
    using append_take_drop_id [of 16 "drop 32 ptr"] by simp
  moreover have "take 16 (drop 16 ptr) @ drop 32 ptr = drop 16 ptr"
    using append_take_drop_id [of 16 "drop 16 ptr"] by simp
  ultimately show ?thesis by (simp add: simd8x64_load_def)
qed

lemma masked_append_nth:
  assumes "\<And>j. j < n \<Longrightarrow> v ! j = 2 ^ (j mod 8) * of_bool (w ! j \<noteq> 0)" "length v = n" "length w = n" "n mod 8 = 0"
    and "\<And>j. j < m \<Longrightarrow> v' ! j = 2 ^ (j mod 8) * of_bool (w' ! j \<noteq> 0)" "i < n + m"
  shows "(v @ v') ! i = (2 ^ (i mod 8) * of_bool ((w @ w') ! i \<noteq> 0) :: u8)"
proof (cases "i < n")
  case False
  then have "i mod 8 = (i - n) mod 8" using assms(4)
    by (metis add.right_neutral le_add_diff_inverse mod_add_left_eq not_less add.commute)
  then show ?thesis using False assms(2,3,6) assms(5) [of "i - n"] by (simp add: nth_append)
qed (use assms in \<open>simp add: nth_append\<close>)

lemma masked_lanes_nth:
  assumes "length a = 16" "length b = 16" "length c = 16" "length d = 16"
    and "bool_lanes a" "bool_lanes b" "bool_lanes c" "bool_lanes d" and "i < 64"
  shows "(simd_and a bit_mask @ simd_and b bit_mask @ simd_and c bit_mask @ simd_and d bit_mask) ! i =
    2 ^ (i mod 8) * of_bool ((a @ b @ c @ d) ! i \<noteq> 0)"
proof -
  have l: "length (simd_and x bit_mask) = 16" if "length x = 16" for x
    using that by (simp add: simd_and_def bit_mask_def)
  note one = simd_and_bit_mask_nth [OF assms(1,5)] simd_and_bit_mask_nth [OF assms(2,6)]
    simd_and_bit_mask_nth [OF assms(3,7)] simd_and_bit_mask_nth [OF assms(4,8)]
  show ?thesis
    by (rule masked_append_nth [of 16 _ _ 48] one l assms masked_append_nth [of 16 _ _ 32]
        masked_append_nth [of 16 _ _ 16] | simp add: assms)+
qed

lemma bit_to_bitmask:
  assumes wf: "wf_block chunks" and lanes: "\<forall>v \<in> set chunks. bool_lanes v"
  shows "bit (to_bitmask chunks) i \<longleftrightarrow> i < 64 \<and> concat chunks ! i \<noteq> 0"
proof (cases "i < 64")
  case False
  then show ?thesis by (auto dest: bit_imp_le_length)
next
  case True
  from wf obtain a b c d where ch: "chunks = [a, b, c, d]"
    and l: "length a = 16" "length b = 16" "length c = 16" "length d = 16"
    by (rule wf_block_obtain)
  let ?M = "simd_and a bit_mask @ simd_and b bit_mask @ simd_and c bit_mask @ simd_and d bit_mask"
  let ?L = "a @ b @ c @ d"
  have lM: "length ?M = 64" using l by (simp add: simd_and_def bit_mask_def)
  define k where "k = i div 8"
  have k8: "k < 8" using True by (simp add: k_def less_mult_imp_div_less)
  then have k: "8 * k + 7 < 64" by simp
  have nth: "?M ! (8 * k + j) = 2 ^ j * of_bool (?L ! (8 * k + j) \<noteq> 0)" if "j < 8" for j
    using masked_lanes_nth [OF l, of "8 * k + j"] lanes ch k that by simp
  have "pairwise_add (pairwise_add (pairwise_add ?M)) ! k =
    (horner_sum of_bool 2 (map (\<lambda>j. ?L ! (8 * k + j) \<noteq> 0) [0..<8]) :: u8)"
    using nth [of 0] nth [of 1] nth [of 2] nth [of 3] nth [of 4] nth [of 5] nth [of 6] nth [of 7]
    unfolding nth_pairwise_add3 [of k ?M, unfolded lM, OF k]
    by (simp add: upt_rec numeral_eq_Suc del: horner_sum_simps flip: sum_of_bools)
  then have "bit (to_bitmask chunks) i \<longleftrightarrow> ?L ! (8 * k + i mod 8) \<noteq> 0"
    using True lM k8 unfolding ch to_bitmask_eq [OF l] bit_le_u64
    by (simp add: k_def bit_horner_sum_bit_word_iff del: horner_sum_simps)
  then show ?thesis using True ch by (simp add: k_def)
qed

lemma bit_to_bitmask_map:
  assumes "wf_block chunks" "\<And>b. f b \<in> {0, 0xFF}"
  shows "bit (to_bitmask (map (map f) chunks)) i \<longleftrightarrow> i < 64 \<and> f (concat chunks ! i) \<noteq> 0"
proof -
  have "wf_block (map (map f) chunks)" using assms by (simp add: wf_block_def)
  moreover have "\<forall>v \<in> set (map (map f) chunks). bool_lanes v" using assms(2) by (force simp: bool_lanes_def)
  ultimately show ?thesis
    using bit_to_bitmask [of "map (map f) chunks" i] length_concat_block [OF assms(1)]
    by (auto simp: map_concat [symmetric])
qed

lemma map2_splat: "length v = 16 \<Longrightarrow> map2 f v (splat m) = map (\<lambda>b. f b m) v"
  by (rule nth_equalityI) (simp_all add: splat_def)

theorem bit_eq_mask:
  assumes "wf_block chunks"
  shows "bit (eq_mask chunks m) i \<longleftrightarrow> i < 64 \<and> concat chunks ! i = m"
  using assms bit_to_bitmask_map [OF assms, of "\<lambda>b. if b = m then 0xFF else 0" i]
  by (elim wf_block_obtain) (simp add: eq_mask_def vceqq_u8_def map2_splat)

theorem bit_lteq_mask:
  assumes "wf_block chunks"
  shows "bit (lteq_mask chunks m) i \<longleftrightarrow> i < 64 \<and> concat chunks ! i \<le> m"
  using assms bit_to_bitmask_map [OF assms, of "\<lambda>b. if b \<le> m then 0xFF else 0" i]
  by (elim wf_block_obtain) (simp add: lteq_mask_def vcleq_u8_def map2_splat)

section \<open>Cumulative xor\<close>

text \<open>Whether an odd number of the \<open>n\<close> bits up to and including bit \<open>i\<close> is set.\<close>

definition window_parity :: "u64 \<Rightarrow> nat \<Rightarrow> nat \<Rightarrow> bool" where
  "window_parity x n i = odd (card {j. j \<le> i \<and> i < j + n \<and> bit x j})"

lemma window_parity_double:
  "window_parity x (n + n) i = (window_parity x n i \<noteq> (n \<le> i \<and> window_parity x n (i - n)))"
proof -
  let ?W = "\<lambda>n i. {j. j \<le> i \<and> i < j + n \<and> bit x j}"
  have fin: "finite (?W n i)" for n i by (rule finite_subset [of _ "{..i}"]) auto
  show ?thesis
  proof (cases "n \<le> i")
    case True
    then have "?W (n + n) i = ?W n i \<union> ?W n (i - n)" "?W n i \<inter> ?W n (i - n) = {}" by auto
    then have "card (?W (n + n) i) = card (?W n i) + card (?W n (i - n))"
      using card_Un_disjoint [OF fin fin, of i n "i - n" n] by simp
    then show ?thesis using True by (simp add: window_parity_def)
  next
    case False
    then have "?W (n + n) i = ?W n i" by auto
    then show ?thesis using False by (simp add: window_parity_def)
  qed
qed

lemma window_parity_1: "window_parity x 1 i = bit x i"
proof -
  have "{j. j \<le> i \<and> i < j + 1 \<and> bit x j} = (if bit x i then {i} else {})"
    by (auto simp: le_less_Suc_eq dest: le_antisym)
  then show ?thesis by (simp add: window_parity_def)
qed

lemma prefix_xor_round:
  fixes y :: u64
  assumes "\<And>i. bit y i \<longleftrightarrow> i < 64 \<and> window_parity x n i"
  shows "bit (y XOR push_bit n y) i \<longleftrightarrow> i < 64 \<and> window_parity x (n + n) i"
  by (auto simp: bit_simps assms window_parity_double)

text \<open>\<open>prefix_xor\<close> gives, at every position, the parity of the number of bits set up to it.\<close>

lemma bit_prefix_xor_parity: "bit (prefix_xor x) i \<longleftrightarrow> i < 64 \<and> odd (card {j. j \<le> i \<and> bit x j})"
proof -
  define y1 where "y1 = x XOR push_bit 1 x"
  define y2 where "y2 = y1 XOR push_bit 2 y1"
  define y4 where "y4 = y2 XOR push_bit 4 y2"
  define y8 where "y8 = y4 XOR push_bit 8 y4"
  define y16 where "y16 = y8 XOR push_bit 16 y8"
  have 0: "bit x i \<longleftrightarrow> i < 64 \<and> window_parity x 1 i" for i
    by (auto simp: window_parity_1 dest: bit_imp_le_length simp del: One_nat_def)
  have 1: "bit y1 i \<longleftrightarrow> i < 64 \<and> window_parity x 2 i" for i
    using prefix_xor_round [OF 0] by (simp only: y1_def one_add_one)
  have 2: "bit y2 i \<longleftrightarrow> i < 64 \<and> window_parity x 4 i" for i
    using prefix_xor_round [OF 1] by (simp add: y2_def)
  have 4: "bit y4 i \<longleftrightarrow> i < 64 \<and> window_parity x 8 i" for i
    using prefix_xor_round [OF 2] by (simp add: y4_def)
  have 8: "bit y8 i \<longleftrightarrow> i < 64 \<and> window_parity x 16 i" for i
    using prefix_xor_round [OF 4] by (simp add: y8_def)
  have 16: "bit y16 i \<longleftrightarrow> i < 64 \<and> window_parity x 32 i" for i
    using prefix_xor_round [OF 8] by (simp add: y16_def)
  have "prefix_xor x = y16 XOR push_bit 32 y16"
    by (simp add: prefix_xor_def Let_def y1_def y2_def y4_def y8_def y16_def)
  then have "bit (prefix_xor x) i \<longleftrightarrow> i < 64 \<and> window_parity x 64 i"
    using prefix_xor_round [OF 16] by simp
  moreover have "{j. j \<le> i \<and> i < j + 64 \<and> bit x j} = {j. j \<le> i \<and> bit x j}" if "i < 64" using that by auto
  ultimately show ?thesis by (auto simp: window_parity_def)
qed

lemma bit_prefix_xor_0: "bit (prefix_xor x) 0 \<longleftrightarrow> bit x 0"
proof -
  have "{j. j \<le> 0 \<and> bit x j} = (if bit x 0 then {0} else {})" by auto
  then show ?thesis by (simp add: bit_prefix_xor_parity)
qed

lemma bit_prefix_xor_Suc:
  "Suc i < 64 \<Longrightarrow> bit (prefix_xor x) (Suc i) \<longleftrightarrow> (bit (prefix_xor x) i \<noteq> bit x (Suc i))"
proof -
  have "{j. j \<le> Suc i \<and> bit x j} = {j. j \<le> i \<and> bit x j} \<union> (if bit x (Suc i) then {Suc i} else {})"
    by (auto simp: le_Suc_eq)
  moreover have "finite {j. j \<le> i \<and> bit x j}" by (rule finite_subset [of _ "{..i}"]) auto
  ultimately show "Suc i < 64 \<Longrightarrow> bit (prefix_xor x) (Suc i) \<longleftrightarrow> (bit (prefix_xor x) i \<noteq> bit x (Suc i))"
    by (simp add: bit_prefix_xor_parity)
qed

section \<open>Enumerating the set bits\<close>

definition positions :: "u64 \<Rightarrow> nat list" where
  "positions x = filter (bit x) [0..<64]"

definition rev_positions :: "u64 \<Rightarrow> nat list" where
  "rev_positions r = filter (\<lambda>i. bit r (63 - i)) [0..<64]"

lemma first_hit:
  assumes "i < n" "P i"
  defines "k \<equiv> length (takeWhile (\<lambda>i. \<not> P i) [0..<n])"
  shows "k < n" "P k" "filter P [0..<n] = k # filter (\<lambda>j. P j \<and> j \<noteq> k) [0..<n]"
proof -
  have k: "k = (LEAST j. P j)"
  proof -
    define m where "m = (LEAST j. P j)"
    have m: "P m" "m \<le> i" "\<And>j. j < m \<Longrightarrow> \<not> P j"
      using assms(2) unfolding m_def by (auto intro: LeastI Least_le dest: not_less_Least)
    have "[0..<n] = [0..<m] @ m # [Suc m..<n]"
      using m(2) assms(1) upt_add_eq_append [of 0 m "n - m"] by (simp add: upt_conv_Cons)
    then have "takeWhile (\<lambda>i. \<not> P i) [0..<n] = [0..<m]"
      using m by (simp add: takeWhile_append takeWhile_eq_all_conv)
    then show ?thesis by (simp add: k_def m_def)
  qed
  show less: "k < n" using assms(1,2) k by (metis Least_le le_less_trans)
  show Pk: "P k" using assms(2) k by (metis LeastI)
  have none: "\<not> P j" if "j < k" for j using that k by (metis not_less_Least)
  have split: "[0..<n] = [0..<k] @ k # [Suc k..<n]"
    using less upt_add_eq_append [of 0 k "n - k"] by (simp add: upt_conv_Cons)
  have "filter P [0..<k] = []" "filter (\<lambda>j. P j \<and> j \<noteq> k) [0..<k] = []"
    using none by (auto simp: filter_empty_conv)
  moreover have "filter (\<lambda>j. P j \<and> j \<noteq> k) [Suc k..<n] = filter P [Suc k..<n]"
    by (rule filter_cong) auto
  ultimately show "filter P [0..<n] = k # filter (\<lambda>j. P j \<and> j \<noteq> k) [0..<n]"
    using Pk by (simp add: split)
qed

lemma bit_top_shift: "lz < 64 \<Longrightarrow> bit (drop_bit lz (0x8000000000000000 :: u64)) i \<longleftrightarrow> i = 63 - lz"
proof -
  have "(0x8000000000000000 :: u64) = 2 ^ 63" by simp
  then have "bit (drop_bit lz (0x8000000000000000 :: u64)) i \<longleftrightarrow> lz + i = 63"
    by (simp only: bit_drop_bit_eq o_apply bit_exp64) simp
  then show "lz < 64 \<Longrightarrow> bit (drop_bit lz (0x8000000000000000 :: u64)) i \<longleftrightarrow> i = 63 - lz" by auto
qed

text \<open>One round of the bit-reversed enumeration: the leading zeroes name the next position, and
  \<open>zero_leading_bit\<close> removes exactly that position.\<close>

lemma rev_positions_step:
  assumes "r \<noteq> 0"
  shows "rev_positions r = leading_zeroes r # rev_positions (zero_leading_bit r (leading_zeroes r))"
proof -
  obtain j where j: "bit r j" using assms bit_eqI [of r 0] by auto
  then have "j < 64" by (auto dest: bit_imp_le_length)
  then have i: "63 - j < 64" "bit r (63 - (63 - j))" using j by simp_all
  let ?P = "\<lambda>i. bit r (63 - i)"
  note f = first_hit [of "63 - j" 64 ?P, OF i, folded leading_zeroes_def]
  have "bit (zero_leading_bit r (leading_zeroes r)) (63 - i) \<longleftrightarrow> ?P i \<and> i \<noteq> leading_zeroes r" if "i < 64" for i
    using f(1,2) that unfolding zero_leading_bit_def bit_xor_iff bit_top_shift [OF f(1)] by auto
  then have "filter (\<lambda>i. bit (zero_leading_bit r (leading_zeroes r)) (63 - i)) [0..<64] =
      filter (\<lambda>i. ?P i \<and> i \<noteq> leading_zeroes r) [0..<64]"
    by (intro filter_cong) auto
  then show ?thesis using f(3) by (simp add: rev_positions_def)
qed

lemma rev_positions_reverse_bits: "rev_positions (reverse_bits x) = positions x"
  unfolding rev_positions_def positions_def
proof (rule filter_cong [OF refl])
  fix i :: nat assume "i \<in> set [0..<64]"
  then have "63 - i < 64" "63 - (63 - i) = i" by auto
  then show "bit (reverse_bits x) (63 - i) = bit x i"
    unfolding reverse_bits_def bit_horner_sum_bit_word_iff by simp
qed

lemma sum_list_of_nat: "(\<Sum>k\<leftarrow>ks. of_nat (f k)) = (of_nat (\<Sum>k\<leftarrow>ks. f k) :: 'a :: semiring_1)"
  by (induction ks) simp_all

lemma sum_length_filter: "sum_list (map (\<lambda>k. length (filter (\<lambda>j. P (n * k + j)) [0..<n])) [0..<m]) =
  length (filter P [0..<n * m])"
proof (induction m)
  case (Suc m)
  have e: "[0..<n * Suc m] = [0..<n * m] @ map (\<lambda>j. n * m + j) [0..<n]"
    using upt_add_eq_append [of 0 "n * m" n] by (simp add: map_add_upt add.commute)
  show ?case unfolding e using Suc by (simp add: filter_map comp_def)
qed simp

lemma count_ones_positions: "count_ones x = length (positions x)"
proof -
  have byte: "length (filter (bit (ucast (drop_bit (8 * k) x) :: u8)) [0..<8]) =
      length (filter (\<lambda>j. bit x (8 * k + j)) [0..<8])" for k
    by (rule arg_cong [where f = length], rule filter_cong) (auto simp: bit_simps add.commute dest: bit_imp_le_length)
  have "vaddv_u8 (vcnt_u8 (vcreate_u8 x)) =
      of_nat (sum_list (map (\<lambda>k. length (filter (\<lambda>j. bit x (8 * k + j)) [0..<8])) [0..<8]))"
    unfolding vaddv_u8_def vcnt_u8_def vcreate_u8_def map_map comp_def byte
    by (simp add: sum_list_of_nat)
  also have "\<dots> = of_nat (length (positions x))"
    by (simp only: sum_length_filter [of "bit x" 8 8]) (simp add: positions_def)
  finally have "vaddv_u8 (vcnt_u8 (vcreate_u8 x)) = of_nat (length (positions x))" .
  moreover have "length (positions x) \<le> 64"
    using length_filter_le [of "bit x" "[0..<64]"] by (simp add: positions_def)
  ultimately show ?thesis by (simp add: count_ones_def unat_of_nat)
qed

end
