(* ===== verification/Simd_Scanner.thy ===== *)
theory Simd_Scanner
  imports Simd_Bits
begin

text \<open>
  The block scanner of \<^verbatim>\<open>simdjson\<close> stage 1 (\<^verbatim>\<open>json_escape_scanner.h\<close>, \<^verbatim>\<open>json_string_scanner.h\<close>,
  \<^verbatim>\<open>json_character_block.h\<close> and \<^verbatim>\<open>json_scanner.h\<close>, as the ARM64 kernel compiles them): 64 bytes at a time,
  with a few words of state from block to block, it marks the bytes at which a JSON token starts.
  The reference is a lexer that reads one byte after another; the main theorem says that the
  bit-parallel scanner marks exactly the bytes at which that lexer starts a token.
\<close>

section \<open>Error codes\<close>

datatype error_code =
    SUCCESS | CAPACITY | MEMALLOC | TAPE_ERROR | DEPTH_ERROR | STRING_ERROR | T_ATOM_ERROR | F_ATOM_ERROR
  | N_ATOM_ERROR | NUMBER_ERROR | BIGINT_ERROR | UTF8_ERROR | UNINITIALIZED | EMPTY | UNESCAPED_CHARS
  | UNCLOSED_STRING | UNSUPPORTED_ARCHITECTURE | INCORRECT_TYPE | NUMBER_OUT_OF_RANGE
  | INDEX_OUT_OF_BOUNDS | NO_SUCH_FIELD | IO_ERROR | INVALID_JSON_POINTER | INVALID_URI_FRAGMENT
  | UNEXPECTED_ERROR | PARSER_IN_USE | OUT_OF_ORDER_ITERATION | INSUFFICIENT_PADDING
  | INCOMPLETE_ARRAY_OR_OBJECT | SCALAR_DOCUMENT_AS_VALUE | OUT_OF_BOUNDS | TRAILING_CONTENT
  | OUT_OF_CAPACITY

section \<open>Escapes\<close>

record json_escape_scanner =
  next_is_escaped :: u64

record escaped_and_escape =
  ee_escaped :: u64
  ee_escape :: u64

definition ODD_BITS :: u64 where
  "ODD_BITS = 0xAAAAAAAAAAAAAAAA"

definition next_escape_and_terminal_code :: "u64 \<Rightarrow> u64" where
  "next_escape_and_terminal_code potential_escape =
    (let maybe_escaped = push_bit 1 potential_escape;
         maybe_escaped_and_odd_bits = maybe_escaped OR ODD_BITS;
         even_series_codes_and_odd_bits = maybe_escaped_and_odd_bits - potential_escape
     in even_series_codes_and_odd_bits XOR ODD_BITS)"

definition next_escaped_without_backslashes :: "json_escape_scanner \<Rightarrow> u64 \<times> json_escape_scanner" where
  "next_escaped_without_backslashes s = (next_is_escaped s, s\<lparr>next_is_escaped := 0\<rparr>)"

text \<open>The ARM64 kernel is compiled with \<^verbatim>\<open>SIMDJSON_SKIP_BACKSLASH_SHORT_CIRCUIT\<close>.\<close>

definition escape_next :: "json_escape_scanner \<Rightarrow> u64 \<Rightarrow> escaped_and_escape \<times> json_escape_scanner" where
  "escape_next s backslash =
    (let escape_and_terminal_code = next_escape_and_terminal_code (backslash AND NOT (next_is_escaped s));
         escaped = escape_and_terminal_code XOR (backslash OR next_is_escaped s);
         escape = escape_and_terminal_code AND backslash
     in (\<lparr>ee_escaped = escaped, ee_escape = escape\<rparr>, s\<lparr>next_is_escaped := drop_bit 63 escape\<rparr>))"

section \<open>Strings\<close>

record json_string_block =
  sb_escaped :: u64
  sb_quote :: u64
  sb_in_string :: u64

definition string_content :: "json_string_block \<Rightarrow> u64" where
  "string_content b = sb_in_string b AND NOT (sb_quote b)"

definition non_quote_inside_string :: "json_string_block \<Rightarrow> u64 \<Rightarrow> u64" where
  "non_quote_inside_string b mask_bits = mask_bits AND sb_in_string b"

definition non_quote_outside_string :: "json_string_block \<Rightarrow> u64 \<Rightarrow> u64" where
  "non_quote_outside_string b mask_bits = mask_bits AND NOT (sb_in_string b)"

definition string_tail :: "json_string_block \<Rightarrow> u64" where
  "string_tail b = sb_in_string b XOR sb_quote b"

record json_string_scanner =
  escape_scanner :: json_escape_scanner
  prev_in_string :: u64

definition string_next :: "json_string_scanner \<Rightarrow> simd8x64 \<Rightarrow> json_string_block \<times> json_string_scanner" where
  "string_next s blk =
    (let backslash = eq_mask blk 0x5C;
         (ee, es) = escape_next (escape_scanner s) backslash;
         escaped = ee_escaped ee;
         quote = eq_mask blk 0x22 AND NOT escaped;
         in_string = prefix_xor quote XOR prev_in_string s
     in (\<lparr>sb_escaped = escaped, sb_quote = quote, sb_in_string = in_string\<rparr>,
         s\<lparr>escape_scanner := es, prev_in_string := signed_drop_bit 63 in_string\<rparr>))"

definition string_finish :: "json_string_scanner \<Rightarrow> error_code" where
  "string_finish s = (if prev_in_string s \<noteq> 0 then UNCLOSED_STRING else SUCCESS)"

section \<open>Character classes\<close>

record json_character_block =
  cb_whitespace :: u64
  cb_op :: u64

definition cb_scalar :: "json_character_block \<Rightarrow> u64" where
  "cb_scalar c = NOT (cb_op c OR cb_whitespace c)"

definition table1 :: simd8 where
  "table1 = [16, 0, 0, 0, 0, 0, 0, 0, 0, 8, 12, 1, 2, 9, 0, 0]"

definition table2 :: simd8 where
  "table2 = [8, 0, 18, 4, 0, 1, 0, 1, 0, 0, 0, 3, 2, 1, 0, 0]"

definition classify :: "simd8x64 \<Rightarrow> json_character_block" where
  "classify blk =
    (let v = map (\<lambda>chunk. simd_and (lookup_16 (simd_and chunk (splat 0xf)) table1) (lookup_16 (shr 4 chunk) table2)) blk;
         op = to_bitmask (map (\<lambda>chunk. any_bits_set chunk 0x7) v);
         whitespace = to_bitmask (map (\<lambda>chunk. any_bits_set chunk 0x18) v)
     in \<lparr>cb_whitespace = whitespace, cb_op = op\<rparr>)"

section \<open>Blocks\<close>

record json_block =
  jb_string :: json_string_block
  jb_characters :: json_character_block
  jb_follows_potential_nonquote_scalar :: u64

definition follows_potential_scalar :: "json_block \<Rightarrow> u64" where
  "follows_potential_scalar b = jb_follows_potential_nonquote_scalar b"

definition potential_scalar_start :: "json_block \<Rightarrow> u64" where
  "potential_scalar_start b = cb_scalar (jb_characters b) AND NOT (follows_potential_scalar b)"

definition potential_structural_start :: "json_block \<Rightarrow> u64" where
  "potential_structural_start b = cb_op (jb_characters b) OR potential_scalar_start b"

definition structural_start :: "json_block \<Rightarrow> u64" where
  "structural_start b = potential_structural_start b AND NOT (string_tail (jb_string b))"

definition block_whitespace :: "json_block \<Rightarrow> u64" where
  "block_whitespace b = non_quote_outside_string (jb_string b) (cb_whitespace (jb_characters b))"

definition follows :: "u64 \<Rightarrow> u64 \<Rightarrow> u64 \<times> u64" where
  "follows match_bits overflow = (push_bit 1 match_bits OR overflow, drop_bit 63 match_bits)"

record json_scanner =
  prev_scalar :: u64
  string_scanner :: json_string_scanner

definition json_scanner_init :: json_scanner where
  "json_scanner_init = \<lparr>prev_scalar = 0, string_scanner = \<lparr>escape_scanner = \<lparr>next_is_escaped = 0\<rparr>, prev_in_string = 0\<rparr>\<rparr>"

definition scanner_next :: "json_scanner \<Rightarrow> simd8x64 \<Rightarrow> json_block \<times> json_scanner" where
  "scanner_next s blk =
    (let (strings, ss) = string_next (string_scanner s) blk;
         characters = classify blk;
         nonquote_scalar = cb_scalar characters AND NOT (sb_quote strings);
         (follows_nonquote_scalar, ps) = follows nonquote_scalar (prev_scalar s)
     in (\<lparr>jb_string = strings, jb_characters = characters,
          jb_follows_potential_nonquote_scalar = follows_nonquote_scalar\<rparr>,
         s\<lparr>prev_scalar := ps, string_scanner := ss\<rparr>))"

definition scanner_finish :: "json_scanner \<Rightarrow> error_code" where
  "scanner_finish s = string_finish (string_scanner s)"

section \<open>Subtraction, bit by bit\<close>

text \<open>The borrow into bit \<open>n\<close> of \<open>a - p\<close>.\<close>

fun borrow :: "int \<Rightarrow> int \<Rightarrow> bool \<Rightarrow> nat \<Rightarrow> bool" where
  "borrow a p c 0 = c"
| "borrow a p c (Suc n) = ((\<not> bit a n \<and> (bit p n \<or> borrow a p c n)) \<or> (bit p n \<and> borrow a p c n))"

lemma borrow_shift: "borrow a p c (Suc n) = borrow (a div 2) (p div 2) (borrow a p c 1) n"
  by (induction n) (simp_all add: bit_Suc)

lemma bit_diff_borrow: "bit (a - p - of_bool c) n \<longleftrightarrow> (bit a n \<noteq> (bit p n \<noteq> borrow a p c n))" for a p :: int
proof (induction n arbitrary: a p c)
  case 0
  then show ?case by (auto simp: bit_0)
next
  case (Suc n)
  have "(a - p - of_bool c) div 2 = a div 2 - p div 2 - of_bool (borrow a p c 1)"
    by (cases "even a"; cases "even p"; cases c) (auto elim!: evenE oddE simp: bit_0)
  then show ?case
    using Suc.IH [of "a div 2" "p div 2" "borrow a p c 1"] borrow_shift [of a p c n]
    by (simp only: bit_Suc)
qed

lemma bit_diff_word:
  "n < LENGTH('a) \<Longrightarrow> bit (a - p :: 'a :: len word) n \<longleftrightarrow> (bit a n \<noteq> (bit p n \<noteq> borrow (uint a) (uint p) False n))"
proof -
  assume n: "n < LENGTH('a)"
  have "a - p = word_of_int (uint a - uint p)" by simp
  then have "bit (a - p) n \<longleftrightarrow> bit (uint a - uint p) n" using n by (simp only: bit_word_of_int_iff simp_thms)
  then show ?thesis using bit_diff_borrow [of "uint a" "uint p" False n] n by (simp add: bit_uint_iff)
qed

section \<open>The escape scanner\<close>

text \<open>The sequential reading: a byte is escaped when the byte before it is a backslash that is not
  escaped itself.\<close>

fun escaped_at :: "(nat \<Rightarrow> bool) \<Rightarrow> bool \<Rightarrow> nat \<Rightarrow> bool" where
  "escaped_at bs first 0 = first"
| "escaped_at bs first (Suc i) = (bs i \<and> \<not> escaped_at bs first i)"

lemma bit_ODD_BITS: "bit ODD_BITS i \<longleftrightarrow> i < 64 \<and> odd i"
proof (cases "i < 64")
  case True
  have "\<forall>i \<in> set [0..<64]. bit ODD_BITS i = odd i"
    unfolding ODD_BITS_def by (simp add: upt_rec)
  with True show ?thesis by simp
next
  case False
  then show ?thesis by (auto dest: bit_imp_le_length)
qed

lemma bit_shift_1: "bit (push_bit 1 p) i \<longleftrightarrow> i < 64 \<and> i \<noteq> 0 \<and> bit p (i - 1)" for p :: u64
  by (cases i) (simp_all only: bit_push_bit_iff possible_bit_word, auto)

lemma borrow_escape:
  fixes p :: u64
  defines "a \<equiv> push_bit 1 p OR ODD_BITS"
  assumes "i < 64"
  shows "(bit a i \<noteq> borrow (uint a) (uint p) False i) \<longleftrightarrow> (odd i \<noteq> escaped_at (bit p) False i)"
  using assms(2)
proof (induction i)
  case 0
  then show ?case by (simp only: a_def bit_or_iff bit_shift_1 bit_ODD_BITS) simp
next
  case (Suc i)
  have a: "bit a (Suc i) \<longleftrightarrow> bit p i \<or> odd (Suc i)"
    using Suc.prems by (simp only: a_def bit_or_iff bit_shift_1 bit_ODD_BITS) simp
  have a': "bit a i \<longleftrightarrow> odd i \<or> (i \<noteq> 0 \<and> bit p (i - 1))"
    using Suc.prems by (simp only: a_def bit_or_iff bit_shift_1 bit_ODD_BITS) auto
  have e: "escaped_at (bit p) False i \<longrightarrow> i \<noteq> 0 \<and> bit p (i - 1)" by (cases i) auto
  have "bit (uint a) i = bit a i" "bit (uint p) i = bit p i" using Suc.prems by (simp_all add: bit_uint_iff)
  then show ?case using Suc a a' e by auto
qed

lemma bit_next_escape_and_terminal_code:
  "i < 64 \<Longrightarrow> bit (next_escape_and_terminal_code p) i \<longleftrightarrow> (bit p i \<noteq> escaped_at (bit p) False i)"
  using borrow_escape [of i p]
  by (auto simp: next_escape_and_terminal_code_def Let_def bit_diff_word bit_xor_iff bit_ODD_BITS)

lemma escaped_at_first:
  "escaped_at (\<lambda>i. b i \<and> \<not> (i = 0 \<and> f)) False (Suc i) = escaped_at b f (Suc i)"
  by (induction i) auto

lemma bit_of_bool_u64 [simp]: "bit (of_bool b :: u64) i \<longleftrightarrow> i = 0 \<and> b"
  by (auto simp: bit_1_iff)

lemma bit_escape_next:
  assumes "next_is_escaped s = of_bool f" "i < 64"
  shows "bit (ee_escaped (fst (escape_next s b))) i \<longleftrightarrow> escaped_at (bit b) f i"
    and "bit (ee_escape (fst (escape_next s b))) i \<longleftrightarrow> bit b i \<and> \<not> escaped_at (bit b) f i"
proof -
  let ?p = "b AND NOT (of_bool f)"
  have p: "bit ?p j \<longleftrightarrow> bit b j \<and> \<not> (j = 0 \<and> f)" for j
    by (auto simp: bit_simps dest: bit_imp_le_length)
  have "escaped_at (bit ?p) False i = escaped_at (\<lambda>j. bit b j \<and> \<not> (j = 0 \<and> f)) False i"
    by (rule arg_cong [where f = "\<lambda>b. escaped_at b False i"]) (simp add: fun_eq_iff p)
  also have "\<dots> = (i \<noteq> 0 \<and> escaped_at (bit b) f i)" by (cases i) (simp_all only: escaped_at_first, simp_all)
  finally have *: "bit (next_escape_and_terminal_code ?p) i \<longleftrightarrow>
      ((bit b i \<and> \<not> (i = 0 \<and> f)) \<noteq> (i \<noteq> 0 \<and> escaped_at (bit b) f i))"
    using bit_next_escape_and_terminal_code [OF assms(2), of ?p] p by simp
  show "bit (ee_escaped (fst (escape_next s b))) i \<longleftrightarrow> escaped_at (bit b) f i"
    using * assms(1) by (cases "i = 0") (auto simp: escape_next_def Let_def bit_xor_iff bit_or_iff)
  show "bit (ee_escape (fst (escape_next s b))) i \<longleftrightarrow> bit b i \<and> \<not> escaped_at (bit b) f i"
    using * assms(1) by (cases "i = 0") (auto simp: escape_next_def Let_def bit_and_iff)
qed

lemma drop_bit_63: "drop_bit 63 (x :: u64) = of_bool (bit x 63)"
proof (rule bit_eqI)
  fix n show "bit (drop_bit 63 x) n = bit (of_bool (bit x 63) :: u64) n"
    using bit_imp_le_length [of x "63 + n"] by (cases n) (auto simp: bit_drop_bit_eq)
qed

lemma next_is_escaped_escape_next:
  assumes "next_is_escaped s = of_bool f"
  shows "next_is_escaped (snd (escape_next s b)) = of_bool (escaped_at (bit b) f 64)"
proof -
  have "next_is_escaped (snd (escape_next s b)) = of_bool (bit (ee_escape (fst (escape_next s b))) 63)"
    by (simp add: escape_next_def Let_def drop_bit_63)
  also have "\<dots> = of_bool (escaped_at (bit b) f (Suc 63))"
    by (simp only: bit_escape_next(2) [OF assms, of 63 b] escaped_at.simps)
  finally show ?thesis by (simp del: escaped_at.simps)
qed

text \<open>The path without backslashes that other kernels take is the general path on such a block.\<close>

theorem escape_short_circuit:
  assumes "next_is_escaped s = of_bool f"
  shows "escape_next s 0 =
    (case next_escaped_without_backslashes s of (e, s') \<Rightarrow> (\<lparr>ee_escaped = e, ee_escape = 0\<rparr>, s'))"
  using assms by (simp add: escape_next_def next_escaped_without_backslashes_def
      next_escape_and_terminal_code_def Let_def)

section \<open>The classes of a byte\<close>

definition class_byte :: "u8 \<Rightarrow> u8" where
  "class_byte b = (table1 ! unat (b AND 0xf)) AND (table2 ! unat (drop_bit 4 b))"

definition is_op :: "u8 \<Rightarrow> bool" where
  "is_op b \<longleftrightarrow> b \<in> {0x2C, 0x3A, 0x5B, 0x5D, 0x7B, 0x7D}"

definition is_ws :: "u8 \<Rightarrow> bool" where
  "is_ws b \<longleftrightarrow> b \<in> {0x20, 0x09, 0x0A, 0x0D}"

text \<open>The table lookups of this kernel also mark six bytes that no ASCII text contains.\<close>

definition marked_op :: "u8 \<Rightarrow> bool" where
  "marked_op b \<longleftrightarrow> is_op b \<or> b \<in> {0xBB, 0xBC, 0xBD, 0xCC, 0xDB, 0xDD}"

lemma class_byte_classes:
  "(class_byte b AND 0x7 \<noteq> 0 \<longleftrightarrow> marked_op b) \<and> (class_byte b AND 0x18 \<noteq> 0 \<longleftrightarrow> is_ws b)"
  by (rule u8_all [of _ b]) (simp_all add: class_byte_def table1_def table2_def is_op_def marked_op_def is_ws_def)

lemma unat_nibble: "unat (b AND 0xf :: u8) < 16" "unat (drop_bit 4 b :: u8) < 16"
proof -
  have "b AND 0xf \<le> 0xf" by (rule word_and_le1)
  then show "unat (b AND 0xf) < 16" by (simp add: word_le_nat_alt)
  have "unat b < 16 * 16" using unsigned_less [of b] by simp
  then have "unat b div 16 < 16" by (rule less_mult_imp_div_less)
  moreover have "unat (drop_bit 4 b) = unat b div 16"
    by (simp only: drop_bit_eq_div unat_div) simp
  ultimately show "unat (drop_bit 4 b) < 16" by simp
qed

lemma classify_chunk:
  "length c = 16 \<Longrightarrow> simd_and (lookup_16 (simd_and c (splat 0xf)) table1) (lookup_16 (shr 4 c) table2) = map class_byte c"
  by (rule nth_equalityI)
    (simp_all add: simd_and_def lookup_16_def shr_def map2_splat [unfolded simd_and_def] class_byte_def unat_nibble)

lemma bit_classify:
  assumes "wf_block blk"
  shows "bit (cb_op (classify blk)) i \<longleftrightarrow> i < 64 \<and> marked_op (concat blk ! i)"
    and "bit (cb_whitespace (classify blk)) i \<longleftrightarrow> i < 64 \<and> is_ws (concat blk ! i)"
proof -
  have tst: "any_bits_set (map class_byte c) k = map (\<lambda>b. if class_byte b AND k \<noteq> 0 then 0xFF else 0) c"
    if "length c = 16" for c k
    using that by (simp add: any_bits_set_def map2_splat)
  have *: "map (\<lambda>c. any_bits_set c k) (map (\<lambda>c. simd_and (lookup_16 (simd_and c (splat 0xf)) table1) (lookup_16 (shr 4 c) table2)) blk)
      = map (map (\<lambda>b. if class_byte b AND k \<noteq> 0 then 0xFF else 0)) blk" for k
    using assms by (simp add: wf_block_def classify_chunk tst)
  show "bit (cb_op (classify blk)) i \<longleftrightarrow> i < 64 \<and> marked_op (concat blk ! i)"
    using bit_to_bitmask_map [OF assms, of "\<lambda>b. if class_byte b AND 7 \<noteq> 0 then 0xFF else 0" i]
    by (simp add: classify_def Let_def * class_byte_classes del: map_map)
  show "bit (cb_whitespace (classify blk)) i \<longleftrightarrow> i < 64 \<and> is_ws (concat blk ! i)"
    using bit_to_bitmask_map [OF assms, of "\<lambda>b. if class_byte b AND 0x18 \<noteq> 0 then 0xFF else 0" i]
    by (simp add: classify_def Let_def * class_byte_classes del: map_map)
qed

section \<open>The sequential lexer\<close>

text \<open>Between tokens, in a run of other characters (numbers, literals), or in a string; the flag says
  that the last character was an unescaped backslash.\<close>

datatype lex_state = Between | InScalar bool | InString bool

fun lex_escaped :: "lex_state \<Rightarrow> bool" where
  "lex_escaped Between = False"
| "lex_escaped (InScalar e) = e"
| "lex_escaped (InString e) = e"

fun lex_step :: "lex_state \<Rightarrow> u8 \<Rightarrow> lex_state" where
  "lex_step (InString e) b =
    (if e then InString False else if b = 0x5C then InString True else if b = 0x22 then Between else InString False)"
| "lex_step s b =
    (if b = 0x22 \<and> \<not> lex_escaped s then InString False
     else if marked_op b \<or> is_ws b then Between
     else InScalar (b = 0x5C \<and> \<not> lex_escaped s))"

text \<open>Whether a token starts at the byte \<open>b\<close>.\<close>

fun lex_starts :: "lex_state \<Rightarrow> u8 \<Rightarrow> bool" where
  "lex_starts Between b = (\<not> is_ws b)"
| "lex_starts (InScalar e) b = marked_op b"
| "lex_starts (InString e) b = False"

definition lex_at :: "lex_state \<Rightarrow> u8 list \<Rightarrow> nat \<Rightarrow> lex_state" where
  "lex_at s bs i = foldl lex_step s (take i bs)"

lemma lex_at_0 [simp]: "lex_at s bs 0 = s"
  by (simp add: lex_at_def)

lemma lex_at_Suc: "i < length bs \<Longrightarrow> lex_at s bs (Suc i) = lex_step (lex_at s bs i) (bs ! i)"
  by (simp add: lex_at_def take_Suc_conv_app_nth)

fun in_string_state :: "lex_state \<Rightarrow> bool" where
  "in_string_state (InString e) = True"
| "in_string_state s = False"

text \<open>How the words of the scanner represent a lexer state.\<close>

fun lex_repr :: "lex_state \<Rightarrow> bool \<Rightarrow> bool \<Rightarrow> bool \<Rightarrow> bool" where
  "lex_repr Between esc ins sc \<longleftrightarrow> \<not> esc \<and> \<not> ins \<and> \<not> sc"
| "lex_repr (InScalar e) esc ins sc \<longleftrightarrow> esc = e \<and> \<not> ins \<and> sc"
| "lex_repr (InString e) esc ins sc \<longleftrightarrow> esc = e \<and> ins"

definition scanner_repr :: "lex_state \<Rightarrow> json_scanner \<Rightarrow> bool" where
  "scanner_repr s js \<longleftrightarrow> (\<exists>esc ins sc. lex_repr s esc ins sc \<and>
     next_is_escaped (escape_scanner (string_scanner js)) = of_bool esc \<and>
     prev_in_string (string_scanner js) = (if ins then - 1 else 0) \<and>
     prev_scalar js = of_bool sc)"

section \<open>The scanner refines the lexer\<close>

lemma class_disjoint: "marked_op b \<Longrightarrow> \<not> is_ws b"
  by (auto simp: marked_op_def is_op_def is_ws_def)

lemma quote_backslash_class [simp]: "\<not> marked_op 0x22" "\<not> is_ws 0x22" "\<not> marked_op 0x5C" "\<not> is_ws 0x5C"
  by (simp_all add: marked_op_def is_op_def is_ws_def)

lemma lex_repr_step:
  assumes "lex_repr s esc ins sc"
  shows "lex_repr (lex_step s b) (b = 0x5C \<and> \<not> esc) (ins \<noteq> (b = 0x22 \<and> \<not> esc))
    (\<not> marked_op b \<and> \<not> is_ws b \<and> \<not> (b = 0x22 \<and> \<not> esc))"
  using assms by (cases s) auto

lemma lex_repr_starts:
  "lex_repr s esc ins sc \<Longrightarrow> lex_starts s b \<longleftrightarrow> (marked_op b \<or> (\<not> marked_op b \<and> \<not> is_ws b \<and> \<not> sc)) \<and> \<not> ins"
  by (cases s) (auto dest: class_disjoint)

lemma lex_repr_in_string: "lex_repr s esc ins sc \<Longrightarrow> in_string_state s = ins"
  by (cases s) auto

lemma bit_in_string:
  assumes "i < 64"
  shows "bit (prefix_xor q XOR (if ins then - 1 else 0)) i \<longleftrightarrow>
    ((if i = 0 then ins else bit (prefix_xor q XOR (if ins then - 1 else 0)) (i - 1)) \<noteq> bit q i)"
proof (cases i)
  case 0
  then show ?thesis by (auto simp: bit_xor_iff bit_prefix_xor_0)
next
  case (Suc j)
  then show ?thesis using assms by (auto simp: bit_xor_iff bit_prefix_xor_Suc)
qed

lemma signed_drop_bit_63: "signed_drop_bit 63 (x :: u64) = (if bit x 63 then - 1 else 0)"
  by (rule bit_word_eqI) (auto simp: bit_signed_drop_bit_iff not_less_eq_eq le_Suc_eq)

lemma scanner_next_parts:
  assumes wf: "wf_block blk" and repr: "lex_repr s esc ins sc"
    and js: "next_is_escaped (escape_scanner (string_scanner js)) = of_bool esc"
      "prev_in_string (string_scanner js) = (if ins then - 1 else 0)" "prev_scalar js = of_bool sc"
  defines "B \<equiv> concat blk" and "b \<equiv> fst (scanner_next js blk)" and "js' \<equiv> snd (scanner_next js blk)"
  defines "E \<equiv> escaped_at (bit (eq_mask blk 0x5C)) esc"
    and "Ip \<equiv> \<lambda>i. if i = 0 then ins else bit (sb_in_string (jb_string b)) (i - 1)"
    and "Sp \<equiv> \<lambda>i. if i = 0 then sc else bit (cb_scalar (jb_characters b) AND NOT (sb_quote (jb_string b))) (i - 1)"
  shows quote_bit: "i < 64 \<Longrightarrow> bit (sb_quote (jb_string b)) i \<longleftrightarrow> B ! i = 0x22 \<and> \<not> E i"
    and in_string_bit: "i < 64 \<Longrightarrow> bit (sb_in_string (jb_string b)) i \<longleftrightarrow> (Ip i \<noteq> (B ! i = 0x22 \<and> \<not> E i))"
    and scalar_bit: "i < 64 \<Longrightarrow> bit (cb_scalar (jb_characters b) AND NOT (sb_quote (jb_string b))) i \<longleftrightarrow>
      \<not> marked_op (B ! i) \<and> \<not> is_ws (B ! i) \<and> \<not> (B ! i = 0x22 \<and> \<not> E i)"
    and start_bit: "i < 64 \<Longrightarrow> bit (structural_start b) i \<longleftrightarrow>
      (marked_op (B ! i) \<or> (\<not> marked_op (B ! i) \<and> \<not> is_ws (B ! i) \<and> \<not> Sp i)) \<and> \<not> Ip i"
    and escape_state: "next_is_escaped (escape_scanner (string_scanner js')) = of_bool (E 64)"
    and string_state: "prev_in_string (string_scanner js') = (if Ip 64 then - 1 else 0)"
    and scalar_state: "prev_scalar js' = of_bool (Sp 64)"
proof -
  let ?es = "escape_scanner (string_scanner js)"
  let ?e = "ee_escaped (fst (escape_next ?es (eq_mask blk 0x5C)))"
  let ?q = "eq_mask blk 0x22 AND NOT ?e"
  have b: "jb_characters b = classify blk" "sb_quote (jb_string b) = ?q"
    "sb_in_string (jb_string b) = prefix_xor ?q XOR (if ins then - 1 else 0)"
    "jb_follows_potential_nonquote_scalar b = push_bit 1 (cb_scalar (classify blk) AND NOT ?q) OR of_bool sc"
    by (simp_all only: b_def scanner_next_def string_next_def follows_def Let_def case_prod_beta js
        fst_conv snd_conv json_block.simps json_string_block.simps)
  show q: "bit (sb_quote (jb_string b)) i \<longleftrightarrow> B ! i = 0x22 \<and> \<not> E i" if "i < 64" for i
    using that by (auto simp: b B_def E_def bit_and_iff bit_not_iff bit_eq_mask [OF wf] bit_escape_next(1) [OF js(1)])
  show ins: "bit (sb_in_string (jb_string b)) i \<longleftrightarrow> (Ip i \<noteq> (B ! i = 0x22 \<and> \<not> E i))" if "i < 64" for i
    using bit_in_string [OF that, of ?q ins] q [OF that] by (simp only: b Ip_def)
  show nq: "bit (cb_scalar (jb_characters b) AND NOT (sb_quote (jb_string b))) i \<longleftrightarrow>
      \<not> marked_op (B ! i) \<and> \<not> is_ws (B ! i) \<and> \<not> (B ! i = 0x22 \<and> \<not> E i)" if "i < 64" for i
    using that q [OF that]
    by (auto simp: bit_and_iff bit_not_iff bit_or_iff cb_scalar_def b(1) bit_classify [OF wf] B_def)
  have sp: "bit (jb_follows_potential_nonquote_scalar b) i \<longleftrightarrow> Sp i" if "i < 64" for i
    using that by (simp only: b Sp_def bit_or_iff bit_shift_1 bit_of_bool_u64) auto
  have tail: "bit (string_tail (jb_string b)) i \<longleftrightarrow> Ip i" if "i < 64" for i
    using q [OF that] ins [OF that] by (auto simp: string_tail_def bit_xor_iff)
  show "bit (structural_start b) i \<longleftrightarrow>
      (marked_op (B ! i) \<or> (\<not> marked_op (B ! i) \<and> \<not> is_ws (B ! i) \<and> \<not> Sp i)) \<and> \<not> Ip i" if "i < 64" for i
    using that sp [OF that] tail [OF that]
    by (auto simp: structural_start_def potential_structural_start_def potential_scalar_start_def
        follows_potential_scalar_def bit_and_iff bit_or_iff bit_not_iff cb_scalar_def b(1) bit_classify [OF wf] B_def)
  have js': "escape_scanner (string_scanner js') = snd (escape_next ?es (eq_mask blk 0x5C))"
    "prev_in_string (string_scanner js') = signed_drop_bit 63 (sb_in_string (jb_string b))"
    "prev_scalar js' = drop_bit 63 (cb_scalar (jb_characters b) AND NOT (sb_quote (jb_string b)))"
    by (simp_all add: js'_def b_def scanner_next_def string_next_def follows_def Let_def case_prod_beta)
  show "next_is_escaped (escape_scanner (string_scanner js')) = of_bool (E 64)"
    by (simp only: js' next_is_escaped_escape_next [OF js(1)] E_def)
  show "prev_in_string (string_scanner js') = (if Ip 64 then - 1 else 0)"
    by (simp add: js' signed_drop_bit_63 Ip_def)
  show "prev_scalar js' = of_bool (Sp 64)"
    by (simp add: js' drop_bit_63 Sp_def bit_and_iff)
qed

theorem scanner_next_refines:
  assumes wf: "wf_block blk" and repr: "scanner_repr s js"
  shows "\<And>i. i < 64 \<Longrightarrow> bit (structural_start (fst (scanner_next js blk))) i \<longleftrightarrow>
      lex_starts (lex_at s (concat blk) i) (concat blk ! i)"
    and "\<And>i. i < 64 \<Longrightarrow> bit (sb_in_string (jb_string (fst (scanner_next js blk)))) i \<longleftrightarrow>
      in_string_state (lex_at s (concat blk) (Suc i))"
    and "scanner_repr (lex_at s (concat blk) 64) (snd (scanner_next js blk))"
proof -
  from repr obtain esc ins sc where r: "lex_repr s esc ins sc" and js: "next_is_escaped (escape_scanner (string_scanner js)) = of_bool esc"
    "prev_in_string (string_scanner js) = (if ins then - 1 else 0)" "prev_scalar js = of_bool sc"
    unfolding scanner_repr_def by blast
  note parts = scanner_next_parts [OF wf r js]
  define E where "E = escaped_at (bit (eq_mask blk 0x5C)) esc"
  define Ip where "Ip = (\<lambda>i. if i = 0 then ins else bit (sb_in_string (jb_string (fst (scanner_next js blk)))) (i - 1))"
  define Sp where "Sp = (\<lambda>i. if i = 0 then sc else bit (cb_scalar (jb_characters (fst (scanner_next js blk)))
    AND NOT (sb_quote (jb_string (fst (scanner_next js blk))))) (i - 1))"
  have inv: "lex_repr (lex_at s (concat blk) i) (E i) (Ip i) (Sp i)" if "i \<le> 64" for i
    using that
  proof (induction i)
    case 0
    then show ?case using r by (simp add: E_def Ip_def Sp_def)
  next
    case (Suc i)
    have i: "i < 64" "i < length (concat blk)" using Suc.prems length_concat_block [OF wf] by simp_all
    have "E (Suc i) \<longleftrightarrow> concat blk ! i = 0x5C \<and> \<not> E i" using i by (simp add: E_def bit_eq_mask [OF wf])
    moreover have "Ip (Suc i) \<longleftrightarrow> (Ip i \<noteq> (concat blk ! i = 0x22 \<and> \<not> E i))"
      using parts(2) [OF i(1)] by (simp add: Ip_def E_def)
    moreover have "Sp (Suc i) \<longleftrightarrow> \<not> marked_op (concat blk ! i) \<and> \<not> is_ws (concat blk ! i) \<and> \<not> (concat blk ! i = 0x22 \<and> \<not> E i)"
      using parts(3) [OF i(1)] by (simp add: Sp_def E_def)
    ultimately show ?case
      using lex_repr_step [OF Suc.IH, of "concat blk ! i"] i by (simp only: lex_at_Suc)
  qed
  show "bit (structural_start (fst (scanner_next js blk))) i \<longleftrightarrow>
      lex_starts (lex_at s (concat blk) i) (concat blk ! i)" if "i < 64" for i
    using parts(4) [OF that, folded Ip_def Sp_def] lex_repr_starts [OF inv, of i "concat blk ! i"] that
    by (simp add: Ip_def Sp_def)
  show "bit (sb_in_string (jb_string (fst (scanner_next js blk)))) i \<longleftrightarrow>
      in_string_state (lex_at s (concat blk) (Suc i))" if "i < 64" for i
    using lex_repr_in_string [OF inv [of "Suc i"]] that by (simp add: Ip_def)
  show "scanner_repr (lex_at s (concat blk) 64) (snd (scanner_next js blk))"
    unfolding scanner_repr_def
    by (intro exI conjI, rule inv [OF order_refl])
      (simp_all only: parts(5,6,7) E_def Ip_def Sp_def)
qed

lemma scanner_repr_init: "scanner_repr Between json_scanner_init"
  by (auto simp: scanner_repr_def json_scanner_init_def)

lemma scanner_finish_lex:
  "scanner_repr s js \<Longrightarrow> scanner_finish js = (if in_string_state s then UNCLOSED_STRING else SUCCESS)"
  using lex_repr_in_string
  by (fastforce simp: scanner_repr_def scanner_finish_def string_finish_def split: if_splits)

end
