(* ===== verification/Simd_Utf8.thy ===== *)
theory Simd_Utf8
  imports Simd_Scanner
begin

text \<open>
  UTF-8 validation as stage 1 of \<^verbatim>\<open>simdjson\<close> does it (\<^verbatim>\<open>utf8_lookup4_algorithm.h\<close>, \<^verbatim>\<open>utf8_validator.h\<close> and
  \<^verbatim>\<open>buf_block_reader.h\<close>): three table lookups per byte, a fast path for ASCII blocks, and a check at
  the end of the input. The reference is the table of well-formed byte sequences of RFC 3629, read
  from left to right; the validator accepts exactly the well-formed texts.
\<close>

section \<open>Reading a buffer block by block\<close>

record buf_block_reader =
  rd_buf :: "u8 list"
  rd_len :: nat
  lenminusstep :: nat
  rd_idx :: nat

definition buf_block_reader_init :: "nat \<Rightarrow> u8 list \<Rightarrow> nat \<Rightarrow> buf_block_reader" where
  "buf_block_reader_init STEP_SIZE buf len =
    \<lparr>rd_buf = buf, rd_len = len, lenminusstep = (if len < STEP_SIZE then 0 else len - STEP_SIZE), rd_idx = 0\<rparr>"

definition block_index :: "buf_block_reader \<Rightarrow> nat" where
  "block_index r = rd_idx r"

definition has_full_block :: "buf_block_reader \<Rightarrow> bool" where
  "has_full_block r \<longleftrightarrow> rd_idx r < lenminusstep r"

definition full_block :: "buf_block_reader \<Rightarrow> u8 list" where
  "full_block r = drop (rd_idx r) (rd_buf r)"

text \<open>\<open>memset\<close> with spaces, \<open>memcpy\<close> of the rest of the buffer; the returned pair is the destination and
  the number of bytes copied.\<close>

definition get_remainder :: "nat \<Rightarrow> buf_block_reader \<Rightarrow> u8 list \<Rightarrow> u8 list \<times> nat" where
  "get_remainder STEP_SIZE r dst =
    (if rd_len r = rd_idx r then (dst, 0)
     else let n = rd_len r - rd_idx r
          in (take n (drop (rd_idx r) (rd_buf r)) @ replicate (STEP_SIZE - n) 0x20, n))"

definition advance :: "nat \<Rightarrow> buf_block_reader \<Rightarrow> buf_block_reader" where
  "advance STEP_SIZE r = r\<lparr>rd_idx := rd_idx r + STEP_SIZE\<rparr>"

section \<open>The lookup algorithm\<close>

definition TOO_SHORT :: u8 where "TOO_SHORT = 0x01"
definition TOO_LONG :: u8 where "TOO_LONG = 0x02"
definition OVERLONG_3 :: u8 where "OVERLONG_3 = 0x04"
definition SURROGATE :: u8 where "SURROGATE = 0x10"
definition OVERLONG_2 :: u8 where "OVERLONG_2 = 0x20"
definition TWO_CONTS :: u8 where "TWO_CONTS = 0x80"
definition TOO_LARGE :: u8 where "TOO_LARGE = 0x08"
definition TOO_LARGE_1000 :: u8 where "TOO_LARGE_1000 = 0x40"
definition OVERLONG_4 :: u8 where "OVERLONG_4 = 0x40"

definition CARRY :: u8 where "CARRY = TOO_SHORT OR TOO_LONG OR TWO_CONTS"

lemmas utf8_error_bits = TOO_SHORT_def TOO_LONG_def OVERLONG_3_def SURROGATE_def OVERLONG_2_def TWO_CONTS_def
  TOO_LARGE_def TOO_LARGE_1000_def OVERLONG_4_def CARRY_def

definition byte_1_high_table :: simd8 where
  "byte_1_high_table =
    [TOO_LONG, TOO_LONG, TOO_LONG, TOO_LONG,
     TOO_LONG, TOO_LONG, TOO_LONG, TOO_LONG,
     TWO_CONTS, TWO_CONTS, TWO_CONTS, TWO_CONTS,
     TOO_SHORT OR OVERLONG_2,
     TOO_SHORT,
     TOO_SHORT OR OVERLONG_3 OR SURROGATE,
     TOO_SHORT OR TOO_LARGE OR TOO_LARGE_1000 OR OVERLONG_4]"

definition byte_1_low_table :: simd8 where
  "byte_1_low_table =
    [CARRY OR OVERLONG_3 OR OVERLONG_2 OR OVERLONG_4,
     CARRY OR OVERLONG_2,
     CARRY,
     CARRY,
     CARRY OR TOO_LARGE,
     CARRY OR TOO_LARGE OR TOO_LARGE_1000,
     CARRY OR TOO_LARGE OR TOO_LARGE_1000,
     CARRY OR TOO_LARGE OR TOO_LARGE_1000,
     CARRY OR TOO_LARGE OR TOO_LARGE_1000,
     CARRY OR TOO_LARGE OR TOO_LARGE_1000,
     CARRY OR TOO_LARGE OR TOO_LARGE_1000,
     CARRY OR TOO_LARGE OR TOO_LARGE_1000,
     CARRY OR TOO_LARGE OR TOO_LARGE_1000,
     CARRY OR TOO_LARGE OR TOO_LARGE_1000 OR SURROGATE,
     CARRY OR TOO_LARGE OR TOO_LARGE_1000,
     CARRY OR TOO_LARGE OR TOO_LARGE_1000]"

definition byte_2_high_table :: simd8 where
  "byte_2_high_table =
    [TOO_SHORT, TOO_SHORT, TOO_SHORT, TOO_SHORT,
     TOO_SHORT, TOO_SHORT, TOO_SHORT, TOO_SHORT,
     TOO_LONG OR OVERLONG_2 OR TWO_CONTS OR OVERLONG_3 OR TOO_LARGE_1000 OR OVERLONG_4,
     TOO_LONG OR OVERLONG_2 OR TWO_CONTS OR OVERLONG_3 OR TOO_LARGE,
     TOO_LONG OR OVERLONG_2 OR TWO_CONTS OR SURROGATE OR TOO_LARGE,
     TOO_LONG OR OVERLONG_2 OR TWO_CONTS OR SURROGATE OR TOO_LARGE,
     TOO_SHORT, TOO_SHORT, TOO_SHORT, TOO_SHORT]"

definition check_special_cases :: "simd8 \<Rightarrow> simd8 \<Rightarrow> simd8" where
  "check_special_cases input prev1 =
    (let byte_1_high = lookup_16 (shr 4 prev1) byte_1_high_table;
         byte_1_low = lookup_16 (simd_and prev1 (splat 0x0F)) byte_1_low_table;
         byte_2_high = lookup_16 (shr 4 input) byte_2_high_table
     in simd_and (simd_and byte_1_high byte_1_low) byte_2_high)"

definition must_be_2_3_continuation :: "simd8 \<Rightarrow> simd8 \<Rightarrow> simd8" where
  "must_be_2_3_continuation prev2 prev3 =
    (let is_third_byte = saturating_sub prev2 (splat (0xe0 - 0x80));
         is_fourth_byte = saturating_sub prev3 (splat (0xf0 - 0x80))
     in simd_or is_third_byte is_fourth_byte)"

definition check_multibyte_lengths :: "simd8 \<Rightarrow> simd8 \<Rightarrow> simd8 \<Rightarrow> simd8" where
  "check_multibyte_lengths input prev_input sc =
    (let prev2 = prev 2 input prev_input;
         prev3 = prev 3 input prev_input;
         must23 = must_be_2_3_continuation prev2 prev3;
         must23_80 = simd_and must23 (splat 0x80)
     in simd_xor must23_80 sc)"

text \<open>\<open>gt_bits\<close> against the last 16 bytes of \<open>max_array\<close>.\<close>

definition is_incomplete :: "simd8 \<Rightarrow> simd8" where
  "is_incomplete input = vcgtq_u8 input (replicate 13 255 @ [0xf0 - 1, 0xe0 - 1, 0xc0 - 1])"

definition is_ascii :: "simd8x64 \<Rightarrow> bool" where
  "is_ascii input \<longleftrightarrow> max_val (reduce_or input) < 0x80"

record utf8_checker =
  uc_error :: simd8
  prev_input_block :: simd8
  prev_incomplete :: simd8

definition utf8_checker_init :: utf8_checker where
  "utf8_checker_init = \<lparr>uc_error = splat 0, prev_input_block = splat 0, prev_incomplete = splat 0\<rparr>"

definition check_utf8_bytes :: "utf8_checker \<Rightarrow> simd8 \<Rightarrow> simd8 \<Rightarrow> utf8_checker" where
  "check_utf8_bytes c input prev_input =
    (let prev1 = prev 1 input prev_input;
         sc = check_special_cases input prev1
     in c\<lparr>uc_error := simd_or (uc_error c) (check_multibyte_lengths input prev_input sc)\<rparr>)"

definition check_eof :: "utf8_checker \<Rightarrow> utf8_checker" where
  "check_eof c = c\<lparr>uc_error := simd_or (uc_error c) (prev_incomplete c)\<rparr>"

definition check_next_input :: "utf8_checker \<Rightarrow> simd8x64 \<Rightarrow> utf8_checker" where
  "check_next_input c input =
    (if is_ascii input then c\<lparr>uc_error := simd_or (uc_error c) (prev_incomplete c)\<rparr>
     else let c = check_utf8_bytes c (input ! 0) (prev_input_block c);
              c = check_utf8_bytes c (input ! 1) (input ! 0);
              c = check_utf8_bytes c (input ! 2) (input ! 1);
              c = check_utf8_bytes c (input ! 3) (input ! 2)
          in c\<lparr>prev_incomplete := is_incomplete (input ! 3), prev_input_block := input ! 3\<rparr>)"

definition errors :: "utf8_checker \<Rightarrow> error_code" where
  "errors c = (if any_bits_set_anywhere (uc_error c) then UTF8_ERROR else SUCCESS)"

section \<open>The validator\<close>

function validate_loop :: "utf8_checker \<Rightarrow> buf_block_reader \<Rightarrow> utf8_checker \<times> buf_block_reader" where
  "validate_loop c reader =
    (if has_full_block reader
     then validate_loop (check_next_input c (simd8x64_load (full_block reader))) (advance 64 reader)
     else (c, reader))"
  by auto
termination
  by (relation "measure (\<lambda>(c, r). lenminusstep r - rd_idx r)") (auto simp: has_full_block_def advance_def)

declare validate_loop.simps [simp del]

definition generic_validate_utf8 :: "u8 list \<Rightarrow> nat \<Rightarrow> bool" where
  "generic_validate_utf8 input len =
    (let (c, reader) = validate_loop utf8_checker_init (buf_block_reader_init 64 input len);
         (block, _) = get_remainder 64 reader (replicate 64 0);
         c = check_next_input c (simd8x64_load block);
         c = check_eof c
     in errors c = SUCCESS)"

section \<open>Well-formed UTF-8\<close>

definition cont :: "u8 \<Rightarrow> bool" where
  "cont b \<longleftrightarrow> 0x80 \<le> b \<and> b < 0xC0"

text \<open>Which second bytes may follow a lead byte (RFC 3629, section 4).\<close>

definition follow :: "u8 \<Rightarrow> u8 \<Rightarrow> bool" where
  "follow p b \<longleftrightarrow>
    (if p = 0xE0 then 0xA0 \<le> b \<and> b < 0xC0
     else if p = 0xED then 0x80 \<le> b \<and> b < 0xA0
     else if p = 0xF0 then 0x90 \<le> b \<and> b < 0xC0
     else if p = 0xF4 then 0x80 \<le> b \<and> b < 0x90
     else 0xC2 \<le> p \<and> p < 0xF4 \<and> cont b)"

text \<open>The number of continuation bytes a lead byte announces.\<close>

definition tail_length :: "u8 \<Rightarrow> nat" where
  "tail_length b = (if b < 0xE0 then 1 else if b < 0xF0 then 2 else 3)"

fun utf8_valid :: "u8 list \<Rightarrow> bool" where
  "utf8_valid [] = True"
| "utf8_valid (b # bs) =
    (if b < 0x80 then utf8_valid bs
     else if b < 0xC0 then False
     else if b < 0xE0 then (case bs of c # r \<Rightarrow> follow b c \<and> utf8_valid r | _ \<Rightarrow> False)
     else if b < 0xF0 then (case bs of c # d # r \<Rightarrow> follow b c \<and> cont d \<and> utf8_valid r | _ \<Rightarrow> False)
     else (case bs of c # d # e # r \<Rightarrow> follow b c \<and> cont d \<and> cont e \<and> utf8_valid r | _ \<Rightarrow> False))"

section \<open>One byte of the algorithm\<close>

definition first_class :: "u8 \<Rightarrow> u8" where
  "first_class p = (byte_1_high_table ! unat (drop_bit 4 p)) AND (byte_1_low_table ! unat (p AND 0xF))"

definition second_class :: "u8 \<Rightarrow> u8" where
  "second_class b = byte_2_high_table ! unat (drop_bit 4 b)"

definition byte_error :: "u8 \<Rightarrow> u8 \<Rightarrow> u8 \<Rightarrow> u8 \<Rightarrow> u8" where
  "byte_error p3 p2 p1 b =
    (((if 0x60 \<le> p2 then p2 - 0x60 else 0) OR (if 0x70 \<le> p3 then p3 - 0x70 else 0)) AND 0x80)
    XOR (first_class p1 AND second_class b)"

lemma first_class_eq:
  "first_class p =
    (if p < 0x80 then 0x02 else if p < 0xC0 then 0x80 else if p < 0xC2 then 0x21
     else if p = 0xE0 then 0x05 else if p = 0xED then 0x11 else if p = 0xF0 then 0x41
     else if p < 0xF4 then 0x01 else if p = 0xF4 then 0x09 else 0x49)"
  by (rule u8_all [of _ p])
    (simp_all add: first_class_def byte_1_high_table_def byte_1_low_table_def utf8_error_bits)

lemma second_class_eq:
  "second_class b =
    (if b < 0x80 then 0x01 else if b < 0x90 then 0xE6 else if b < 0xA0 then 0xAE
     else if b < 0xC0 then 0xBA else 0x01)"
  by (rule u8_all [of _ b]) (simp_all add: second_class_def byte_2_high_table_def utf8_error_bits)

lemma must23_eq:
  "((if 0x60 \<le> p then p - 0x60 else 0) OR (if 0x70 \<le> q then q - 0x70 else 0)) AND (0x80 :: u8) =
   (if 0xE0 \<le> p \<or> 0xF0 \<le> q then 0x80 else 0)"
proof -
  have 1: "(if 0x60 \<le> p then p - 0x60 else 0) AND (0x80 :: u8) = (if 0xE0 \<le> p then 0x80 else 0)" for p
    by (rule u8_all [of _ p]) (simp_all add: word_le_nat_alt)
  have 2: "(if 0x70 \<le> q then q - 0x70 else 0) AND (0x80 :: u8) = (if 0xF0 \<le> q then 0x80 else 0)" for q
    by (rule u8_all [of _ q]) (simp_all add: word_le_nat_alt)
  show ?thesis unfolding bit.conj_disj_distrib2 1 2 by simp
qed

text \<open>When the byte at a position is the third or fourth of a character, it must follow a continuation
  byte and be one; otherwise it must fit the byte before it.\<close>

lemma second_class_cases:
  obtains "b < 0x80 \<or> 0xC0 \<le> b" "second_class b = 0x01"
  | "0x80 \<le> b" "b < 0x90" "second_class b = 0xE6"
  | "0x90 \<le> b" "b < 0xA0" "second_class b = 0xAE"
  | "0xA0 \<le> b" "b < 0xC0" "second_class b = 0xBA"
  using second_class_eq [of b] by (auto simp: not_less split: if_splits)

lemma first_class_cases:
  obtains "p < 0x80" "first_class p = 0x02"
  | "0x80 \<le> p" "p < 0xC0" "first_class p = 0x80"
  | "0xC0 \<le> p" "p < 0xC2" "first_class p = 0x21"
  | "p = 0xE0" "first_class p = 0x05"
  | "p = 0xED" "first_class p = 0x11"
  | "p = 0xF0" "first_class p = 0x41"
  | "0xC2 \<le> p" "p < 0xF4" "p \<notin> {0xE0, 0xED, 0xF0}" "first_class p = 0x01"
  | "p = 0xF4" "first_class p = 0x09"
  | "0xF4 < p" "first_class p = 0x49"
  using first_class_eq [of p] by (auto simp: not_less le_less split: if_splits)

lemmas byte_order = word_less_nat_alt word_le_nat_alt word_unat_eq_iff

lemma class_overlap_0: "first_class p AND second_class b = 0 \<longleftrightarrow> (if p < 0xC0 then \<not> cont b else follow p b)"
  by (cases rule: first_class_cases [of p]; cases rule: second_class_cases [of b];
      simp add: cont_def follow_def; (simp only: byte_order, simp, linarith?)?)

lemma class_overlap_80: "first_class p AND second_class b = 0x80 \<longleftrightarrow> cont p \<and> cont b"
  by (cases rule: first_class_cases [of p]; cases rule: second_class_cases [of b];
      simp add: cont_def; (simp only: byte_order, simp, linarith?)?)

lemma byte_error_zero:
  "byte_error p3 p2 p1 b = 0 \<longleftrightarrow>
    (if 0xE0 \<le> p2 \<or> 0xF0 \<le> p3 then cont p1 \<and> cont b
     else if p1 < 0xC0 then \<not> cont b else follow p1 b)"
proof -
  have xor: "(a XOR b = 0) = (b = a)" for a b :: u8 by (auto simp: bit_eq_iff bit_simps)
  show ?thesis
    unfolding byte_error_def must23_eq xor using class_overlap_0 [of p1 b] class_overlap_80 [of p1 b] by simp
qed

section \<open>The local checks together are well-formedness\<close>

text \<open>No error at any byte, given the three bytes in front.\<close>

fun ok_from :: "u8 \<Rightarrow> u8 \<Rightarrow> u8 \<Rightarrow> u8 list \<Rightarrow> bool" where
  "ok_from p3 p2 p1 [] = True"
| "ok_from p3 p2 p1 (b # bs) \<longleftrightarrow> byte_error p3 p2 p1 b = 0 \<and> ok_from p2 p1 b bs"

definition pending :: "u8 \<Rightarrow> u8 \<Rightarrow> u8 \<Rightarrow> bool" where
  "pending p3 p2 p1 \<longleftrightarrow> 0xF0 \<le> p3 \<or> 0xE0 \<le> p2 \<or> 0xC0 \<le> p1"

fun pending_after :: "u8 \<Rightarrow> u8 \<Rightarrow> u8 \<Rightarrow> u8 list \<Rightarrow> bool" where
  "pending_after p3 p2 p1 [] = pending p3 p2 p1"
| "pending_after p3 p2 p1 (b # bs) = pending_after p2 p1 b bs"

definition accepts :: "u8 \<Rightarrow> u8 \<Rightarrow> u8 \<Rightarrow> u8 list \<Rightarrow> bool" where
  "accepts p3 p2 p1 bs \<longleftrightarrow> ok_from p3 p2 p1 bs \<and> \<not> pending_after p3 p2 p1 bs"

lemma accepts_Nil [simp]: "accepts p3 p2 p1 [] \<longleftrightarrow> \<not> pending p3 p2 p1"
  by (simp add: accepts_def)

lemma accepts_Cons: "accepts p3 p2 p1 (b # bs) \<longleftrightarrow> byte_error p3 p2 p1 b = 0 \<and> accepts p2 p1 b bs"
  by (auto simp: accepts_def)

lemma not_pendingD:
  assumes "\<not> pending p3 p2 p1"
  shows "\<not> 0xF0 \<le> p3" "\<not> 0xE0 \<le> p2" "\<not> 0xF0 \<le> p2" "p1 < 0xC0" "\<not> 0xE0 \<le> p1" "\<not> 0xF0 \<le> p1"
  using assms by (auto simp: pending_def byte_order)

lemma cont_less: "cont b \<Longrightarrow> b < 0xC0" "cont b \<Longrightarrow> \<not> 0xC0 \<le> b" "cont b \<Longrightarrow> \<not> 0xE0 \<le> b" "cont b \<Longrightarrow> \<not> 0xF0 \<le> b"
  by (auto simp: cont_def byte_order)

lemma follow_cont: "follow p b \<Longrightarrow> cont b"
  by (auto simp: follow_def cont_def byte_order split: if_splits)

theorem accepts_valid: "\<not> pending p3 p2 p1 \<Longrightarrow> accepts p3 p2 p1 bs \<longleftrightarrow> utf8_valid bs"
proof (induction "length bs" arbitrary: bs p3 p2 p1 rule: less_induct)
  case less
  note np = not_pendingD [OF less.prems]
  show ?case
  proof (cases bs)
    case Nil
    then show ?thesis using less.prems by simp
  next
    case (Cons b r)
    have head: "byte_error p3 p2 p1 b = 0 \<longleftrightarrow> \<not> cont b" using np by (simp add: byte_error_zero)
    consider "b < 0x80" | "cont b" | "0xC0 \<le> b" "b < 0xE0" | "0xE0 \<le> b" "b < 0xF0" | "0xF0 \<le> b"
      unfolding cont_def by (meson not_less)
    then show ?thesis
    proof cases
      case 1
      have "\<not> pending p2 p1 b" using np 1 by (auto simp: pending_def byte_order)
      moreover have "\<not> cont b" using 1 by (auto simp: cont_def byte_order)
      ultimately show ?thesis using Cons less.hyps [of r p2 p1 b] 1 head by (simp add: accepts_Cons)
    next
      case 2
      then show ?thesis using Cons head by (auto simp: accepts_Cons cont_def byte_order)
    next
      case 3
      then have b: "\<not> cont b" "\<not> b < 0x80" "\<not> b < 0xC0" "pending p2 p1 b" "\<not> 0xE0 \<le> b" "\<not> 0xF0 \<le> b"
        by (auto simp: cont_def pending_def byte_order)
      show ?thesis
      proof (cases r)
        case (Cons c r')
        have "byte_error p2 p1 b c = 0 \<longleftrightarrow> follow b c" using np b by (simp add: byte_error_zero)
        moreover have "\<not> pending p1 b c" if "follow b c"
          using cont_less [OF follow_cont [OF that]] np b by (simp add: pending_def)
        ultimately show ?thesis
          using Cons \<open>bs = b # r\<close> 3 b head less.hyps [of r' p1 b c] by (auto simp: accepts_Cons)
      qed (use \<open>bs = b # r\<close> 3 b head in \<open>simp add: accepts_Cons\<close>)
    next
      case 4
      then have b: "\<not> cont b" "\<not> b < 0x80" "\<not> b < 0xC0" "\<not> b < 0xE0" "\<not> 0xF0 \<le> b" "pending p2 p1 b" "pending p1 b c" for c
        by (auto simp: cont_def pending_def byte_order)
      have e: "byte_error p2 p1 b c = 0 \<longleftrightarrow> follow b c" "byte_error p1 b c d = 0 \<longleftrightarrow> cont c \<and> cont d" for c d
        using np b 4 by (simp_all add: byte_error_zero)
      have n: "\<not> pending b c d" if "cont c" "cont d" for c d
        using cont_less [OF that(1)] cont_less [OF that(2)] b by (simp add: pending_def)
      show ?thesis
        using \<open>bs = b # r\<close> 4 b(1-6) b(7) head e follow_cont n less.hyps
        by (auto simp: accepts_Cons split: list.splits)
    next
      case 5
      then have b: "\<not> cont b" "\<not> b < 0x80" "\<not> b < 0xC0" "\<not> b < 0xE0" "\<not> b < 0xF0" "pending p2 p1 b" "pending p1 b c" "pending b c d" "0xE0 \<le> b" for c d
        by (auto simp: cont_def pending_def byte_order)
      have e: "byte_error p2 p1 b c = 0 \<longleftrightarrow> follow b c" "byte_error p1 b c d = 0 \<longleftrightarrow> cont c \<and> cont d"
        "byte_error b c d e = 0 \<longleftrightarrow> cont d \<and> cont e" for c d e
        using np b 5 by (simp_all add: byte_error_zero)
      have n: "\<not> pending c d e" if "cont c" "cont d" "cont e" for c d e
        using cont_less [OF that(1)] cont_less [OF that(2)] cont_less [OF that(3)] by (simp add: pending_def)
      show ?thesis
        using \<open>bs = b # r\<close> 5 b(1-6) b(7,8) head e follow_cont n less.hyps
        by (auto simp: accepts_Cons split: list.splits)
    qed
  qed
qed

text \<open>Between two characters the bytes in front do not matter.\<close>

lemma ok_from_not_pending:
  assumes "\<not> pending p3 p2 p1" "\<not> pending q3 q2 q1"
  shows "ok_from p3 p2 p1 bs = ok_from q3 q2 q1 bs"
proof -
  note np = not_pendingD [OF assms(1)] not_pendingD [OF assms(2)]
  have 1: "byte_error p3 p2 p1 b = 0 \<longleftrightarrow> byte_error q3 q2 q1 b = 0" for b using np by (simp add: byte_error_zero)
  have 2: "byte_error p2 p1 b c = 0 \<longleftrightarrow> byte_error q2 q1 b c = 0" for b c using np by (simp add: byte_error_zero)
  have 3: "byte_error p1 b c d = 0 \<longleftrightarrow> byte_error q1 b c d = 0" for b c d using np by (simp add: byte_error_zero)
  have drop3: "ok_from p1 b c bs \<longleftrightarrow> ok_from q1 b c bs" for b c bs
    by (cases bs) (simp_all add: 3)
  have drop2: "ok_from p2 p1 b bs \<longleftrightarrow> ok_from q2 q1 b bs" for b bs
    by (cases bs) (simp_all add: 2 drop3)
  show ?thesis by (cases bs) (simp_all add: 1 drop2)
qed

text \<open>The last three bytes of the input so far.\<close>

fun context_after :: "u8 \<times> u8 \<times> u8 \<Rightarrow> u8 list \<Rightarrow> u8 \<times> u8 \<times> u8" where
  "context_after p [] = p"
| "context_after (p3, p2, p1) (b # bs) = context_after (p2, p1, b) bs"

lemma context_after_append: "context_after p (xs @ ys) = context_after (context_after p xs) ys"
  by (induction p xs rule: context_after.induct) simp_all

lemma ok_from_append:
  "ok_from p3 p2 p1 (xs @ ys) \<longleftrightarrow>
    ok_from p3 p2 p1 xs \<and> (case context_after (p3, p2, p1) xs of (q3, q2, q1) \<Rightarrow> ok_from q3 q2 q1 ys)"
  by (induction xs arbitrary: p3 p2 p1) simp_all

lemma pending_after_context:
  "pending_after p3 p2 p1 xs = (case context_after (p3, p2, p1) xs of (q3, q2, q1) \<Rightarrow> pending q3 q2 q1)"
  by (induction xs arbitrary: p3 p2 p1) simp_all

lemma context_after_long:
  "3 \<le> length xs \<Longrightarrow>
    context_after p xs = (xs ! (length xs - 3), xs ! (length xs - 2), xs ! (length xs - 1))"
proof (induction xs rule: rev_induct)
  case (snoc x xs)
  show ?case
  proof (cases "3 \<le> length xs")
    case True
    then show ?thesis using snoc.IH by (auto simp: context_after_append nth_append numeral_eq_Suc)
  next
    case False
    then have "length xs = 2" using snoc.prems by simp
    then obtain a b where "xs = [a, b]" by (metis (no_types, lifting) Suc_length_conv length_0_conv numeral_2_eq_2)
    then show ?thesis by (cases p) simp
  qed
qed simp

lemma ascii_not_pending:
  assumes "\<not> pending p3 p2 p1" "\<forall>b \<in> set bs. b < 0x80"
  shows "ok_from p3 p2 p1 bs \<and> \<not> pending_after p3 p2 p1 bs"
proof -
  have "utf8_valid bs" using assms(2) by (induction bs) auto
  then show ?thesis using accepts_valid [OF assms(1), of bs] by (simp add: accepts_def)
qed

lemma ascii_after_pending:
  assumes "pending p3 p2 p1" "b < 0x80"
  shows "byte_error p3 p2 p1 b \<noteq> 0"
proof -
  have "\<not> cont b" "\<not> follow p1 b"
    using assms(2) follow_cont [of p1 b] by (auto simp: cont_def byte_order)
  then show ?thesis using assms(1) by (auto simp: byte_error_zero pending_def not_less)
qed

lemma utf8_valid_append_ascii:
  "\<forall>b \<in> set ys. b < 0x80 \<Longrightarrow> utf8_valid (xs @ ys) = utf8_valid xs"
proof -
  assume a: "\<forall>b \<in> set ys. b < 0x80"
  have n: "\<not> pending 0 0 0" by (simp add: pending_def byte_order)
  obtain q3 q2 q1 where c: "context_after (0, 0, 0) xs = (q3, q2, q1)" by (metis surj_pair)
  have acc: "utf8_valid bs \<longleftrightarrow> ok_from 0 0 0 bs \<and> \<not> pending_after 0 0 0 bs" for bs
    using accepts_valid [OF n, of bs] by (simp add: accepts_def)
  show "utf8_valid (xs @ ys) = utf8_valid xs"
  proof (cases "ys = [] \<or> \<not> pending q3 q2 q1")
    case True
    then show ?thesis
      using ascii_not_pending [of q3 q2 q1 ys] a c
      by (auto simp: acc ok_from_append pending_after_context context_after_append)
  next
    case False
    then obtain y ys' where "ys = y # ys'" by (cases ys) auto
    then show ?thesis
      using False a c ascii_after_pending [of q3 q2 q1 y]
      by (simp add: acc ok_from_append pending_after_context)
  qed
qed

section \<open>Registers check sixteen bytes at once\<close>

lemma any_bits_or:
  "length a = length b \<Longrightarrow>
    any_bits_set_anywhere (simd_or a b) \<longleftrightarrow> any_bits_set_anywhere a \<or> any_bits_set_anywhere b"
  by (induction a b rule: list_induct2) (auto simp: any_bits_set_anywhere_def simd_or_def or_eq_0_iff)

lemma length_simd_or [simp]: "length (simd_or a b) = min (length a) (length b)"
  by (simp add: simd_or_def)

lemma ok_from_nth:
  "ok_from p3 p2 p1 bs \<longleftrightarrow> (\<forall>i < length bs.
    byte_error ((p3 # p2 # p1 # bs) ! i) ((p2 # p1 # bs) ! i) ((p1 # bs) ! i) (bs ! i) = 0)"
proof (induction bs arbitrary: p3 p2 p1)
  case (Cons b bs)
  show ?case by (simp only: ok_from.simps Cons.IH length_Cons All_less_Suc2) simp
qed simp

lemma chunk_errors_nth:
  assumes "length input = 16" "length prev_input = 16" "i < 16"
  shows "check_multibyte_lengths input prev_input (check_special_cases input (prev 1 input prev_input)) ! i =
    byte_error ((prev_input @ input) ! (13 + i)) ((prev_input @ input) ! (14 + i))
      ((prev_input @ input) ! (15 + i)) (input ! i)"
proof -
  have p: "length (prev N input prev_input) = 16" "prev N input prev_input ! i = (prev_input @ input) ! (16 - N + i)"
    if "N \<le> 16" for N
    using that assms by (simp_all add: prev_def del: drop_append take_append)
  show ?thesis
    using assms p(1) [of 1] p(1) [of 2] p(1) [of 3] p(2) [of 1] p(2) [of 2] p(2) [of 3]
    by (simp add: check_multibyte_lengths_def check_special_cases_def must_be_2_3_continuation_def Let_def
        simd_xor_def simd_and_def simd_or_def saturating_sub_def lookup_16_def shr_def map2_splat
        unat_nibble byte_error_def first_class_def second_class_def)
qed

lemma chunk_errors:
  assumes "length input = 16" "length prev_input = 16"
  shows "length (check_multibyte_lengths input prev_input (check_special_cases input (prev 1 input prev_input))) = 16"
    and "any_bits_set_anywhere (check_multibyte_lengths input prev_input (check_special_cases input (prev 1 input prev_input)))
      \<longleftrightarrow> \<not> ok_from (prev_input ! 13) (prev_input ! 14) (prev_input ! 15) input"
proof -
  let ?e = "check_multibyte_lengths input prev_input (check_special_cases input (prev 1 input prev_input))"
  show l: "length ?e = 16"
    using assms by (simp add: check_multibyte_lengths_def check_special_cases_def must_be_2_3_continuation_def Let_def
        simd_xor_def simd_and_def simd_or_def saturating_sub_def lookup_16_def shr_def prev_def splat_def)
  have tl: "prev_input = take 13 prev_input @ [prev_input ! 13, prev_input ! 14, prev_input ! 15]"
  proof -
    have "drop 13 prev_input = [prev_input ! 13, prev_input ! 14, prev_input ! 15]"
      using assms(2) by (simp add: Cons_nth_drop_Suc [symmetric] numeral_eq_Suc)
    then show ?thesis using append_take_drop_id [of 13 prev_input] by simp
  qed
  let ?t = "[prev_input ! 13, prev_input ! 14, prev_input ! 15]"
  have w: "(prev_input @ input) ! (13 + j) = (?t @ input) ! j" for j
    using assms(2) by (subst tl) (simp add: nth_append)
  have e: "?e ! i = byte_error ((?t @ input) ! i) ((tl ?t @ input) ! i) ((tl (tl ?t) @ input) ! i) (input ! i)" if "i < 16" for i
    using chunk_errors_nth [OF assms that] w [of i] w [of "Suc i"] w [of "Suc (Suc i)"] by simp
  show "any_bits_set_anywhere ?e \<longleftrightarrow> \<not> ok_from (prev_input ! 13) (prev_input ! 14) (prev_input ! 15) input"
    using assms(1) e l by (auto simp: any_bits_set_anywhere_def list_ex_length ok_from_nth)
qed

lemma is_incomplete_pending:
  assumes "length input = 16"
  shows "length (is_incomplete input) = 16"
    and "any_bits_set_anywhere (is_incomplete input) \<longleftrightarrow> pending (input ! 13) (input ! 14) (input ! 15)"
proof -
  show l: "length (is_incomplete input) = 16" using assms by (simp add: is_incomplete_def vcgtq_u8_def)
  have 255: "\<not> (255 :: u8) < b" for b by (rule u8_all [of _ b]) (simp_all add: byte_order)
  have n: "is_incomplete input ! i = (if i < 13 then 0 else if (replicate 13 255 @ [239, 223, 191]) ! i < input ! i then 255 else 0)"
    if "i < 16" for i
    using that assms 255 by (simp add: is_incomplete_def vcgtq_u8_def nth_append)
  have "i \<in> {13, 14, 15}" if "i < 16" "is_incomplete input ! i \<noteq> 0" for i
  proof -
    have "\<not> i < 13" using n that by (metis (full_types))
    then show ?thesis using that(1) by auto
  qed
  moreover have "i < 16" if "i \<in> {13, 14, 15 :: nat}" for i using that by auto
  ultimately have "(\<exists>i < 16. is_incomplete input ! i \<noteq> 0) \<longleftrightarrow> (\<exists>i \<in> {13, 14, 15}. is_incomplete input ! i \<noteq> 0)"
    by blast
  then have "any_bits_set_anywhere (is_incomplete input) \<longleftrightarrow> (\<exists>i \<in> {13, 14, 15}. is_incomplete input ! i \<noteq> 0)"
    unfolding any_bits_set_anywhere_def list_ex_length l .
  also have "\<dots> \<longleftrightarrow> pending (input ! 13) (input ! 14) (input ! 15)"
    by (simp add: n pending_def nth_append) (auto simp: byte_order)
  finally show "any_bits_set_anywhere (is_incomplete input) \<longleftrightarrow> pending (input ! 13) (input ! 14) (input ! 15)" .
qed

section \<open>Blocks\<close>

lemma max_val_less: "max_val v < 0x80 \<longleftrightarrow> (\<forall>b \<in> set v. b < 0x80)"
  by (induction v) (auto simp: max_val_def)

lemma or_less_128: "a OR b < (0x80 :: u8) \<longleftrightarrow> a < 0x80 \<and> b < 0x80"
proof -
  have top: "x < 0x80 \<longleftrightarrow> \<not> bit x 7" for x :: u8
    by (rule u8_all [of _ x]) (simp_all add: byte_order bit_1_iff)
  show ?thesis by (simp add: top bit_or_iff)
qed

lemma simd_or_less_128:
  "length a = length b \<Longrightarrow> (\<forall>x \<in> set (simd_or a b). x < 0x80) \<longleftrightarrow> (\<forall>x \<in> set a \<union> set b. x < 0x80)"
  by (induction a b rule: list_induct2) (auto simp: simd_or_def or_less_128)

lemma is_ascii_iff: "wf_block blk \<Longrightarrow> is_ascii blk \<longleftrightarrow> (\<forall>b \<in> set (concat blk). b < 0x80)"
  by (elim wf_block_obtain) (simp add: is_ascii_def max_val_less reduce_or_def simd_or_less_128 ball_Un)

text \<open>What the checker knows after the bytes \<open>bs\<close>: an error, or none so far, together with whether a
  character is incomplete; the remembered register ends like the input does, or both end between
  two characters.\<close>

definition checker_inv :: "utf8_checker \<Rightarrow> u8 list \<Rightarrow> bool" where
  "checker_inv c bs \<longleftrightarrow>
    length (uc_error c) = 16 \<and> length (prev_input_block c) = 16 \<and> length (prev_incomplete c) = 16 \<and>
    (any_bits_set_anywhere (uc_error c) \<longleftrightarrow> \<not> ok_from 0 0 0 bs) \<and>
    (ok_from 0 0 0 bs \<longrightarrow>
      (any_bits_set_anywhere (prev_incomplete c) \<longleftrightarrow> pending_after 0 0 0 bs) \<and>
      (let b = prev_input_block c
       in context_after (0, 0, 0) bs = (b ! 13, b ! 14, b ! 15) \<or>
          (\<not> pending_after 0 0 0 bs \<and> \<not> pending (b ! 13) (b ! 14) (b ! 15))))"

lemma checker_inv_init: "checker_inv utf8_checker_init []"
  by (simp add: checker_inv_def utf8_checker_init_def splat_def any_bits_set_anywhere_def pending_def list_ex_iff)

lemma check_utf8_bytes_error:
  assumes "length (uc_error c) = 16" "length input = 16" "length prev_input = 16"
  shows "length (uc_error (check_utf8_bytes c input prev_input)) = 16"
    and "any_bits_set_anywhere (uc_error (check_utf8_bytes c input prev_input)) \<longleftrightarrow>
      any_bits_set_anywhere (uc_error c) \<or> \<not> ok_from (prev_input ! 13) (prev_input ! 14) (prev_input ! 15) input"
  using assms chunk_errors [OF assms(2,3)]
  by (simp_all add: check_utf8_bytes_def Let_def any_bits_or)

lemma ok_from_block:
  assumes "length a = 16" "length b = 16" "length c = 16" "length d = 16"
  shows "ok_from p3 p2 p1 (a @ b @ c @ d) \<longleftrightarrow> ok_from p3 p2 p1 a \<and> ok_from (a ! 13) (a ! 14) (a ! 15) b \<and>
    ok_from (b ! 13) (b ! 14) (b ! 15) c \<and> ok_from (c ! 13) (c ! 14) (c ! 15) d"
  using assms by (simp add: ok_from_append context_after_long)

lemma checker_inv_ascii:
  assumes inv: "checker_inv c bs" and wf: "wf_block blk" and ascii: "\<forall>b \<in> set (concat blk). b < 0x80"
  shows "checker_inv (c\<lparr>uc_error := simd_or (uc_error c) (prev_incomplete c)\<rparr>) (bs @ concat blk)"
proof -
  obtain p3 p2 p1 where ctx: "context_after (0, 0, 0) bs = (p3, p2, p1)" by (metis surj_pair)
  have pend: "pending_after 0 0 0 bs = pending p3 p2 p1" by (simp add: pending_after_context ctx)
  obtain y ys where ne: "concat blk = y # ys" using length_concat_block [OF wf] by (cases "concat blk") auto
  have l: "length (uc_error c) = length (prev_incomplete c)" using inv by (simp add: checker_inv_def)
  have ok: "ok_from 0 0 0 (bs @ concat blk) \<longleftrightarrow> ok_from 0 0 0 bs \<and> \<not> pending p3 p2 p1"
    using ascii_after_pending [of p3 p2 p1 y] ascii_not_pending [of p3 p2 p1 "concat blk"] ascii
    by (auto simp: ok_from_append ctx ne)
  have pa: "\<not> pending_after 0 0 0 (bs @ concat blk)" if "\<not> pending p3 p2 p1"
    using ascii_not_pending [OF that ascii] by (simp add: pending_after_context context_after_append ctx)
  show ?thesis using inv ok pa pend ctx any_bits_or [OF l] by (auto simp: checker_inv_def Let_def)
qed

lemma checker_inv_full:
  assumes inv: "checker_inv c bs" and wf: "wf_block blk" and full: "\<not> is_ascii blk"
  shows "checker_inv (check_next_input c blk) (bs @ concat blk)"
proof -
  from wf obtain a b d e where blk: "blk = [a, b, d, e]" and l: "length a = 16" "length b = 16" "length d = 16" "length e = 16"
    by (rule wf_block_obtain)
  let ?p = "prev_input_block c"
  have lp: "length ?p = 16" "length (uc_error c) = 16" using inv by (simp_all add: checker_inv_def)
  obtain p3 p2 p1 where ctx: "context_after (0, 0, 0) bs = (p3, p2, p1)" by (metis surj_pair)
  have start: "ok_from (?p ! 13) (?p ! 14) (?p ! 15) bs' = ok_from p3 p2 p1 bs'" if "ok_from 0 0 0 bs" for bs'
    using inv that ctx ok_from_not_pending [of "?p ! 13" "?p ! 14" "?p ! 15" p3 p2 p1 bs']
    by (auto simp: checker_inv_def Let_def pending_after_context)
  have "any_bits_set_anywhere (uc_error (check_next_input c blk)) \<longleftrightarrow>
      \<not> ok_from 0 0 0 bs \<or> \<not> ok_from (?p ! 13) (?p ! 14) (?p ! 15) (concat blk)"
    using inv full l lp by (auto simp: check_next_input_def Let_def blk check_utf8_bytes_error ok_from_block checker_inv_def)
  also have "\<dots> \<longleftrightarrow> \<not> ok_from 0 0 0 (bs @ concat blk)" using start by (auto simp: ok_from_append ctx)
  finally have err: "any_bits_set_anywhere (uc_error (check_next_input c blk)) \<longleftrightarrow> \<not> ok_from 0 0 0 (bs @ concat blk)" .
  have last: "context_after (0, 0, 0) (bs @ concat blk) = (e ! 13, e ! 14, e ! 15)"
    using l by (simp add: blk context_after_append context_after_long)
  have "uc_error (check_next_input c blk) = uc_error (check_utf8_bytes (check_utf8_bytes (check_utf8_bytes
      (check_utf8_bytes c a ?p) b a) d b) e d)" "prev_incomplete (check_next_input c blk) = is_incomplete e"
    "prev_input_block (check_next_input c blk) = e"
    using full by (simp_all add: check_next_input_def Let_def blk)
  then show ?thesis
    using err last l lp is_incomplete_pending [OF l(4)]
    by (auto simp: checker_inv_def Let_def pending_after_context check_utf8_bytes_error)
qed

theorem checker_inv_next:
  assumes "checker_inv c bs" "wf_block blk"
  shows "checker_inv (check_next_input c blk) (bs @ concat blk)"
proof (cases "is_ascii blk")
  case True
  then show ?thesis
    using checker_inv_ascii [OF assms] is_ascii_iff [OF assms(2)] by (simp add: check_next_input_def)
qed (rule checker_inv_full [OF assms])

lemma checker_inv_verdict:
  assumes "checker_inv c bs"
  shows "errors (check_eof c) = (if utf8_valid bs then SUCCESS else UTF8_ERROR)"
proof -
  have "\<not> pending 0 0 0" by (simp add: pending_def byte_order)
  then have v: "utf8_valid bs \<longleftrightarrow> ok_from 0 0 0 bs \<and> \<not> pending_after 0 0 0 bs"
    using accepts_valid [of 0 0 0 bs] by (simp add: accepts_def)
  have "length (uc_error c) = length (prev_incomplete c)" using assms by (simp add: checker_inv_def)
  then show ?thesis using assms v by (auto simp: errors_def check_eof_def any_bits_or checker_inv_def)
qed

section \<open>The validator accepts exactly the well-formed texts\<close>

text \<open>The state of a reader that has delivered \<open>k\<close> full blocks of the first \<open>len\<close> bytes.\<close>

definition reader_at :: "u8 list \<Rightarrow> nat \<Rightarrow> nat \<Rightarrow> buf_block_reader" where
  "reader_at buf len k = (buf_block_reader_init 64 buf len)\<lparr>rd_idx := 64 * k\<rparr>"

lemma reader_at_0: "buf_block_reader_init 64 buf len = reader_at buf len 0"
  by (simp add: reader_at_def buf_block_reader_init_def)

lemma advance_reader_at: "advance 64 (reader_at buf len k) = reader_at buf len (Suc k)"
  by (simp add: reader_at_def advance_def buf_block_reader_init_def)

lemma has_full_block_at: "has_full_block (reader_at buf len k) \<longleftrightarrow> 64 * k + 64 < len"
  by (auto simp: reader_at_def has_full_block_def buf_block_reader_init_def)

lemma full_block_at:
  assumes "has_full_block (reader_at buf len k)" "len \<le> length buf"
  shows "wf_block (simd8x64_load (full_block (reader_at buf len k)))"
    and "concat (simd8x64_load (full_block (reader_at buf len k))) = take 64 (drop (64 * k) buf)"
proof -
  have fb: "full_block (reader_at buf len k) = drop (64 * k) buf"
    by (simp add: full_block_def reader_at_def buf_block_reader_init_def)
  have le: "64 \<le> length (drop (64 * k) buf)" using assms by (simp add: has_full_block_at)
  have "simd8x64_load (drop (64 * k) buf) = simd8x64_load (take 64 (drop (64 * k) buf))"
    by (simp add: simd8x64_load_def take_drop)
  then show "wf_block (simd8x64_load (full_block (reader_at buf len k)))"
    "concat (simd8x64_load (full_block (reader_at buf len k))) = take 64 (drop (64 * k) buf)"
    using wf_block_load [of "take 64 (drop (64 * k) buf)"] concat_load [of "take 64 (drop (64 * k) buf)"] le
    by (simp_all add: fb)
qed

lemma take_full_block: "64 * k + 64 \<le> length buf \<Longrightarrow> take (64 * k) buf @ take 64 (drop (64 * k) buf) = take (64 * Suc k) buf"
  by (simp add: take_add add.commute [of 64])

lemma get_remainder_at:
  assumes "\<not> has_full_block (reader_at buf len k)" "64 * k < len" "len \<le> length buf"
  shows "get_remainder 64 (reader_at buf len k) dst =
    (take (len - 64 * k) (drop (64 * k) buf) @ replicate (64 * k + 64 - len) 0x20, len - 64 * k)"
    and "length (fst (get_remainder 64 (reader_at buf len k) dst)) = 64"
    and "take (64 * k) buf @ fst (get_remainder 64 (reader_at buf len k) dst) =
      take len buf @ replicate (64 * k + 64 - len) 0x20"
proof -
  show 1: "get_remainder 64 (reader_at buf len k) dst =
    (take (len - 64 * k) (drop (64 * k) buf) @ replicate (64 * k + 64 - len) 0x20, len - 64 * k)"
    using assms(2) by (simp add: get_remainder_def reader_at_def buf_block_reader_init_def Let_def)
  show "length (fst (get_remainder 64 (reader_at buf len k) dst)) = 64"
    using assms by (simp add: 1 has_full_block_at)
  have "take (64 * k) buf @ take (len - 64 * k) (drop (64 * k) buf) = take len buf"
    using assms(2) take_add [of "64 * k" "len - 64 * k" buf] by simp
  then show "take (64 * k) buf @ fst (get_remainder 64 (reader_at buf len k) dst) =
      take len buf @ replicate (64 * k + 64 - len) 0x20"
    by (simp only: 1 fst_conv append_assoc [symmetric])
qed

lemma validate_loop_inv:
  assumes "checker_inv c (take (64 * k) buf)" "64 * k < len \<or> k = 0 \<and> len = 0" "len \<le> length buf"
  shows "\<exists>c' k'. validate_loop c (reader_at buf len k) = (c', reader_at buf len k') \<and>
    checker_inv c' (take (64 * k') buf) \<and> (64 * k' < len \<or> k' = 0 \<and> len = 0) \<and> \<not> has_full_block (reader_at buf len k')"
  using assms(1,2)
proof (induction "len - 64 * k" arbitrary: c k rule: less_induct)
  case less
  show ?case
  proof (cases "has_full_block (reader_at buf len k)")
    case True
    then have k: "64 * k + 64 < len" by (simp add: has_full_block_at)
    have "checker_inv (check_next_input c (simd8x64_load (full_block (reader_at buf len k)))) (take (64 * Suc k) buf)"
      using checker_inv_next [OF less.prems(1) full_block_at(1) [OF True assms(3)]] k assms(3)
      by (simp only: full_block_at(2) [OF True assms(3)] take_full_block [of k buf, OF order_trans [OF less_imp_le [OF k] assms(3)]])
    then show ?thesis
      using less.hyps [of "Suc k"] k True by (simp add: validate_loop.simps [of c] advance_reader_at del: mult_Suc_right) simp
  next
    case False
    then show ?thesis using less.prems by (subst validate_loop.simps) auto
  qed
qed

text \<open>C14: the vectorised validation (three table lookups on the nibbles of neighbouring bytes, block by
  block, with a padded remainder) accepts exactly the well-formed UTF-8 texts.\<close>

theorem validate_utf8_correct:
  assumes "len \<le> length input"
  shows "generic_validate_utf8 input len = utf8_valid (take len input)"
proof -
  have "checker_inv utf8_checker_init (take (64 * 0) input)" using checker_inv_init by simp
  then obtain c k where loop: "validate_loop utf8_checker_init (reader_at input len 0) = (c, reader_at input len k)"
    and inv: "checker_inv c (take (64 * k) input)" and k: "64 * k < len \<or> k = 0 \<and> len = 0"
    and stop: "\<not> has_full_block (reader_at input len k)"
    using validate_loop_inv [of utf8_checker_init 0 input len] assms by auto
  define block where "block = fst (get_remainder 64 (reader_at input len k) (replicate 64 0))"
  have block: "length block = 64 \<and> (\<exists>pad. take (64 * k) input @ block = take len input @ pad \<and> (\<forall>b \<in> set pad. b < 0x80))"
  proof (cases "len = 0")
    case True
    then show ?thesis using k
      by (simp add: block_def get_remainder_def reader_at_def buf_block_reader_init_def exI [of _ "replicate 64 0"])
  next
    case False
    then have "64 * k < len" using k by simp
    note r = get_remainder_at [OF stop this assms, of "replicate 64 0"]
    show ?thesis
      unfolding block_def using r(2,3) by (intro conjI exI [of _ "replicate (64 * k + 64 - len) 0x20"]) auto
  qed
  then obtain pad where l: "length block = 64" and pad: "take (64 * k) input @ block = take len input @ pad" "\<forall>b \<in> set pad. b < 0x80"
    by blast
  have "checker_inv (check_next_input c (simd8x64_load block)) (take len input @ pad)"
    using checker_inv_next [OF inv wf_block_load [OF l]] by (simp only: concat_load [OF l] pad)
  then have "errors (check_eof (check_next_input c (simd8x64_load block))) = SUCCESS \<longleftrightarrow> utf8_valid (take len input)"
    using checker_inv_verdict utf8_valid_append_ascii [OF pad(2)] by simp
  then show ?thesis
    by (simp add: generic_validate_utf8_def reader_at_0 loop block_def case_prod_beta Let_def)
qed

theorem validate_utf8_correct_witness:
  "generic_validate_utf8 [0x61, 0xC3, 0xA9] 3 \<and> \<not> generic_validate_utf8 [0x61, 0xC3, 0xA9] 2"
  using validate_utf8_correct [of 3 "[0x61, 0xC3, 0xA9]"] validate_utf8_correct [of 2 "[0x61, 0xC3, 0xA9]"]
  by (simp add: follow_def cont_def)

end
