(* ===== verification/Simd_Indexer.thy ===== *)
theory Simd_Indexer
  imports Simd_Utf8 "HOL-Library.Monad_Syntax"
begin

text \<open>
  The structural indexer of \<^verbatim>\<open>simdjson\<close> stage 1 (\<^verbatim>\<open>json_structural_indexer.h\<close> and
  \<^verbatim>\<open>find_next_document_index.h\<close>, ARM64 kernel): it runs the block scanner over the input, writes the
  byte offsets of all token starts into the parser's index array, and reports the errors stage 1 can
  see. The index array is a list of fixed length; a read or write outside of it is undefined
  behaviour, the value \<open>None\<close>, so that a result \<open>Some r\<close> also says that every access stayed inside.
\<close>

section \<open>The parser's state\<close>

datatype stage1_mode = regular | streaming_partial | streaming_final

definition is_streaming :: "stage1_mode \<Rightarrow> bool" where
  "is_streaming mode \<longleftrightarrow> mode \<noteq> regular"

record dom_parser_implementation =
  dp_buf :: "u8 list"
  dp_len :: nat
  structural_indexes :: "u32 list"
  n_structural_indexes :: u32
  next_structural_index :: u32
  dp_capacity :: nat

definition SIMDJSON_MAXSIZE_BYTES :: nat where
  "SIMDJSON_MAXSIZE_BYTES = 0xFFFFFFFF"

definition SIMDJSON_ROUNDUP_64 :: "nat \<Rightarrow> nat" where
  "SIMDJSON_ROUNDUP_64 a = (a + 63) div 64 * 64"

text \<open>\<open>alloc n\<close> is what \<open>new (std::nothrow) uint32_t[n]\<close> delivers: \<open>None\<close>, or \<open>n\<close> integers of any value.\<close>

definition set_capacity :: "(nat \<Rightarrow> u32 list option) \<Rightarrow> nat \<Rightarrow> dom_parser_implementation \<Rightarrow> error_code \<times> dom_parser_implementation" where
  "set_capacity alloc capacity p =
    (if capacity > SIMDJSON_MAXSIZE_BYTES then (CAPACITY, p)
     else let max_structures = SIMDJSON_ROUNDUP_64 capacity + 2 + 7
          in case alloc max_structures of
               None \<Rightarrow> (MEMALLOC, p\<lparr>structural_indexes := [], dp_capacity := 0\<rparr>)
             | Some mem \<Rightarrow> (SUCCESS, p\<lparr>structural_indexes := mem[0 := 0], n_structural_indexes := 0, dp_capacity := capacity\<rparr>))"

text \<open>Checked accesses.\<close>

definition store :: "'a list \<Rightarrow> nat \<Rightarrow> 'a \<Rightarrow> 'a list option" where
  "store mem i v = (if i < length mem then Some (mem[i := v]) else None)"

definition load :: "'a list \<Rightarrow> nat \<Rightarrow> 'a option" where
  "load mem i = (if i < length mem then Some (mem ! i) else None)"

section \<open>Writing the positions of the set bits\<close>

record bit_indexer =
  bi_mem :: "u32 list"
  bi_tail :: nat

text \<open>The memory and the mask are threaded through; \<open>idx\<close> and the tail are fixed.\<close>

definition write_index :: "nat \<Rightarrow> u32 \<Rightarrow> nat \<Rightarrow> u32 list \<times> u64 \<Rightarrow> (u32 list \<times> u64) option" where
  "write_index tail idx i s =
    (let (mem, rev_bits) = s; lz = leading_zeroes rev_bits
     in do { mem \<leftarrow> store mem (tail + i) (idx + of_nat lz); Some (mem, zero_leading_bit rev_bits lz) })"

text \<open>The counts that the two templates return are used by no caller.\<close>

fun write_indexes :: "nat \<Rightarrow> u32 \<Rightarrow> nat \<Rightarrow> nat \<Rightarrow> u32 list \<times> u64 \<Rightarrow> (u32 list \<times> u64) option" where
  "write_indexes tail idx START N s =
    do { s \<leftarrow> write_index tail idx START s;
         if N > 1 then write_indexes tail idx (if N - 1 > 0 then START + 1 else START) (N - 1) s else Some s }"

declare write_indexes.simps [simp del]

definition STEP :: nat where "STEP = 4"
definition STEP_UNTIL :: nat where "STEP_UNTIL = 24"

function write_indexes_stepped :: "nat \<Rightarrow> u32 \<Rightarrow> nat \<Rightarrow> nat \<Rightarrow> nat \<Rightarrow> u32 list \<times> u64 \<Rightarrow> (u32 list \<times> u64) option" where
  "write_indexes_stepped tail idx START END cnt s =
    do { s \<leftarrow> write_indexes tail idx START STEP s;
         if START + STEP < END \<and> START + STEP < cnt
         then write_indexes_stepped tail idx (if START + STEP < END then START + STEP else END) END cnt s
         else Some s }"
  by auto
termination
  by (relation "measure (\<lambda>(tail, idx, START, END, cnt, s). END - START)") (auto simp: STEP_def)

declare write_indexes_stepped.simps [simp del]

fun write_index_range :: "nat \<Rightarrow> u32 \<Rightarrow> nat list \<Rightarrow> u32 list \<times> u64 \<Rightarrow> (u32 list \<times> u64) option" where
  "write_index_range tail idx [] s = Some s"
| "write_index_range tail idx (i # is) s = do { s \<leftarrow> write_index tail idx i s; write_index_range tail idx is s }"

definition indexer_write :: "bit_indexer \<Rightarrow> u32 \<Rightarrow> u64 \<Rightarrow> bit_indexer option" where
  "indexer_write b idx bits =
    (if bits = 0 then Some b
     else let cnt = count_ones bits; bits = reverse_bits bits
          in do { s \<leftarrow> write_indexes_stepped (bi_tail b) idx 0 STEP_UNTIL cnt (bi_mem b, bits);
                  (mem, bits) \<leftarrow> (if STEP_UNTIL < cnt then write_index_range (bi_tail b) idx [STEP_UNTIL..<cnt] s else Some s);
                  Some (b\<lparr>bi_mem := mem, bi_tail := bi_tail b + cnt\<rparr>) })"

section \<open>Document boundaries\<close>

text \<open>The characters \<^verbatim>\<open>{ } [ ] : ,\<close>.\<close>

abbreviation LBRACE :: u8 where "LBRACE \<equiv> 0x7B"
abbreviation RBRACE :: u8 where "RBRACE \<equiv> 0x7D"
abbreviation LBRACKET :: u8 where "LBRACKET \<equiv> 0x5B"
abbreviation RBRACKET :: u8 where "RBRACKET \<equiv> 0x5D"
abbreviation COLON :: u8 where "COLON \<equiv> 0x3A"
abbreviation COMMA :: u8 where "COMMA \<equiv> 0x2C"

definition structural_char :: "dom_parser_implementation \<Rightarrow> nat \<Rightarrow> u8 option" where
  "structural_char p i = do { j \<leftarrow> load (structural_indexes p) i; load (dp_buf p) (unat j) }"

text \<open>The loop, from \<open>i\<close> down to 1: either the returned index, or the two counts at the end.\<close>

fun document_loop :: "dom_parser_implementation \<Rightarrow> nat \<Rightarrow> int \<Rightarrow> int \<Rightarrow> (nat + int \<times> int) option" where
  "document_loop p 0 arr_cnt obj_cnt = Some (Inr (arr_cnt, obj_cnt))"
| "document_loop p (Suc i) arr_cnt obj_cnt =
    do { b \<leftarrow> structural_char p (Suc i);
         if b = COLON \<or> b = COMMA then document_loop p i arr_cnt obj_cnt
         else if b = RBRACE then document_loop p i arr_cnt (obj_cnt - 1)
         else if b = RBRACKET then document_loop p i (arr_cnt - 1) obj_cnt
         else
           let obj_cnt = (if b = LBRACE then obj_cnt + 1 else obj_cnt);
               arr_cnt = (if b = LBRACKET then arr_cnt + 1 else arr_cnt)
           in do { a \<leftarrow> structural_char p i;
                   if a = LBRACE \<or> a = LBRACKET \<or> a = COLON \<or> a = COMMA then document_loop p i arr_cnt obj_cnt
                   else if arr_cnt = 0 \<and> obj_cnt = 0 then Some (Inl (unat (n_structural_indexes p)))
                   else Some (Inl (Suc i)) } }"

definition find_next_document_index :: "dom_parser_implementation \<Rightarrow> u32 option" where
  "find_next_document_index p =
    (if n_structural_indexes p = 0 then Some 0
     else do {
       r \<leftarrow> document_loop p (unat (n_structural_indexes p) - 1) 0 0;
       (case r of
          Inl i \<Rightarrow> Some (of_nat i)
        | Inr (arr_cnt, obj_cnt) \<Rightarrow> do {
            b \<leftarrow> structural_char p 0;
            let obj_cnt = (if b = RBRACE then obj_cnt - 1 else if b = LBRACE then obj_cnt + 1 else obj_cnt);
                arr_cnt = (if b = RBRACKET then arr_cnt - 1 else if b = LBRACKET then arr_cnt + 1 else arr_cnt)
            in if arr_cnt = 0 \<and> obj_cnt = 0 then Some (n_structural_indexes p) else Some 0 }) })"

text \<open>A character that the end of the window cuts is left for the next window.\<close>

definition trim_partial_utf8 :: "u8 list \<Rightarrow> nat \<Rightarrow> nat" where
  "trim_partial_utf8 buf len =
    (if len < 3 then
       (if len = 2 then
          (if buf ! (len - 1) \<ge> 0xc0 then len - 1 else if buf ! (len - 2) \<ge> 0xe0 then len - 2 else len)
        else if len = 1 then (if buf ! (len - 1) \<ge> 0xc0 then len - 1 else len)
        else len)
     else if buf ! (len - 1) \<ge> 0xc0 then len - 1
     else if buf ! (len - 2) \<ge> 0xe0 then len - 2
     else if buf ! (len - 3) \<ge> 0xf0 then len - 3
     else len)"

section \<open>The indexer\<close>

record json_structural_indexer =
  si_scanner :: json_scanner
  si_checker :: utf8_checker
  si_indexer :: bit_indexer
  prev_structurals :: u64
  unescaped_chars_error :: u64

definition json_structural_indexer_init :: "u32 list \<Rightarrow> json_structural_indexer" where
  "json_structural_indexer_init mem =
    \<lparr>si_scanner = json_scanner_init, si_checker = utf8_checker_init, si_indexer = \<lparr>bi_mem = mem, bi_tail = 0\<rparr>,
     prev_structurals = 0, unescaped_chars_error = 0\<rparr>"

text \<open>\<open>uint32_t(idx - 64)\<close>, with the subtraction of \<open>size_t\<close>.\<close>

definition block_base :: "nat \<Rightarrow> u32" where
  "block_base idx = ucast (of_nat idx - 64 :: u64)"

definition indexer_next :: "json_structural_indexer \<Rightarrow> simd8x64 \<Rightarrow> json_block \<Rightarrow> nat \<Rightarrow> json_structural_indexer option" where
  "indexer_next s blk block idx =
    (let unescaped = lteq_mask blk 0x1F;
         s = s\<lparr>si_checker := check_next_input (si_checker s) blk\<rparr>
     in do { ix \<leftarrow> indexer_write (si_indexer s) (block_base idx) (prev_structurals s);
             Some (s\<lparr>si_indexer := ix, prev_structurals := structural_start block,
                     unescaped_chars_error := unescaped_chars_error s
                       OR non_quote_inside_string (jb_string block) unescaped\<rparr>) })"

definition indexer_step :: "json_structural_indexer \<Rightarrow> u8 list \<Rightarrow> buf_block_reader \<Rightarrow>
    (json_structural_indexer \<times> buf_block_reader) option" where
  "indexer_step s block reader =
    (let in_1 = simd8x64_load block;
         (block_1, sc) = scanner_next (si_scanner s) in_1;
         s = s\<lparr>si_scanner := sc\<rparr>
     in do { s \<leftarrow> indexer_next s in_1 block_1 (block_index reader); Some (s, advance 64 reader) })"

text \<open>The end of \<open>finish\<close>: what remains to be done in each mode once the indexes are complete.\<close>

definition finish_mode :: "stage1_mode \<Rightarrow> bool \<Rightarrow> error_code \<Rightarrow> nat \<Rightarrow> dom_parser_implementation \<Rightarrow>
    (error_code \<times> dom_parser_implementation) option" where
  "finish_mode partial have_unclosed_string verdict len p =
    (case partial of
       streaming_partial \<Rightarrow>
         let p = (if have_unclosed_string then p\<lparr>n_structural_indexes := n_structural_indexes p - 1\<rparr> else p)
         in if have_unclosed_string \<and> n_structural_indexes p = 0 then Some (CAPACITY, p)
            else do {
              new_structural_indexes \<leftarrow> find_next_document_index p;
              if new_structural_indexes = 0 \<and> n_structural_indexes p > 0
              then do {
                first \<leftarrow> load (structural_indexes p) 0;
                if first = 0 then Some (CAPACITY, p) else Some (EMPTY, p\<lparr>n_structural_indexes := 0\<rparr>) }
              else Some (verdict, p\<lparr>n_structural_indexes := new_structural_indexes\<rparr>) }
     | streaming_final \<Rightarrow> do {
         let p = (if have_unclosed_string then p\<lparr>n_structural_indexes := n_structural_indexes p - 1\<rparr> else p);
         n \<leftarrow> find_next_document_index p;
         prior \<leftarrow> load (structural_indexes p) (unat n);
         m \<leftarrow> store (structural_indexes p) (unat n + 1) prior;
         m \<leftarrow> store m (unat n) (of_nat len);
         let p = p\<lparr>structural_indexes := m, n_structural_indexes := n\<rparr>;
         if n = 0 then Some (EMPTY, p) else Some (verdict, p) }
     | regular \<Rightarrow> Some (verdict, p))"

definition indexer_finish :: "json_structural_indexer \<Rightarrow> dom_parser_implementation \<Rightarrow> nat \<Rightarrow> nat \<Rightarrow> stage1_mode \<Rightarrow>
    (error_code \<times> dom_parser_implementation) option" where
  "indexer_finish s p idx len partial = do {
     ix \<leftarrow> indexer_write (si_indexer s) (block_base idx) (prev_structurals s);
     let p = p\<lparr>structural_indexes := bi_mem ix\<rparr>;
         error = scanner_finish (si_scanner s);
         should_we_exit = (if is_streaming partial then error \<noteq> SUCCESS \<and> error \<noteq> UNCLOSED_STRING else error \<noteq> SUCCESS);
         have_unclosed_string = (error = UNCLOSED_STRING)
     in if should_we_exit then Some (error, p)
        else if unescaped_chars_error s \<noteq> 0 then Some (UNESCAPED_CHARS, p)
        else do {
          let n = (of_nat (bi_tail ix) :: u32);
          m \<leftarrow> store (structural_indexes p) (unat n) (of_nat len);
          m \<leftarrow> store m (unat n + 1) (of_nat len);
          m \<leftarrow> store m (unat n + 2) 0;
          let p = p\<lparr>structural_indexes := m, n_structural_indexes := n, next_structural_index := 0\<rparr>;
          if n = 0 then Some (EMPTY, p)
          else do {
            last \<leftarrow> load m (unat n - 1);
            if unat last > len then Some (UNEXPECTED_ERROR, p)
            else finish_mode partial have_unclosed_string (errors (check_eof (si_checker s))) len p } } }"

function index_loop :: "json_structural_indexer \<Rightarrow> buf_block_reader \<Rightarrow> (json_structural_indexer \<times> buf_block_reader) option" where
  "index_loop s reader =
    (if has_full_block reader
     then (case indexer_step s (full_block reader) reader of
             None \<Rightarrow> None
           | Some (s', reader') \<Rightarrow> index_loop s' reader')
     else Some (s, reader))"
  by auto
termination
proof (relation "measure (\<lambda>(s, r). lenminusstep r - rd_idx r)", simp)
  fix s reader x s' reader'
  assume "has_full_block reader" "indexer_step s (full_block reader) reader = Some x" "(s', reader') = x"
  then show "((s', reader'), s, reader) \<in> measure (\<lambda>(s, r). lenminusstep r - rd_idx r)"
    by (auto simp: indexer_step_def Let_def has_full_block_def advance_def case_prod_beta split: Option.bind_splits)
qed

declare index_loop.simps [simp del]

definition indexer_index :: "u8 list \<Rightarrow> nat \<Rightarrow> dom_parser_implementation \<Rightarrow> stage1_mode \<Rightarrow>
    (error_code \<times> dom_parser_implementation) option" where
  "indexer_index buf len p partial =
    (if len > dp_capacity p then Some (CAPACITY, p)
     else if len = 0 then Some (EMPTY, p)
     else let len = (if is_streaming partial then trim_partial_utf8 buf len else len)
          in if is_streaming partial \<and> len = 0 then Some (UTF8_ERROR, p)
             else do {
               (s, reader) \<leftarrow> index_loop (json_structural_indexer_init (structural_indexes p)) (buf_block_reader_init 64 buf len);
               let (block, n) = get_remainder 64 reader (replicate 64 0);
               if n = 0 then Some (UNEXPECTED_ERROR, p\<lparr>structural_indexes := bi_mem (si_indexer s)\<rparr>)
               else do {
                 (s, reader) \<leftarrow> indexer_step s block reader;
                 indexer_finish s p (block_index reader) len partial } })"

definition stage1 :: "dom_parser_implementation \<Rightarrow> u8 list \<Rightarrow> nat \<Rightarrow> stage1_mode \<Rightarrow>
    (error_code \<times> dom_parser_implementation) option" where
  "stage1 p buf len streaming = indexer_index buf len (p\<lparr>dp_buf := buf, dp_len := len\<rparr>) streaming"

section \<open>The bit indexer writes the positions in order\<close>

text \<open>\<open>n\<close> successive writes from slot \<open>i\<close> on.\<close>

fun write_many :: "nat \<Rightarrow> u32 \<Rightarrow> nat \<Rightarrow> nat \<Rightarrow> u32 list \<times> u64 \<Rightarrow> (u32 list \<times> u64) option" where
  "write_many tail idx i 0 s = Some s"
| "write_many tail idx i (Suc n) s = do { s \<leftarrow> write_index tail idx i s; write_many tail idx (Suc i) n s }"

lemma write_many_add:
  "write_many tail idx i (m + n) s = do { s \<leftarrow> write_many tail idx i m s; write_many tail idx (i + m) n s }"
proof (induction m arbitrary: i s)
  case (Suc m)
  then show ?case by (cases "write_index tail idx i s") simp_all
qed simp

lemma write_indexes_many: "write_indexes tail idx START (Suc n) s = write_many tail idx START (Suc n) s"
proof (induction n arbitrary: START s)
  case 0
  then show ?case by (cases "write_index tail idx START s") (simp_all add: write_indexes.simps)
next
  case (Suc n)
  then show ?case
    by (subst write_indexes.simps) (cases "write_index tail idx START s", simp_all)
qed

lemma write_index_range_many: "write_index_range tail idx [i..<i + n] s = write_many tail idx i n s"
proof (induction n arbitrary: i s)
  case (Suc n)
  have "[i..<i + Suc n] = i # [Suc i..<Suc i + n]" by (subst upt_rec) (simp del: upt_Suc)
  then show ?case using Suc.IH [of "Suc i"] by (cases "write_index tail idx i s") (simp_all del: upt_Suc)
qed simp

text \<open>The unrolled writes: a whole number of steps, enough for the count unless it exceeds the limit.\<close>

lemma stepped_many:
  "START + STEP * Suc m = END \<Longrightarrow> \<exists>k. write_indexes_stepped tail idx START END cnt s = write_many tail idx START (STEP * Suc k) s \<and>
     k \<le> m \<and> (min END cnt \<le> START + STEP * Suc k)"
proof (induction m arbitrary: START s)
  case 0
  then show ?case
    using write_indexes_many [of tail idx START 3 s]
    by (subst write_indexes_stepped.simps) (simp add: STEP_def numeral_eq_Suc)
next
  case (Suc m)
  have w: "write_indexes tail idx START STEP s = write_many tail idx START STEP s" for s
    using write_indexes_many [of tail idx START 3 s] by (simp add: STEP_def numeral_eq_Suc)
  have lt: "START + STEP < END" using Suc.prems by (simp add: STEP_def)
  show ?case
  proof (cases "START + STEP < cnt")
    case True
    show ?thesis
    proof (cases "write_many tail idx START STEP s")
      case None
      then have "write_many tail idx START (STEP * Suc (Suc m)) s = None"
        using write_many_add [of tail idx START STEP "STEP * Suc m" s] by simp
      then show ?thesis using None Suc.prems
        by (intro exI [of _ "Suc m"]) (simp add: write_indexes_stepped.simps w)
    next
      case (Some t)
      obtain k where k: "write_indexes_stepped tail idx (START + STEP) END cnt t =
          write_many tail idx (START + STEP) (STEP * Suc k) t" "k \<le> m" "min END cnt \<le> START + STEP + STEP * Suc k"
        using Suc.IH [of "START + STEP" t] Suc.prems by (auto simp: algebra_simps)
      show ?thesis
        using k Some True lt write_many_add [of tail idx START STEP "STEP * Suc k" s]
        by (intro exI [of _ "Suc k"]) (subst write_indexes_stepped.simps, simp add: w)
    qed
  next
    case False
    then show ?thesis using lt
      by (intro exI [of _ 0]) (subst write_indexes_stepped.simps, auto simp: w split: Option.bind_splits)
  qed
qed

lemma indexer_write_many:
  assumes "bits \<noteq> 0"
  shows "\<exists>n. count_ones bits \<le> n \<and> n \<le> 64 \<and>
    indexer_write b idx bits = do {
      (mem, r) \<leftarrow> write_many (bi_tail b) idx 0 n (bi_mem b, reverse_bits bits);
      Some (b\<lparr>bi_mem := mem, bi_tail := bi_tail b + count_ones bits\<rparr>) }"
proof -
  let ?c = "count_ones bits" and ?s = "(bi_mem b, reverse_bits bits)"
  have c64: "?c \<le> 64"
    using length_filter_le [of "bit bits" "[0..<64]"] by (simp add: count_ones_positions positions_def)
  obtain k where k: "write_indexes_stepped (bi_tail b) idx 0 STEP_UNTIL ?c ?s = write_many (bi_tail b) idx 0 (STEP * Suc k) ?s"
    "k \<le> 5" "min STEP_UNTIL ?c \<le> STEP * Suc k"
    using stepped_many [of 0 5 STEP_UNTIL "bi_tail b" idx ?c ?s] by (auto simp: STEP_def STEP_UNTIL_def)
  show ?thesis
  proof (cases "STEP_UNTIL < ?c")
    case True
    then have "STEP * Suc k = STEP_UNTIL" using k by (simp add: STEP_def STEP_UNTIL_def)
    then have "write_indexes_stepped (bi_tail b) idx 0 STEP_UNTIL ?c ?s = write_many (bi_tail b) idx 0 STEP_UNTIL ?s"
      using k(1) by simp
    then show ?thesis
      using True c64 assms write_many_add [of "bi_tail b" idx 0 STEP_UNTIL "?c - STEP_UNTIL" ?s]
        write_index_range_many [of "bi_tail b" idx STEP_UNTIL "?c - STEP_UNTIL"]
      by (intro exI [of _ ?c]) (simp add: indexer_write_def Let_def case_prod_unfold)
  next
    case False
    then show ?thesis
      using k c64 assms
      by (intro exI [of _ "STEP * Suc k"]) (simp add: indexer_write_def Let_def case_prod_unfold STEP_def STEP_UNTIL_def)
  qed
qed

lemma write_index_Some:
  "tail + i < length mem \<Longrightarrow> write_index tail idx i (mem, r) =
    Some (mem[tail + i := idx + of_nat (leading_zeroes r)], zero_leading_bit r (leading_zeroes r))"
  by (simp add: write_index_def store_def Let_def)

lemma rev_positions_Nil: "rev_positions r = [] \<longleftrightarrow> r = 0"
proof
  assume "rev_positions r = []"
  then show "r = 0" using rev_positions_step [of r] by (cases "r = 0") auto
qed (simp add: rev_positions_def)

text \<open>The written slots hold the positions of the set bits in ascending order, then anything.\<close>

lemma write_many_spec:
  assumes "tail + i + n \<le> length mem"
  shows "\<exists>mem' r'. write_many tail idx i n (mem, r) = Some (mem', r') \<and> length mem' = length mem \<and>
    take (tail + i) mem' = take (tail + i) mem \<and>
    take (min n (length (rev_positions r))) (drop (tail + i) mem') =
      take n (map (\<lambda>p. idx + of_nat p) (rev_positions r))"
  using assms
proof (induction n arbitrary: i mem r)
  case (Suc n)
  let ?z = "leading_zeroes r" and ?r = "zero_leading_bit r (leading_zeroes r)"
  let ?m = "mem[tail + i := idx + of_nat ?z]"
  obtain mem' r' where w: "write_many tail idx (Suc i) n (?m, ?r) = Some (mem', r')" "length mem' = length mem"
    "take (tail + Suc i) mem' = take (tail + Suc i) ?m"
    "take (min n (length (rev_positions ?r))) (drop (tail + Suc i) mem') = take n (map (\<lambda>p. idx + of_nat p) (rev_positions ?r))"
    using Suc.IH [of "Suc i" ?m ?r] Suc.prems by auto
  have hd: "drop (tail + i) mem' = (idx + of_nat ?z) # drop (tail + Suc i) mem'"
  proof -
    have lt: "tail + i < length mem'" using Suc.prems w(2) by simp
    have "mem' ! (tail + i) = take (tail + Suc i) mem' ! (tail + i)" by simp
    also have "\<dots> = idx + of_nat ?z" unfolding w(3) using Suc.prems by simp
    finally show ?thesis using Cons_nth_drop_Suc [OF lt] by simp
  qed
  have tk: "take (tail + i) mem' = take (tail + i) mem"
  proof -
    have "take (tail + i) mem' = take (tail + i) (take (tail + Suc i) mem')" by (simp add: min_def)
    also have "\<dots> = take (tail + i) mem" unfolding w(3) by (simp add: min_def)
    finally show ?thesis .
  qed
  have "take (min (Suc n) (length (rev_positions r))) (drop (tail + i) mem') =
      take (Suc n) (map (\<lambda>p. idx + of_nat p) (rev_positions r))"
  proof (cases "r = 0")
    case True
    then show ?thesis using rev_positions_Nil [of r] by simp
  next
    case False
    then show ?thesis using w(4) unfolding rev_positions_step [OF False] hd by simp
  qed
  then show ?case using w(1,2) tk Suc.prems by (simp add: write_index_Some)
qed auto

theorem indexer_write_correct:
  assumes "bi_tail b + 64 \<le> length (bi_mem b)"
  shows "\<exists>mem. indexer_write b idx bits = Some (b\<lparr>bi_mem := mem, bi_tail := bi_tail b + length (positions bits)\<rparr>) \<and>
    length mem = length (bi_mem b) \<and>
    take (bi_tail b + length (positions bits)) mem =
      take (bi_tail b) (bi_mem b) @ map (\<lambda>p. idx + of_nat p) (positions bits)"
proof (cases "bits = 0")
  case True
  then show ?thesis by (intro exI [of _ "bi_mem b"]) (simp add: indexer_write_def positions_def)
next
  case False
  then obtain n where n: "length (positions bits) \<le> n" "n \<le> 64"
    "indexer_write b idx bits = do {
      (mem, r) \<leftarrow> write_many (bi_tail b) idx 0 n (bi_mem b, reverse_bits bits);
      Some (b\<lparr>bi_mem := mem, bi_tail := bi_tail b + length (positions bits)\<rparr>) }"
    using indexer_write_many [of bits b idx] by (auto simp: count_ones_positions)
  obtain mem r where w: "write_many (bi_tail b) idx 0 n (bi_mem b, reverse_bits bits) = Some (mem, r)"
    "length mem = length (bi_mem b)" "take (bi_tail b) mem = take (bi_tail b) (bi_mem b)"
    "take (length (positions bits)) (drop (bi_tail b) mem) = map (\<lambda>p. idx + of_nat p) (positions bits)"
    using write_many_spec [of "bi_tail b" 0 n "bi_mem b" idx "reverse_bits bits"] n(1,2) assms
    by (auto simp: rev_positions_reverse_bits)
  show ?thesis using w n(3) by (intro exI [of _ mem]) (simp add: take_add)
qed

section \<open>The token starts of a text\<close>

definition starts_at :: "u8 list \<Rightarrow> nat \<Rightarrow> bool" where
  "starts_at bs i \<longleftrightarrow> lex_starts (lex_at Between bs i) (bs ! i)"

text \<open>The offsets below \<open>n\<close> at which the sequential lexer starts a token.\<close>

definition token_starts :: "u8 list \<Rightarrow> nat \<Rightarrow> nat list" where
  "token_starts bs n = filter (starts_at bs) [0..<n]"

text \<open>A control character inside a string.\<close>

definition unescaped_at :: "u8 list \<Rightarrow> nat \<Rightarrow> bool" where
  "unescaped_at bs i \<longleftrightarrow> bs ! i \<le> 0x1F \<and> in_string_state (lex_at Between bs (Suc i))"

lemma lex_at_append: "i \<le> length xs \<Longrightarrow> lex_at s (xs @ ys) i = lex_at s xs i"
  by (simp add: lex_at_def)

lemma lex_at_append_right: "lex_at s (xs @ ys) (length xs + i) = lex_at (lex_at s xs (length xs)) ys i"
  by (simp add: lex_at_def)

lemma starts_at_append: "i < length xs \<Longrightarrow> starts_at (xs @ ys) i = starts_at xs i"
  by (simp add: starts_at_def lex_at_append nth_append)

lemma unescaped_at_append: "i < length xs \<Longrightarrow> unescaped_at (xs @ ys) i = unescaped_at xs i"
  by (simp add: unescaped_at_def lex_at_append nth_append)

lemma token_starts_append: "n \<le> length xs \<Longrightarrow> token_starts (xs @ ys) n = token_starts xs n"
  unfolding token_starts_def by (rule filter_cong) (auto simp: starts_at_append)

lemma token_starts_add:
  "token_starts bs (m + n) = token_starts bs m @ map (\<lambda>i. m + i) (filter (\<lambda>i. starts_at bs (m + i)) [0..<n])"
proof -
  have "[0..<m + n] = [0..<m] @ map (\<lambda>i. m + i) [0..<n]"
    using upt_add_eq_append [of 0 m n] by (simp add: map_add_upt add.commute)
  then show ?thesis by (simp add: token_starts_def filter_map comp_def)
qed

lemma token_starts_bound: "length (token_starts bs n) \<le> n" "i \<in> set (token_starts bs n) \<Longrightarrow> i < n"
  using length_filter_le [of "starts_at bs" "[0..<n]"] by (simp_all add: token_starts_def)

section \<open>The loop invariant\<close>

text \<open>The indexer has read the bytes \<open>bs\<close>, \<open>k\<close> blocks; the positions of the last block are still in
  \<open>prev_structurals\<close>, all earlier ones are in the array.\<close>

definition indexer_inv :: "nat \<Rightarrow> json_structural_indexer \<Rightarrow> u8 list \<Rightarrow> nat \<Rightarrow> bool" where
  "indexer_inv L s bs k \<longleftrightarrow>
    length bs = 64 * k \<and>
    scanner_repr (lex_at Between bs (64 * k)) (si_scanner s) \<and>
    checker_inv (si_checker s) bs \<and>
    length (bi_mem (si_indexer s)) = L \<and>
    bi_tail (si_indexer s) = length (token_starts bs (64 * (k - 1))) \<and>
    take (bi_tail (si_indexer s)) (bi_mem (si_indexer s)) = map of_nat (token_starts bs (64 * (k - 1))) \<and>
    (\<forall>i < 64. bit (prev_structurals s) i \<longleftrightarrow> 0 < k \<and> starts_at bs (64 * (k - 1) + i)) \<and>
    (unescaped_chars_error s \<noteq> 0 \<longleftrightarrow> (\<exists>i < 64 * k. unescaped_at bs i))"

lemma indexer_inv_init: "length mem = L \<Longrightarrow> indexer_inv L (json_structural_indexer_init mem) [] 0"
  by (simp add: indexer_inv_def json_structural_indexer_init_def scanner_repr_init checker_inv_init token_starts_def)

lemma ucast_of_nat_u32: "ucast (of_nat n :: u64) = (of_nat n :: u32)"
  by (rule bit_word_eqI) (simp add: bit_simps)

lemma block_base_eq: "0 < k \<Longrightarrow> block_base (64 * k) = of_nat (64 * (k - 1))"
proof -
  assume "0 < k"
  then have "(of_nat (64 * k) - 64 :: u64) = of_nat (64 * (k - 1))" by (cases k) simp_all
  then show "block_base (64 * k) = of_nat (64 * (k - 1))" unfolding block_base_def by (simp only: ucast_of_nat_u32)
qed

text \<open>Writing out the pending block.\<close>

lemma flush_pending:
  assumes inv: "indexer_inv L s bs k" and L: "64 * k \<le> L" "k = 0 \<Longrightarrow> 64 \<le> L"
  shows "\<exists>mem. indexer_write (si_indexer s) (block_base (64 * k)) (prev_structurals s) =
      Some (\<lparr>bi_mem = mem, bi_tail = length (token_starts bs (64 * k))\<rparr>) \<and>
    length mem = L \<and> take (length (token_starts bs (64 * k))) mem = map of_nat (token_starts bs (64 * k))"
proof -
  let ?b = "si_indexer s" and ?T = "token_starts bs (64 * (k - 1))"
  have tail: "bi_tail ?b + 64 \<le> length (bi_mem ?b)"
    using inv L token_starts_bound(1) [of bs "64 * (k - 1)"] by (cases k) (auto simp: indexer_inv_def)
  have pos: "positions (prev_structurals s) = (if k = 0 then [] else filter (\<lambda>i. starts_at bs (64 * (k - 1) + i)) [0..<64])"
  proof -
    have "positions (prev_structurals s) = filter (\<lambda>i. 0 < k \<and> starts_at bs (64 * (k - 1) + i)) [0..<64]"
      unfolding positions_def using inv by (intro filter_cong) (auto simp: indexer_inv_def)
    then show ?thesis by auto
  qed
  have all: "token_starts bs (64 * k) = ?T @ map (\<lambda>i. 64 * (k - 1) + i) (positions (prev_structurals s))"
    using token_starts_add [of bs "64 * (k - 1)" 64] pos by (cases k) (simp_all add: add.commute)
  have idx: "map (\<lambda>p. block_base (64 * k) + of_nat p) (positions (prev_structurals s)) =
      map of_nat (map (\<lambda>i. 64 * (k - 1) + i) (positions (prev_structurals s)))"
    using pos block_base_eq [of k] by (cases "k = 0") simp_all
  obtain mem where "indexer_write ?b (block_base (64 * k)) (prev_structurals s) =
      Some (?b\<lparr>bi_mem := mem, bi_tail := bi_tail ?b + length (positions (prev_structurals s))\<rparr>)"
    "length mem = length (bi_mem ?b)" "take (bi_tail ?b + length (positions (prev_structurals s))) mem =
      take (bi_tail ?b) (bi_mem ?b) @ map (\<lambda>p. block_base (64 * k) + of_nat p) (positions (prev_structurals s))"
    using indexer_write_correct [OF tail] by blast
  then show ?thesis
    using inv unfolding idx all by (intro exI [of _ mem]) (auto simp: indexer_inv_def)
qed

lemma nonzero_iff_bit: "(w :: u64) \<noteq> 0 \<longleftrightarrow> (\<exists>i < 64. bit w i)"
proof -
  have "w \<noteq> 0 \<longleftrightarrow> (\<exists>i. bit w i)" using bit_eqI [of w 0] by auto
  moreover have "i < 64" if "bit w i" for i using bit_imp_le_length [OF that] by simp
  ultimately show ?thesis by blast
qed

lemma block_offsets: "(\<exists>i < 64 * Suc k. P i) \<longleftrightarrow> (\<exists>i < 64 * k. P i) \<or> (\<exists>i < 64. P (64 * k + i))"
proof
  assume "\<exists>i < 64 * Suc k. P i"
  then obtain i where i: "i < 64 * Suc k" "P i" by blast
  show "(\<exists>i < 64 * k. P i) \<or> (\<exists>i < 64. P (64 * k + i))"
  proof (cases "i < 64 * k")
    case False
    then have "i - 64 * k < 64" "P (64 * k + (i - 64 * k))" using i by simp_all
    then show ?thesis by blast
  qed (use i in blast)
next
  assume "(\<exists>i < 64 * k. P i) \<or> (\<exists>i < 64. P (64 * k + i))"
  then show "\<exists>i < 64 * Suc k. P i"
  proof
    assume "\<exists>i < 64. P (64 * k + i)"
    then obtain i where "i < 64" "P (64 * k + i)" by blast
    then show ?thesis by (intro exI [of _ "64 * k + i"]) simp
  next
    assume "\<exists>i < 64 * k. P i"
    then obtain i where "i < 64 * k" "P i" by blast
    then show ?thesis by (intro exI [of _ i]) simp
  qed
qed

lemma indexer_step_inv:
  assumes inv: "indexer_inv L s bs k" and l: "length block = 64" and L: "64 * Suc k \<le> L"
    and rd: "block_index reader = 64 * k"
  shows "\<exists>s'. indexer_step s block reader = Some (s', advance 64 reader) \<and> indexer_inv L s' (bs @ block) (Suc k)"
proof -
  let ?blk = "simd8x64_load block"
  let ?jb = "fst (scanner_next (si_scanner s) ?blk)"
  have lb: "length bs = 64 * k" and repr: "scanner_repr (lex_at Between bs (64 * k)) (si_scanner s)"
    and chk: "checker_inv (si_checker s) bs"
    using inv by (simp_all add: indexer_inv_def)
  have wf: "wf_block ?blk" and cc: "concat ?blk = block" using l by (simp_all add: wf_block_load concat_load)
  note sc = scanner_next_refines [OF wf repr, unfolded cc]
  have at: "lex_at Between (bs @ block) (64 * k + i) = lex_at (lex_at Between bs (64 * k)) block i" for i
    using lex_at_append_right [of Between bs block i] lb by simp
  have st: "starts_at (bs @ block) (64 * k + i) \<longleftrightarrow> bit (structural_start ?jb) i" if "i < 64" for i
    using sc(1) [OF that] lb by (simp add: starts_at_def at nth_append)
  have un: "unescaped_at (bs @ block) (64 * k + i) \<longleftrightarrow>
      bit (non_quote_inside_string (jb_string ?jb) (lteq_mask ?blk 0x1F)) i" if "i < 64" for i
    using sc(2) [OF that] at [of "Suc i"] lb that
    by (simp add: unescaped_at_def nth_append non_quote_inside_string_def bit_and_iff bit_lteq_mask [OF wf] cc)
  obtain mem where w: "indexer_write (si_indexer s) (block_base (64 * k)) (prev_structurals s) =
      Some \<lparr>bi_mem = mem, bi_tail = length (token_starts bs (64 * k))\<rparr>"
    "length mem = L" "take (length (token_starts bs (64 * k))) mem = map of_nat (token_starts bs (64 * k))"
    using flush_pending [OF inv] L by auto
  have ts: "token_starts (bs @ block) (64 * k) = token_starts bs (64 * k)" using lb by (simp add: token_starts_append)
  define s' where "s' = s\<lparr>si_scanner := snd (scanner_next (si_scanner s) ?blk),
      si_checker := check_next_input (si_checker s) ?blk,
      si_indexer := \<lparr>bi_mem = mem, bi_tail = length (token_starts bs (64 * k))\<rparr>,
      prev_structurals := structural_start ?jb,
      unescaped_chars_error := unescaped_chars_error s OR non_quote_inside_string (jb_string ?jb) (lteq_mask ?blk 0x1F)\<rparr>"
  have step: "indexer_step s block reader = Some (s', advance 64 reader)"
    by (simp add: indexer_step_def indexer_next_def Let_def case_prod_unfold rd w(1) s'_def)
  have "unescaped_chars_error s' \<noteq> 0 \<longleftrightarrow> (\<exists>i < 64 * k. unescaped_at bs i) \<or> (\<exists>i < 64. unescaped_at (bs @ block) (64 * k + i))"
    using inv un nonzero_iff_bit [of "non_quote_inside_string (jb_string ?jb) (lteq_mask ?blk 0x1F)"]
    by (auto simp: s'_def or_eq_0_iff indexer_inv_def)
  also have "\<dots> \<longleftrightarrow> (\<exists>i < 64 * Suc k. unescaped_at (bs @ block) i)"
    unfolding block_offsets using lb by (metis unescaped_at_append)
  finally have esc: "unescaped_chars_error s' \<noteq> 0 \<longleftrightarrow> (\<exists>i < 64 * Suc k. unescaped_at (bs @ block) i)" .
  have "scanner_repr (lex_at Between (bs @ block) (64 * Suc k)) (si_scanner s')"
    using sc(3) at [of 64] by (simp add: s'_def add.commute)
  then have "indexer_inv L s' (bs @ block) (Suc k)"
    using lb l w(2,3) st esc checker_inv_next [OF chk wf] unfolding cc
    by (simp add: indexer_inv_def ts s'_def)
  then show ?thesis using step by blast
qed

section \<open>All blocks of the input\<close>

text \<open>What the indexer has seen when it is done: the text, padded with spaces to whole blocks.\<close>

lemma index_loop_inv:
  assumes "indexer_inv L s (take (64 * k) buf) k" "64 * k < len" "len \<le> length buf" "len \<le> L"
  shows "\<exists>s' k'. index_loop s (reader_at buf len k) = Some (s', reader_at buf len k') \<and>
    indexer_inv L s' (take (64 * k') buf) k' \<and> 64 * k' < len \<and> \<not> has_full_block (reader_at buf len k')"
  using assms(1,2)
proof (induction "len - 64 * k" arbitrary: s k rule: less_induct)
  case less
  show ?case
  proof (cases "has_full_block (reader_at buf len k)")
    case True
    then have k: "64 * k + 64 < len" by (simp add: has_full_block_at)
    have fb: "full_block (reader_at buf len k) = drop (64 * k) buf"
      by (simp add: full_block_def reader_at_def buf_block_reader_init_def)
    have same: "indexer_step s (drop (64 * k) buf) r = indexer_step s (take 64 (drop (64 * k) buf)) r" for r
      by (simp add: indexer_step_def simd8x64_load_def take_drop)
    have l: "length (take 64 (drop (64 * k) buf)) = 64" using k assms(3) by simp
    have "64 * Suc k \<le> L" "block_index (reader_at buf len k) = 64 * k"
      using k assms(4) by (simp_all add: block_index_def reader_at_def)
    from indexer_step_inv [OF less.prems(1) l this]
    obtain s' where s': "indexer_step s (full_block (reader_at buf len k)) (reader_at buf len k) = Some (s', reader_at buf len (Suc k))"
      "indexer_inv L s' (take (64 * k) buf @ take 64 (drop (64 * k) buf)) (Suc k)"
      by (auto simp: fb same advance_reader_at)
    have "indexer_inv L s' (take (64 * Suc k) buf) (Suc k)"
      using s'(2) take_full_block [of k buf] k assms(3) by simp
    then show ?thesis
      using less.hyps [of "Suc k" s'] k True s'(1) by (simp add: index_loop.simps [of s] del: mult_Suc_right) simp
  next
    case False
    then show ?thesis using less.prems by (subst index_loop.simps) auto
  qed
qed

lemma index_all_blocks:
  assumes len: "0 < len" "len \<le> length buf" and L: "SIMDJSON_ROUNDUP_64 len \<le> length mem"
  shows "\<exists>s s' reader block n K pad.
    index_loop (json_structural_indexer_init mem) (buf_block_reader_init 64 buf len) = Some (s, reader) \<and>
    get_remainder 64 reader (replicate 64 0) = (block, n) \<and> n \<noteq> 0 \<and>
    indexer_step s block reader = Some (s', advance 64 reader) \<and> block_index (advance 64 reader) = 64 * K \<and>
    indexer_inv (length mem) s' (take len buf @ replicate pad 0x20) K \<and> 64 * K \<le> length mem \<and> 0 < K"
proof -
  have up: "64 * k + 64 \<le> SIMDJSON_ROUNDUP_64 len" if "64 * k < len" for k
  proof -
    have "Suc k \<le> (len + 63) div 64" using that by (simp add: less_eq_div_iff_mult_less_eq)
    then show ?thesis using mult_le_mono1 [of "Suc k" "(len + 63) div 64" 64] by (simp add: SIMDJSON_ROUNDUP_64_def)
  qed
  have ll: "len \<le> length mem"
  proof -
    have "64 * ((len - 1) div 64) + 64 \<le> SIMDJSON_ROUNDUP_64 len"
      using up [of "(len - 1) div 64"] len(1) by (metis Suc_diff_1 div_times_less_eq_dividend le_imp_less_Suc mult.commute)
    moreover have "len \<le> 64 * ((len - 1) div 64) + 64"
      using mod_less_divisor [of 64 "len - 1"] mult_div_mod_eq [of 64 "len - 1"] len(1) by linarith
    ultimately show ?thesis using L by linarith
  qed
  have "indexer_inv (length mem) (json_structural_indexer_init mem) (take (64 * 0) buf) 0"
    using indexer_inv_init [of mem] by simp
  then obtain s k where lp: "index_loop (json_structural_indexer_init mem) (reader_at buf len 0) = Some (s, reader_at buf len k)"
    and inv: "indexer_inv (length mem) s (take (64 * k) buf) k" and k: "64 * k < len" and stop: "\<not> has_full_block (reader_at buf len k)"
    using index_loop_inv [OF \<open>indexer_inv (length mem) _ (take (64 * 0) buf) 0\<close>, of len] len ll by auto
  note r = get_remainder_at [OF stop k len(2), of "replicate 64 0"]
  let ?block = "fst (get_remainder 64 (reader_at buf len k) (replicate 64 0))"
  have "64 * Suc k \<le> length mem" "block_index (reader_at buf len k) = 64 * k"
    using up [OF k] L by (simp_all add: block_index_def reader_at_def)
  from indexer_step_inv [OF inv r(2) this] this
  obtain s' where s': "indexer_step s ?block (reader_at buf len k) = Some (s', reader_at buf len (Suc k))"
    "indexer_inv (length mem) s' (take len buf @ replicate (64 * k + 64 - len) 0x20) (Suc k)" "64 * Suc k \<le> length mem"
    by (auto simp: r(3) advance_reader_at)
  have "block_index (reader_at buf len (Suc k)) = 64 * Suc k" by (simp add: block_index_def reader_at_def)
  moreover have "get_remainder 64 (reader_at buf len k) (replicate 64 0) = (?block, len - 64 * k)" by (simp add: r(1))
  moreover have "len - 64 * k \<noteq> 0" using k by simp
  ultimately show ?thesis
    unfolding reader_at_0 using lp s' by (metis advance_reader_at zero_less_Suc)
qed

section \<open>Padding does not matter\<close>

definition unclosed :: "u8 list \<Rightarrow> bool" where
  "unclosed bs \<longleftrightarrow> in_string_state (lex_at Between bs (length bs))"

definition has_control :: "u8 list \<Rightarrow> bool" where
  "has_control bs \<longleftrightarrow> (\<exists>i < length bs. unescaped_at bs i)"

lemma is_ws_space [simp]: "is_ws 0x20" "\<not> marked_op 0x20"
  by (simp_all add: is_ws_def marked_op_def is_op_def)

lemma lex_starts_space [simp]: "\<not> lex_starts s 0x20"
  by (cases s) simp_all

lemma in_string_spaces: "in_string_state (foldl lex_step s (replicate n 0x20)) = in_string_state s"
proof (induction n arbitrary: s)
  case (Suc n)
  have "in_string_state (lex_step s 0x20) = in_string_state s" by (cases s) simp_all
  then show ?case using Suc by simp
qed simp

lemma padded_text:
  fixes bs :: "u8 list" and n :: nat
  defines "full \<equiv> bs @ replicate n 0x20"
  shows "token_starts full (length full) = token_starts bs (length bs)"
    and "in_string_state (lex_at Between full (length full)) = unclosed bs"
    and "(\<exists>i < length full. unescaped_at full i) = has_control bs"
    and "utf8_valid full = utf8_valid bs"
proof -
  have sp: "full ! (length bs + i) = 0x20" if "i < n" for i using that by (simp add: full_def)
  have "filter (\<lambda>i. starts_at full (length bs + i)) [0..<n] = []"
    using sp by (auto simp: filter_empty_conv starts_at_def)
  then show "token_starts full (length full) = token_starts bs (length bs)"
    using token_starts_add [of full "length bs" n] token_starts_append [of "length bs" bs "replicate n 0x20"]
    by (simp add: full_def)
  show "in_string_state (lex_at Between full (length full)) = unclosed bs"
    by (simp add: lex_at_def unclosed_def full_def in_string_spaces)
  have no: "i < length bs" if "i < length full" "unescaped_at full i" for i
  proof (rule ccontr)
    assume "\<not> i < length bs"
    then obtain j where "i = length bs + j" by (metis le_add_diff_inverse not_less)
    then show False using that sp [of j] by (simp add: unescaped_at_def full_def)
  qed
  have "unescaped_at full i = unescaped_at bs i" if "i < length bs" for i
    using that by (simp add: full_def unescaped_at_append)
  then show "(\<exists>i < length full. unescaped_at full i) = has_control bs"
    using no by (auto simp: has_control_def full_def intro: trans_less_add1)
  show "utf8_valid full = utf8_valid bs" unfolding full_def by (rule utf8_valid_append_ascii) simp
qed

section \<open>Stage 1\<close>

text \<open>What the indexer needs of its memory for the texts up to the capacity: an entry for every byte of the blocks
  of 64 that such a text fills, entries for the three sentinels behind the indexes, and indexes that fit in 32 bits.\<close>

definition parser_ready :: "dom_parser_implementation \<Rightarrow> bool" where
  "parser_ready p \<longleftrightarrow> dp_capacity p \<le> SIMDJSON_MAXSIZE_BYTES \<and>
    SIMDJSON_ROUNDUP_64 (dp_capacity p) \<le> length (structural_indexes p) \<and>
    dp_capacity p + 3 \<le> length (structural_indexes p)"

lemma roundup_mono: "a \<le> b \<Longrightarrow> SIMDJSON_ROUNDUP_64 a \<le> SIMDJSON_ROUNDUP_64 b"
  by (simp add: SIMDJSON_ROUNDUP_64_def div_le_mono)

lemma roundup_ge: "a \<le> SIMDJSON_ROUNDUP_64 a"
proof -
  have "(a + 63) mod 64 < 64" by simp
  moreover have "64 * ((a + 63) div 64) + (a + 63) mod 64 = a + 63" by (rule mult_div_mod_eq)
  ultimately show ?thesis unfolding SIMDJSON_ROUNDUP_64_def by linarith
qed

text \<open>An allocator that never fails.\<close>

definition allocates :: "(nat \<Rightarrow> 'a list option) \<Rightarrow> bool" where
  "allocates alloc \<longleftrightarrow> (\<forall>n. \<exists>mem. alloc n = Some mem \<and> length mem = n)"

lemma allocates_length: "allocates alloc \<Longrightarrow> alloc n = Some mem \<Longrightarrow> length mem = n"
  by (metis allocates_def option.inject)

text \<open>\<open>set_capacity\<close> allocates enough.\<close>

lemma set_capacity_ready:
  assumes "\<And>n mem. alloc n = Some mem \<Longrightarrow> length mem = n" "fst (set_capacity alloc capacity p) = SUCCESS"
  shows "parser_ready (snd (set_capacity alloc capacity p))" "dp_capacity (snd (set_capacity alloc capacity p)) = capacity"
  using assms roundup_ge [of capacity]
  by (auto simp: set_capacity_def parser_ready_def Let_def split: if_splits option.splits)

text \<open>The indexes of a text and the three sentinels behind them.\<close>

definition indexed :: "u8 list \<Rightarrow> dom_parser_implementation \<Rightarrow> bool" where
  "indexed bs p \<longleftrightarrow> (let T = token_starts bs (length bs); n = of_nat (length bs) in
     n_structural_indexes p = of_nat (length T) \<and> next_structural_index p = 0 \<and>
     take (length T + 3) (structural_indexes p) = map of_nat T @ [n, n, 0])"

lemma take_update_end: "take n (xs[n := v]) = take n xs" by simp

lemma store_three:
  assumes "n + 3 \<le> length m" "take n m = xs"
  shows "\<exists>m'. do { m \<leftarrow> store m n a; m \<leftarrow> store m (n + 1) b; store m (n + 2) c } = Some m' \<and>
    length m' = length m \<and> take (n + 3) m' = xs @ [a, b, c]"
proof -
  let ?m = "m[n := a, n + 1 := b, n + 2 := c]"
  have "take (n + 3) ?m = take n ?m @ take 3 (drop n ?m)" by (rule take_add)
  also have "take n ?m = xs" using assms(2) by simp
  also have "take 3 (drop n ?m) = [a, b, c]"
    using assms(1) by (intro nth_equalityI) (auto simp: less_Suc_eq numeral_eq_Suc nth_Cons')
  finally show ?thesis using assms(1) by (intro exI [of _ ?m]) (simp add: store_def)
qed

lemma unat_of_nat_u32: "n \<le> SIMDJSON_MAXSIZE_BYTES \<Longrightarrow> unat (of_nat n :: u32) = n"
  by (simp add: unat_of_nat SIMDJSON_MAXSIZE_BYTES_def)

lemma indexer_finish_spec:
  fixes bs :: "u8 list" and pad :: nat
  defines "full \<equiv> bs @ replicate pad 0x20" and "T \<equiv> token_starts bs (length bs)"
  assumes inv: "indexer_inv L s full K" and L: "64 * K \<le> L" "0 < K" "length bs + 3 \<le> L"
    and size: "length bs \<le> SIMDJSON_MAXSIZE_BYTES"
  shows "\<exists>m. length m = L \<and>
    (if unclosed bs \<and> partial = regular
     then indexer_finish s p (64 * K) (length bs) partial = Some (UNCLOSED_STRING, p\<lparr>structural_indexes := m\<rparr>)
     else if has_control bs
     then indexer_finish s p (64 * K) (length bs) partial = Some (UNESCAPED_CHARS, p\<lparr>structural_indexes := m\<rparr>)
     else let p' = p\<lparr>structural_indexes := m, n_structural_indexes := of_nat (length T), next_structural_index := 0\<rparr>
          in indexed bs p' \<and> indexer_finish s p (64 * K) (length bs) partial =
            (if T = [] then Some (EMPTY, p')
             else finish_mode partial (unclosed bs) (if utf8_valid bs then SUCCESS else UTF8_ERROR) (length bs) p'))"
proof -
  have K: "length full = 64 * K" using inv by (simp add: indexer_inv_def)
  note pad = padded_text [of bs pad, folded full_def]
  obtain m0 where w: "indexer_write (si_indexer s) (block_base (64 * K)) (prev_structurals s) = Some \<lparr>bi_mem = m0, bi_tail = length T\<rparr>"
    "length m0 = L" "take (length T) m0 = map of_nat T"
    using flush_pending [OF inv L(1)] L(2) pad(1) by (auto simp: K T_def)
  have fin: "scanner_finish (si_scanner s) = (if unclosed bs then UNCLOSED_STRING else SUCCESS)"
    using inv scanner_finish_lex [of "lex_at Between full (64 * K)" "si_scanner s"] pad(2)
    by (simp add: indexer_inv_def K)
  have ctl: "unescaped_chars_error s \<noteq> 0 \<longleftrightarrow> has_control bs" using inv pad(3) by (simp add: indexer_inv_def K)
  have utf: "errors (check_eof (si_checker s)) = (if utf8_valid bs then SUCCESS else UTF8_ERROR)"
    using inv checker_inv_verdict [of "si_checker s" full] pad(4) by (simp add: indexer_inv_def)
  have T: "length T \<le> length bs" using token_starts_bound(1) [of bs "length bs"] by (simp add: T_def)
  then have n: "unat (of_nat (length T) :: u32) = length T" using size by (intro unat_of_nat_u32) simp
  have T0: "(of_nat (length T) :: u32) = 0 \<longleftrightarrow> T = []" using n by (metis length_0_conv unat_eq_zero)
  obtain m where m: "do { m \<leftarrow> store m0 (length T) (of_nat (length bs)); m \<leftarrow> store m (length T + 1) (of_nat (length bs)); store m (length T + 2) 0 } = Some m"
    "length m = L" "take (length T + 3) m = map of_nat T @ [of_nat (length bs), of_nat (length bs), 0]"
    using store_three [of "length T" m0 "map of_nat T" "of_nat (length bs)" "of_nat (length bs)" 0] w(2,3) T L(3) by auto
  have last: "load m (length T - 1) = Some (of_nat (last T)) \<and> unat (of_nat (last T) :: u32) \<le> length bs" if "T \<noteq> []"
  proof -
    have "m ! (length T - 1) = take (length T + 3) m ! (length T - 1)" using that by simp
    also have "\<dots> = of_nat (last T)" unfolding m(3) using that by (simp add: nth_append last_conv_nth)
    finally have "load m (length T - 1) = Some (of_nat (last T))" using that m(2) T L(3) by (simp add: load_def)
    moreover have "last T < length bs" using that token_starts_bound(2) [of "last T" bs "length bs"] by (simp add: T_def)
    ultimately show ?thesis using size by (simp add: unat_of_nat_u32)
  qed
  have fin': "indexer_finish s p (64 * K) (length bs) partial =
      (let p0 = p\<lparr>structural_indexes := m0\<rparr>;
           p' = p\<lparr>structural_indexes := m, n_structural_indexes := of_nat (length T), next_structural_index := 0\<rparr>
       in if unclosed bs \<and> partial = regular then Some (UNCLOSED_STRING, p0)
          else if has_control bs then Some (UNESCAPED_CHARS, p0)
          else if T = [] then Some (EMPTY, p')
          else finish_mode partial (unclosed bs) (if utf8_valid bs then SUCCESS else UTF8_ERROR) (length bs) p')"
    using m(1) last
    by (auto simp: indexer_finish_def Let_def w(1) fin ctl utf n T0 is_streaming_def split: Option.bind_splits)
  have "indexed bs (p\<lparr>structural_indexes := m, n_structural_indexes := of_nat (length T), next_structural_index := 0\<rparr>)"
    using m(3) by (simp add: indexed_def Let_def T_def)
  then show ?thesis
    using w(2) m(2) unfolding fin' Let_def
    by (intro exI [of _ "if (unclosed bs \<and> partial = regular) \<or> has_control bs then m0 else m"]) auto
qed

definition stage1_verdict :: "u8 list \<Rightarrow> error_code" where
  "stage1_verdict bs =
    (if unclosed bs then UNCLOSED_STRING else if has_control bs then UNESCAPED_CHARS
     else if token_starts bs (length bs) = [] then EMPTY
     else if utf8_valid bs then SUCCESS else UTF8_ERROR)"

lemma indexer_index_spec:
  assumes "parser_ready p" "0 < len" "len \<le> dp_capacity p" "len \<le> length buf"
    and t: "t = (if is_streaming partial then trim_partial_utf8 buf len else len)" "0 < t" "t \<le> len"
  defines "bs \<equiv> take t buf"
  shows "\<exists>m. length m = length (structural_indexes p) \<and>
    (if unclosed bs \<and> partial = regular
     then indexer_index buf len p partial = Some (UNCLOSED_STRING, p\<lparr>structural_indexes := m\<rparr>)
     else if has_control bs
     then indexer_index buf len p partial = Some (UNESCAPED_CHARS, p\<lparr>structural_indexes := m\<rparr>)
     else let T = token_starts bs t;
              p' = p\<lparr>structural_indexes := m, n_structural_indexes := of_nat (length T), next_structural_index := 0\<rparr>
          in indexed bs p' \<and> indexer_index buf len p partial =
            (if T = [] then Some (EMPTY, p')
             else finish_mode partial (unclosed bs) (if utf8_valid bs then SUCCESS else UTF8_ERROR) t p'))"
proof -
  have le: "SIMDJSON_ROUNDUP_64 t \<le> length (structural_indexes p)" "t + 3 \<le> length (structural_indexes p)"
    "t \<le> SIMDJSON_MAXSIZE_BYTES"
    using assms(1,3) t(3) roundup_mono [of t "dp_capacity p"] roundup_ge [of t] by (simp_all add: parser_ready_def)
  have tb: "length bs = t" "t \<le> length buf" using assms(4) t(3) by (simp_all add: bs_def)
  obtain s s' reader block n K pad where
    "index_loop (json_structural_indexer_init (structural_indexes p)) (buf_block_reader_init 64 buf t) = Some (s, reader)"
    "get_remainder 64 reader (replicate 64 0) = (block, n)" "n \<noteq> 0"
    "indexer_step s block reader = Some (s', advance 64 reader)" "block_index (advance 64 reader) = 64 * K"
    and inv: "indexer_inv (length (structural_indexes p)) s' (bs @ replicate pad 0x20) K"
      "64 * K \<le> length (structural_indexes p)" "0 < K"
    using index_all_blocks [OF t(2) tb(2) le(1)] unfolding bs_def by blast
  then have eq: "indexer_index buf len p partial = indexer_finish s' p (64 * K) t partial"
    using assms(2,3) t by (auto simp: indexer_index_def Let_def)
  show ?thesis
    unfolding eq using indexer_finish_spec [OF inv, unfolded tb(1), OF le(2,3), of partial p] by (simp only: Let_def)
qed

lemma stage1_whole:
  assumes "parser_ready p" "0 < len" "len \<le> dp_capacity p" "len \<le> length buf"
  shows "\<exists>p'. stage1 p buf len regular = Some (stage1_verdict (take len buf), p') \<and> parser_ready p' \<and> dp_capacity p' = dp_capacity p \<and>
    (stage1_verdict (take len buf) \<in> {SUCCESS, UTF8_ERROR, EMPTY} \<longrightarrow> indexed (take len buf) p')"
proof -
  let ?p = "p\<lparr>dp_buf := buf, dp_len := len\<rparr>" and ?bs = "take len buf"
  have r: "parser_ready ?p" "len \<le> dp_capacity ?p" using assms by (simp_all add: parser_ready_def)
  have lb: "length ?bs = len" using assms(4) by simp
  from indexer_index_spec [OF r(1) assms(2) r(2) assms(4), of len regular] assms(2) lb
  show ?thesis
    using assms(1) by (fastforce simp: stage1_def stage1_verdict_def is_streaming_def finish_mode_def Let_def parser_ready_def split: if_splits)
qed

text \<open>C13: stage 1 on a whole document. It never writes outside of the index array, its verdict is the one of the
  sequential reading (unclosed string, control character in a string, nothing but whitespace, ill-formed UTF-8),
  and unless the strings are at fault the array holds the positions at which tokens start, in order, followed by the three sentinels.\<close>

theorem stage1_regular:
  assumes "parser_ready p" "0 < len" "len \<le> dp_capacity p" "len \<le> length buf"
  shows "\<exists>p'. stage1 p buf len regular = Some (stage1_verdict (take len buf), p') \<and> parser_ready p' \<and>
    (stage1_verdict (take len buf) \<in> {SUCCESS, UTF8_ERROR, EMPTY} \<longrightarrow> indexed (take len buf) p')"
  using stage1_whole [OF assms] by blast

definition example_parser :: dom_parser_implementation where
  "example_parser = \<lparr>dp_buf = [], dp_len = 0, structural_indexes = replicate 73 0, n_structural_indexes = 0,
     next_structural_index = 0, dp_capacity = 16\<rparr>"

lemma example_ready: "parser_ready example_parser"
  by (simp add: parser_ready_def example_parser_def SIMDJSON_MAXSIZE_BYTES_def SIMDJSON_ROUNDUP_64_def)

text \<open>The text \<open>{"a":1}\<close>.\<close>

definition example_text :: "u8 list" where
  "example_text = [0x7B, 0x22, 0x61, 0x22, 0x3A, 0x31, 0x7D]"

lemma example_verdict: "stage1_verdict example_text = SUCCESS"
  by code_simp

theorem stage1_regular_witness:
  "\<exists>p'. stage1 example_parser example_text 7 regular = Some (SUCCESS, p') \<and> indexed example_text p'"
proof -
  have "take 7 example_text = example_text" by (simp add: example_text_def)
  then show ?thesis using stage1_regular [of example_parser 7 example_text] example_ready example_verdict
    by (auto simp: example_parser_def example_text_def)
qed

end
