(* ===== verification/Simd_Documents.thy ===== *)
theory Simd_Documents
  imports Simd_Indexer
begin

text \<open>
  Streams of documents in stage 1 of \<^verbatim>\<open>simdjson\<close>: how a window that ends in the middle of a document is
  cut. \<open>find_next_document_index\<close> looks for the last document boundary from the end and counts
  brackets; the reference is the grammar of JSON values over their structural characters. The
  other cut is the one of \<open>trim_partial_utf8\<close>, inside a multibyte character.
\<close>

section \<open>JSON values by their structural characters\<close>

text \<open>A scalar or a key is represented by its first character.\<close>

datatype jval = Scalar u8 | Arr "jval list" | Obj "(u8 \<times> jval) list"

definition op_char :: "u8 \<Rightarrow> bool" where
  "op_char c \<longleftrightarrow> c \<in> {LBRACE, RBRACE, LBRACKET, RBRACKET, COLON, COMMA}"

fun wf_jval :: "jval \<Rightarrow> bool" where
  "wf_jval (Scalar c) \<longleftrightarrow> \<not> op_char c"
| "wf_jval (Arr vs) \<longleftrightarrow> (\<forall>v \<in> set vs. wf_jval v)"
| "wf_jval (Obj kvs) \<longleftrightarrow> (\<forall>kv \<in> set kvs. \<not> op_char (fst kv) \<and> wf_jval (snd kv))"

fun comma_sep :: "u8 list list \<Rightarrow> u8 list" where
  "comma_sep [] = []"
| "comma_sep [t] = t"
| "comma_sep (t # ts) = t @ COMMA # comma_sep ts"

fun toks :: "jval \<Rightarrow> u8 list" where
  "toks (Scalar c) = [c]"
| "toks (Arr vs) = LBRACKET # comma_sep (map toks vs) @ [RBRACKET]"
| "toks (Obj kvs) = LBRACE # comma_sep (map (\<lambda>kv. fst kv # COLON # toks (snd kv)) kvs) @ [RBRACE]"

section \<open>Boundaries and brackets\<close>

definition opens_after :: "u8 \<Rightarrow> bool" where
  "opens_after c \<longleftrightarrow> c \<in> {LBRACE, LBRACKET, COLON, COMMA}"

definition closes_before :: "u8 \<Rightarrow> bool" where
  "closes_before c \<longleftrightarrow> c \<in> {RBRACE, RBRACKET, COLON, COMMA}"

text \<open>Two neighbours between which a document ends and another begins.\<close>

definition boundary :: "u8 \<Rightarrow> u8 \<Rightarrow> bool" where
  "boundary a b \<longleftrightarrow> \<not> opens_after a \<and> \<not> closes_before b"

fun joined :: "u8 list \<Rightarrow> bool" where
  "joined (a # b # cs) \<longleftrightarrow> \<not> boundary a b \<and> joined (b # cs)"
| "joined cs \<longleftrightarrow> True"

fun arr_weight :: "u8 \<Rightarrow> int" where
  "arr_weight c = (if c = LBRACKET then 1 else if c = RBRACKET then - 1 else 0)"

fun obj_weight :: "u8 \<Rightarrow> int" where
  "obj_weight c = (if c = LBRACE then 1 else if c = RBRACE then - 1 else 0)"

abbreviation arr_count :: "u8 list \<Rightarrow> int" where "arr_count cs \<equiv> sum_list (map arr_weight cs)"
abbreviation obj_count :: "u8 list \<Rightarrow> int" where "obj_count cs \<equiv> sum_list (map obj_weight cs)"

definition depth :: "u8 list \<Rightarrow> int" where
  "depth cs = arr_count cs + obj_count cs"

lemma depth_simps [simp]: "depth [] = 0" "depth (c # cs) = arr_weight c + obj_weight c + depth cs"
  "depth (xs @ ys) = depth xs + depth ys"
  by (simp_all add: depth_def)

definition balanced :: "u8 list \<Rightarrow> bool" where
  "balanced cs \<longleftrightarrow> arr_count cs = 0 \<and> obj_count cs = 0 \<and> (\<forall>k. 0 \<le> depth (take k cs))"

lemma balanced_append: "balanced xs \<Longrightarrow> balanced ys \<Longrightarrow> balanced (xs @ ys)"
  by (auto simp: balanced_def)

lemma balanced_single: "\<not> op_char c \<or> c = COLON \<or> c = COMMA \<Longrightarrow> balanced [c]"
  by (auto simp: balanced_def op_char_def take_Cons split: nat.splits)

lemma balanced_Nil [simp]: "balanced []"
  by (simp add: balanced_def)

lemma balanced_Cons: "balanced [c] \<Longrightarrow> balanced xs \<Longrightarrow> balanced (c # xs)"
  using balanced_append [of "[c]" xs] by simp

text \<open>A bracketed text is balanced, and none of its proper beginnings is.\<close>

lemma balanced_bracket:
  assumes "balanced xs" "(a, b) \<in> {(LBRACKET, RBRACKET), (LBRACE, RBRACE)}"
  shows "balanced (a # xs @ [b])" "0 < k \<Longrightarrow> k < length (a # xs @ [b]) \<Longrightarrow> 0 < depth (take k (a # xs @ [b]))"
proof -
  have d: "depth xs = 0" "0 \<le> depth (take j xs)" for j using assms(1) by (simp_all add: balanced_def depth_def)
  have w: "arr_weight a + obj_weight a = 1" "arr_weight b + obj_weight b = - 1" using assms(2) by auto
  have pre: "depth (take (Suc i) (a # xs @ [b])) = 1 + depth (take i xs)" if "i \<le> length xs" for i
    using that w by (simp del: arr_weight.simps obj_weight.simps)
  have all: "depth (a # xs @ [b]) = 0" using d(1) w by (simp del: arr_weight.simps obj_weight.simps)
  have "0 \<le> depth (take j (a # xs @ [b]))" for j
  proof (cases "j = 0 \<or> Suc (length xs) < j")
    case True
    then show ?thesis using all by (auto simp del: depth_simps(2) arr_weight.simps obj_weight.simps)
  next
    case False
    then obtain i where i: "j = Suc i" "i \<le> length xs" by (cases j) auto
    show ?thesis using pre [OF i(2)] d(2) [of i] unfolding i(1) by linarith
  qed
  moreover have "arr_count (a # xs @ [b]) = 0" "obj_count (a # xs @ [b]) = 0" using assms by (auto simp: balanced_def)
  ultimately show "balanced (a # xs @ [b])" by (simp only: balanced_def simp_thms)
  show "0 < k \<Longrightarrow> k < length (a # xs @ [b]) \<Longrightarrow> 0 < depth (take k (a # xs @ [b]))"
    using pre [of "k - 1"] d(2) [of "k - 1"] by simp
qed

lemma balanced_comma_sep: "(\<And>t. t \<in> set ts \<Longrightarrow> balanced t) \<Longrightarrow> balanced (comma_sep ts)"
proof (induction ts rule: comma_sep.induct)
  case (3 t u ts)
  then have t: "balanced t" "balanced (comma_sep (u # ts))" by simp_all
  have "balanced [COMMA]" by (rule balanced_single) simp
  then show ?case using balanced_append [OF t(1) balanced_Cons [OF _ t(2)]] by simp
qed simp_all

lemma balanced_toks: "wf_jval v \<Longrightarrow> balanced (toks v)"
proof (induction v)
  case (Scalar c)
  then show ?case by (simp add: balanced_single)
next
  case (Arr vs)
  have "balanced (comma_sep (map toks vs))" using Arr by (intro balanced_comma_sep) auto
  then show ?case by (simp add: balanced_bracket(1))
next
  case (Obj kvs)
  have "balanced (fst kv # COLON # toks (snd kv))" if "kv \<in> set kvs" for kv
  proof -
    have "balanced (toks (snd kv))" "\<not> op_char (fst kv)" using Obj that by (cases kv, auto)+
    moreover have "balanced [COLON]" by (rule balanced_single) simp
    moreover have "balanced [fst kv]" by (rule balanced_single) (use calculation in simp)
    ultimately show ?thesis by (metis balanced_Cons)
  qed
  then have "balanced (comma_sep (map (\<lambda>kv. fst kv # COLON # toks (snd kv)) kvs))"
    by (intro balanced_comma_sep) auto
  then show ?case by (simp add: balanced_bracket(1))
qed

section \<open>No boundary lies inside a value\<close>

lemma joined_append:
  "joined (xs @ ys) \<longleftrightarrow> joined xs \<and> joined ys \<and> (xs = [] \<or> ys = [] \<or> \<not> boundary (last xs) (hd ys))"
  by (induction xs rule: joined.induct) (auto simp: neq_Nil_conv, (cases ys, auto)+)

text \<open>How a value begins and ends.\<close>

definition value_shaped :: "u8 list \<Rightarrow> bool" where
  "value_shaped t \<longleftrightarrow> t \<noteq> [] \<and> joined t \<and> \<not> closes_before (hd t) \<and> \<not> opens_after (last t)"

lemma joined_comma_sep:
  "(\<And>t. t \<in> set ts \<Longrightarrow> t \<noteq> [] \<and> joined t) \<Longrightarrow> joined (comma_sep ts) \<and> (ts \<noteq> [] \<longrightarrow> comma_sep ts \<noteq> [])"
proof (induction ts rule: comma_sep.induct)
  case (3 t u ts)
  have c: "joined (COMMA # xs) = joined xs" "\<not> boundary a COMMA" for xs a
    by (cases xs) (auto simp: boundary_def opens_after_def closes_before_def)
  show ?case using 3 c by (auto simp: joined_append)
qed auto

lemma joined_bracket:
  assumes "joined xs" "opens_after a" "closes_before b"
  shows "joined (a # xs @ [b])"
proof -
  have "joined (xs @ [b])" using assms by (auto simp: joined_append boundary_def)
  then show ?thesis using assms(2) by (cases "xs @ [b]") (auto simp: boundary_def)
qed

lemma value_shaped_toks: "wf_jval v \<Longrightarrow> value_shaped (toks v)"
proof (induction v)
  case (Scalar c)
  then show ?case by (auto simp: value_shaped_def op_char_def closes_before_def opens_after_def)
next
  case (Arr vs)
  have "joined (comma_sep (map toks vs))"
    by (rule conjunct1 [OF joined_comma_sep]) (use Arr in \<open>auto simp: value_shaped_def\<close>)
  then show ?case
    using joined_bracket [of _ LBRACKET RBRACKET] by (simp add: value_shaped_def closes_before_def opens_after_def)
next
  case (Obj kvs)
  have "joined (fst kv # COLON # toks (snd kv))" if "kv \<in> set kvs" for kv
  proof -
    have "value_shaped (toks (snd kv))" using Obj that by (cases kv) auto
    then show ?thesis
      by (cases "toks (snd kv)") (auto simp: value_shaped_def boundary_def opens_after_def closes_before_def)
  qed
  then have "joined (comma_sep (map (\<lambda>kv. fst kv # COLON # toks (snd kv)) kvs))"
    by (intro conjunct1 [OF joined_comma_sep]) auto
  then show ?case
    using joined_bracket [of _ LBRACE RBRACE] by (simp add: value_shaped_def closes_before_def opens_after_def)
qed

lemma joined_take: "joined xs \<Longrightarrow> joined (take k xs)"
  using joined_append [of "take k xs" "drop k xs"] by simp

section \<open>The search from the end\<close>

text \<open>The structural characters of the parser are \<open>cs\<close>.\<close>

definition structured :: "dom_parser_implementation \<Rightarrow> u8 list \<Rightarrow> bool" where
  "structured p cs \<longleftrightarrow> unat (n_structural_indexes p) = length cs \<and>
    (\<forall>i < length cs. structural_char p i = Some (cs ! i))"

lemma joined_nth: "joined cs \<longleftrightarrow> (\<forall>i. Suc i < length cs \<longrightarrow> \<not> boundary (cs ! i) (cs ! Suc i))"
proof (induction cs rule: joined.induct)
  case (1 a b cs)
  then show ?case by (auto simp: less_Suc_eq_0_disj nth_Cons' split: if_splits)
qed auto

lemma document_loop_spec:
  assumes st: "structured p (pre @ last_doc)" and ld: "joined last_doc" "last_doc \<noteq> []"
    and bd: "pre = [] \<or> boundary (last pre) (hd last_doc)"
  shows "i < length last_doc \<Longrightarrow> document_loop p (length pre + i) a ob =
    (let arr = a + arr_count (take (Suc i) last_doc); obj = ob + obj_count (take (Suc i) last_doc)
     in if pre = [] then Some (Inr (a + arr_count (tl (take (Suc i) last_doc)), ob + obj_count (tl (take (Suc i) last_doc))))
        else if arr = 0 \<and> obj = 0 then Some (Inl (length (pre @ last_doc))) else Some (Inl (length pre)))"
proof (induction i arbitrary: a ob)
  case 0
  show ?case
  proof (cases "pre = []")
    case True
    then show ?thesis by (cases last_doc) auto
  next
    case False
    then obtain m where m: "length pre = Suc m" by (cases pre) auto
    have "structural_char p (Suc m) = Some (hd last_doc)" "structural_char p m = Some (last pre)"
      using st m ld(2) False by (auto simp: structured_def nth_append hd_conv_nth last_conv_nth)
    then show ?thesis
      using m bd False st ld(2)
      by (cases last_doc) (auto simp: boundary_def opens_after_def closes_before_def structured_def Let_def)
  qed
next
  case (Suc i)
  let ?b = "last_doc ! Suc i" and ?a = "last_doc ! i"
  have ch: "structural_char p (length pre + Suc i) = Some ?b" "structural_char p (length pre + i) = Some ?a"
    using st Suc.prems by (simp_all add: structured_def nth_append)
  have nb: "\<not> boundary ?a ?b" using ld(1) Suc.prems by (simp add: joined_nth)
  have tk: "take (Suc (Suc i)) last_doc = take (Suc i) last_doc @ [?b]" using Suc.prems by (simp add: take_Suc_conv_app_nth)
  have tl: "tl (take (Suc (Suc i)) last_doc) = tl (take (Suc i) last_doc) @ [?b]" using Suc.prems unfolding tk by (cases last_doc) auto
  have "document_loop p (length pre + Suc i) a ob = document_loop p (length pre + i) (a + arr_weight ?b) (ob + obj_weight ?b)"
    using ch nb by (auto simp: boundary_def opens_after_def closes_before_def Let_def)
  then show ?case using Suc.IH [of "a + arr_weight ?b" "ob + obj_weight ?b"] Suc.prems tl
    unfolding tk by (simp add: Let_def add.assoc add.commute add.left_commute del: arr_weight.simps obj_weight.simps)
qed

lemma find_next_spec:
  assumes st: "structured p (pre @ last_doc)" and ld: "joined last_doc" "last_doc \<noteq> []"
    and bd: "pre = [] \<or> boundary (last pre) (hd last_doc)"
  shows "find_next_document_index p =
    Some (if arr_count last_doc = 0 \<and> obj_count last_doc = 0 then of_nat (length (pre @ last_doc)) else of_nat (length pre))"
proof -
  let ?n = "n_structural_indexes p"
  have n: "unat ?n = length pre + length last_doc" using st by (simp add: structured_def)
  then have n0: "?n \<noteq> 0" "unat ?n - 1 = length pre + (length last_doc - 1)" using ld(2) by (auto simp: Suc_leI)
  have "of_nat (length (pre @ last_doc)) = (of_nat (unat ?n) :: u32)" by (simp only: n length_append)
  then have nw: "?n = of_nat (length (pre @ last_doc))" by simp
  have i: "length last_doc - 1 < length last_doc" "Suc (length last_doc - 1) = length last_doc" using ld(2) by simp_all
  note lp = document_loop_spec [OF st ld bd i(1), of 0 0, unfolded i(2) take_all [OF order_refl], folded n0(2)]
  show ?thesis
  proof (cases "pre = []")
    case True
    have "structural_char p 0 = Some (hd last_doc)" using st ld(2) True by (simp add: structured_def hd_conv_nth)
    then show ?thesis using lp True n0 nw ld(2) by (cases last_doc) (auto simp: find_next_document_index_def Let_def)
  next
    case False
    then show ?thesis using lp n0 nw by (simp add: find_next_document_index_def Let_def)
  qed
qed

text \<open>For the structural characters of any number of complete documents, followed by a proper beginning
  of another one, the search returns the number of characters of the complete documents.\<close>

theorem find_next_document_index_correct:
  assumes st: "structured p (concat (map toks docs) @ take k (toks v))"
    and wf: "\<forall>d \<in> set docs. wf_jval d" "wf_jval v" and k: "k < length (toks v)"
  shows "find_next_document_index p = Some (of_nat (length (concat (map toks docs))))"
proof (cases "k = 0")
  case False
  let ?pre = "concat (map toks docs)" and ?ld = "take k (toks v)"
  have v: "value_shaped (toks v)" using wf(2) by (rule value_shaped_toks)
  have ld: "joined ?ld" "?ld \<noteq> []" using v False k by (auto simp: value_shaped_def joined_take)
  have "boundary (last ?pre) (hd ?ld)" if "?pre \<noteq> []"
  proof -
    have "docs \<noteq> []" using that by auto
    then obtain ds d where ds: "docs = ds @ [d]" by (metis rev_exhaust)
    then have "value_shaped (toks d)" using wf(1) by (intro value_shaped_toks) simp
    then show ?thesis using v False k by (auto simp: ds boundary_def value_shaped_def)
  qed
  then have bd: "?pre = [] \<or> boundary (last ?pre) (hd ?ld)" by blast
  have "0 < depth ?ld"
  proof (cases v)
    case (Arr vs)
    have "balanced (comma_sep (map toks vs))"
      using wf(2) Arr by (intro balanced_comma_sep) (auto simp: balanced_toks)
    then show ?thesis using balanced_bracket(2) [of _ LBRACKET RBRACKET k] False k Arr by simp
  next
    case (Obj kvs)
    have "balanced (comma_sep (map (\<lambda>kv. fst kv # COLON # toks (snd kv)) kvs))"
      using wf(2) Obj by (intro balanced_comma_sep) (auto intro!: balanced_Cons balanced_single balanced_toks)
    then show ?thesis using balanced_bracket(2) [of _ LBRACE RBRACE k] False k Obj by simp
  qed (use False k in simp)
  then have "\<not> (arr_count ?ld = 0 \<and> obj_count ?ld = 0)" by (simp add: depth_def)
  then show ?thesis using find_next_spec [OF st ld bd] by (simp only: if_False)
next
  case True
  show ?thesis
  proof (cases docs rule: rev_cases)
    case Nil
    then have "n_structural_indexes p = 0" using st True by (simp add: structured_def unat_eq_zero)
    then show ?thesis using Nil by (simp add: find_next_document_index_def)
  next
    case (snoc ds d)
    let ?pre = "concat (map toks ds)"
    have d: "value_shaped (toks d)" "balanced (toks d)" using wf(1) snoc by (simp_all add: value_shaped_toks balanced_toks)
    have "boundary (last ?pre) (hd (toks d))" if "?pre \<noteq> []"
    proof -
      have "ds \<noteq> []" using that by auto
      then obtain es e where es: "ds = es @ [e]" by (metis rev_exhaust)
      then have "value_shaped (toks e)" using wf(1) snoc by (intro value_shaped_toks) simp
      then show ?thesis using d by (auto simp: es boundary_def value_shaped_def)
    qed
    then have bd: "?pre = [] \<or> boundary (last ?pre) (hd (toks d))" by blast
    have "structured p (?pre @ toks d)" using st True snoc by simp
    then show ?thesis using find_next_spec [OF _ _ _ bd] d snoc by (simp add: value_shaped_def balanced_def)
  qed
qed

section \<open>Cutting at a character boundary\<close>

lemma trim_bounds: "trim_partial_utf8 buf len \<le> len" "len \<le> trim_partial_utf8 buf len + 3"
  by (auto simp: trim_partial_utf8_def)

text \<open>In front of a lead byte no character is incomplete.\<close>

lemma lead_not_pending:
  assumes "ok_from 0 0 0 (ys @ [b])" "0xC0 \<le> b"
  shows "\<not> pending_after 0 0 0 ys"
proof -
  obtain q3 q2 q1 where c: "context_after (0, 0, 0) ys = (q3, q2, q1)" by (metis surj_pair)
  have "byte_error q3 q2 q1 b = 0" using assms(1) by (simp add: ok_from_append c)
  moreover have "\<not> cont b" using assms(2) by (auto simp: cont_def not_less)
  ultimately have "\<not> pending q3 q2 q1"
    using follow_cont [of q1 b] by (auto simp: byte_error_zero pending_def not_less split: if_splits)
  then show ?thesis by (simp add: pending_after_context c)
qed

lemma ok_from_take: "ok_from p3 p2 p1 bs \<Longrightarrow> ok_from p3 p2 p1 (take k bs)"
  using ok_from_append [of p3 p2 p1 "take k bs" "drop k bs"] by simp

lemma pending_after_last3:
  assumes "pending_after 0 0 0 bs"
  shows "bs \<noteq> [] \<and> 0xC0 \<le> bs ! (length bs - 1) \<or> 2 \<le> length bs \<and> 0xE0 \<le> bs ! (length bs - 2) \<or>
    3 \<le> length bs \<and> 0xF0 \<le> bs ! (length bs - 3)"
proof (cases "3 \<le> length bs")
  case True
  then show ?thesis using assms by (auto simp: pending_after_context context_after_long pending_def)
next
  case False
  then have "length bs = 0 \<or> length bs = Suc 0 \<or> length bs = Suc (Suc 0)" by arith
  then consider "bs = []" | a where "bs = [a]" | a b where "bs = [a, b]" unfolding length_Suc_conv by auto
  then show ?thesis using assms by cases (auto simp: pending_def byte_order)
qed

lemma trim_lead:
  assumes "trim_partial_utf8 xs len \<noteq> len"
  shows "trim_partial_utf8 xs len < len" "0xC0 \<le> xs ! trim_partial_utf8 xs len"
proof -
  have big: "0xC0 \<le> b" if "0xE0 \<le> b" for b :: u8 using that by (auto simp: byte_order)
  have big': "0xC0 \<le> b" if "0xF0 \<le> b" for b :: u8 using that by (auto simp: byte_order)
  consider "trim_partial_utf8 xs len = len - 1" "0 < len" "0xC0 \<le> xs ! (len - 1)"
    | "trim_partial_utf8 xs len = len - 2" "0 < len" "0xE0 \<le> xs ! (len - 2)"
    | "trim_partial_utf8 xs len = len - 3" "0 < len" "0xF0 \<le> xs ! (len - 3)"
    using assms unfolding trim_partial_utf8_def by (simp split: if_split_asm)
  then show "trim_partial_utf8 xs len < len" "0xC0 \<le> xs ! trim_partial_utf8 xs len"
    by (cases, simp_all add: big big')+
qed

text \<open>The trimmed beginning of a well-formed text is well-formed: only the bytes of one incomplete
  character are left out.\<close>

theorem trim_partial_utf8_valid:
  assumes "utf8_valid xs" "len \<le> length xs"
  shows "utf8_valid (take (trim_partial_utf8 xs len) xs)"
proof -
  let ?t = "trim_partial_utf8 xs len"
  have np: "\<not> pending 0 0 0" by (simp add: pending_def byte_order)
  have v: "utf8_valid bs \<longleftrightarrow> ok_from 0 0 0 bs \<and> \<not> pending_after 0 0 0 bs" for bs
    using accepts_valid [OF np, of bs] by (simp add: accepts_def)
  have ok: "ok_from 0 0 0 (take k xs)" for k using assms(1) v ok_from_take by blast
  have cut: "\<not> pending_after 0 0 0 (take k xs)" if "k < length xs" "0xC0 \<le> xs ! k" for k
    using ok [of "Suc k"] that by (intro lead_not_pending [of _ "xs ! k"]) (simp_all add: take_Suc_conv_app_nth)
  have l: "length (take len xs) = len" using assms(2) by simp
  have "\<not> pending_after 0 0 0 (take ?t xs)"
  proof (cases "?t = len")
    case True
    have "\<not> (len \<noteq> 0 \<and> 0xC0 \<le> xs ! (len - 1) \<or> 2 \<le> len \<and> 0xE0 \<le> xs ! (len - 2) \<or> 3 \<le> len \<and> 0xF0 \<le> xs ! (len - 3))"
      using True by (auto simp: trim_partial_utf8_def split: if_splits)
    then show ?thesis
      using pending_after_last3 [of "take len xs"] l True by (auto simp: nth_take)
  next
    case False
    then show ?thesis using cut [of ?t] trim_lead [OF False] assms(2) by simp
  qed
  then show ?thesis using ok v by blast
qed

section \<open>Stage 1 on a window of a stream\<close>

text \<open>The structural characters of a text; an unclosed string is left out.\<close>

definition structural_chars :: "u8 list \<Rightarrow> u8 list" where
  "structural_chars bs = map (\<lambda>i. bs ! i) (token_starts bs (length bs))"

definition closed_chars :: "u8 list \<Rightarrow> u8 list" where
  "closed_chars bs = (if unclosed bs then butlast (structural_chars bs) else structural_chars bs)"

lemma indexed_nth:
  assumes "indexed bs p" "i < length (token_starts bs (length bs))"
  shows "i < length (structural_indexes p)" "structural_indexes p ! i = of_nat (token_starts bs (length bs) ! i)"
proof -
  let ?T = "token_starts bs (length bs)"
  have t: "take (length ?T + 3) (structural_indexes p) = map of_nat ?T @ [of_nat (length bs), of_nat (length bs), 0]"
    using assms(1) by (simp add: indexed_def Let_def)
  have "length (take (length ?T + 3) (structural_indexes p)) = length ?T + 3" unfolding t by simp
  then show "i < length (structural_indexes p)" using assms(2) by simp
  have "structural_indexes p ! i = take (length ?T + 3) (structural_indexes p) ! i" using assms(2) by simp
  then show "structural_indexes p ! i = of_nat (?T ! i)" unfolding t using assms(2) by (simp add: nth_append)
qed

lemma structured_window:
  assumes ix: "indexed bs p" and buf: "dp_buf p = buf" "bs = take t buf" "t \<le> length buf" "t \<le> SIMDJSON_MAXSIZE_BYTES"
    and n: "unat n = length cs" and cs: "cs = take (length cs) (structural_chars bs)"
  shows "structured (p\<lparr>n_structural_indexes := n\<rparr>) cs"
  unfolding structured_def
proof (intro conjI allI impI)
  fix i assume i: "i < length cs"
  let ?T = "token_starts bs (length bs)"
  have lb: "length bs = t" using buf(2,3) by simp
  have "length cs \<le> length ?T" using cs by (metis length_map length_take min.cobounded1 structural_chars_def)
  then have iT: "i < length ?T" using i by simp
  have Ti: "?T ! i < t" using token_starts_bound(2) [of "?T ! i" bs "length bs"] iT lb by simp
  have "cs ! i = structural_chars bs ! i" using i by (subst cs) simp
  also have "\<dots> = buf ! (?T ! i)" using iT Ti buf(2) by (simp add: structural_chars_def)
  finally have "cs ! i = buf ! (?T ! i)" .
  then show "structural_char (p\<lparr>n_structural_indexes := n\<rparr>) i = Some (cs ! i)"
    using indexed_nth [OF ix iT] Ti buf(1,3,4) by (simp add: structural_char_def load_def unat_of_nat_u32)
qed (use n in simp)

lemma finish_mode_streaming:
  assumes st: "structured (p\<lparr>n_structural_indexes := n'\<rparr>) (concat (map toks docs) @ take k (toks v))"
    and n': "n' = (if u then n_structural_indexes p - 1 else n_structural_indexes p)"
    and wf: "\<forall>d \<in> set docs. wf_jval d" "wf_jval v" "k < length (toks v)" "docs \<noteq> []"
    and len: "unat n' + 2 \<le> length (structural_indexes p)" and mode: "partial \<noteq> regular"
  defines "D \<equiv> length (concat (map toks docs))"
  shows "\<exists>p'. finish_mode partial u e len p = Some (e, p') \<and> unat (n_structural_indexes p') = D \<and>
    take D (structural_indexes p') = take D (structural_indexes p) \<and> dp_capacity p' = dp_capacity p \<and>
    length (structural_indexes p') = length (structural_indexes p) \<and>
    structural_indexes p' ! D = (if partial = streaming_final then of_nat len else structural_indexes p ! D)"
proof -
  let ?q = "p\<lparr>n_structural_indexes := n'\<rparr>"
  have q: "(if u then p\<lparr>n_structural_indexes := n_structural_indexes p - 1\<rparr> else p) = ?q" by (simp add: n')
  have f: "find_next_document_index ?q = Some (of_nat D)"
    using find_next_document_index_correct [OF st wf(1,2,3)] by (simp add: D_def)
  have un: "unat n' = D + length (take k (toks v))" using st by (simp add: structured_def D_def)
  have "D < 2 ^ 32" using un unsigned_less [of n', where 'a = nat] by simp
  then have uD: "unat (of_nat D :: u32) = D" by (simp add: unat_of_nat)
  obtain d ds where "docs = d # ds" using wf(4) by (cases docs) auto
  then have D0: "0 < D" using wf(1) value_shaped_toks [of d] by (simp add: D_def value_shaped_def)
  then have ne: "(of_nat D :: u32) \<noteq> 0" "n' \<noteq> 0" using uD un by (metis less_nat_zero_code unat_0, auto)
  have DL: "D + 1 < length (structural_indexes p)" using len un by simp
  show ?thesis
  proof (cases partial)
    case streaming_partial
    then show ?thesis unfolding finish_mode_def by (simp add: q f ne Let_def uD)
  next
    case streaming_final
    then show ?thesis unfolding finish_mode_def using DL by (simp add: q f ne Let_def uD load_def store_def)
  qed (use mode in simp)
qed

text \<open>The parser after stage 1 on a window: the indexes of the complete documents, and behind them the index at which the
  next window is to begin.\<close>

lemma stage1_window:
  assumes ready: "parser_ready p" "0 < len" "len \<le> dp_capacity p" "len \<le> length buf"
    and mode: "partial \<noteq> regular" and t: "t = trim_partial_utf8 buf len" "0 < t"
    and txts: "\<not> has_control (take t buf)" "utf8_valid (take t buf)"
      "closed_chars (take t buf) = concat (map toks docs) @ take k (toks v)"
    and docs: "docs \<noteq> []" "\<forall>d \<in> set docs. wf_jval d" "wf_jval v" "k < length (toks v)"
  defines "D \<equiv> length (concat (map toks docs))"
  shows "\<exists>p'. stage1 p buf len partial = Some (SUCCESS, p') \<and> unat (n_structural_indexes p') = D \<and>
    take D (structural_indexes p') = map of_nat (take D (token_starts (take t buf) t)) \<and>
    parser_ready p' \<and> dp_capacity p' = dp_capacity p \<and> D + 1 < length (structural_indexes p') \<and>
    structural_indexes p' ! D = (if partial \<noteq> streaming_final \<and> D < length (token_starts (take t buf) t)
      then of_nat (token_starts (take t buf) t ! D) else of_nat t)"
proof -
  let ?p = "p\<lparr>dp_buf := buf, dp_len := len\<rparr>" and ?bs = "take t buf"
  let ?T = "token_starts ?bs t" and ?u = "unclosed ?bs"
  have tl: "t \<le> len" "t \<le> length buf" "length ?bs = t" using t(1) trim_bounds(1) [of buf len] ready(4) by simp_all
  have size: "t \<le> SIMDJSON_MAXSIZE_BYTES" "t + 3 \<le> length (structural_indexes p)"
    using ready tl(1) roundup_ge [of "dp_capacity p"] by (simp_all add: parser_ready_def)
  have r: "parser_ready ?p" "len \<le> dp_capacity ?p" using ready by (simp_all add: parser_ready_def)
  have str: "is_streaming partial" using mode by (simp add: is_streaming_def)
  have cs: "closed_chars ?bs = take (length (closed_chars ?bs)) (structural_chars ?bs)" "length (closed_chars ?bs) = (if ?u then length ?T - 1 else length ?T)"
    by (simp_all add: closed_chars_def butlast_conv_take structural_chars_def min.absorb2 [OF tl(2)])
  obtain d ds where "docs = d # ds" using docs(1) by (cases docs) auto
  then have "closed_chars ?bs \<noteq> []" using txts(3) docs(2) value_shaped_toks [of d] by (simp add: value_shaped_def)
  then have cl: "0 < length (closed_chars ?bs)" by simp
  then have "?T \<noteq> []" unfolding cs(2) by (auto split: if_splits)
  note T0 = this cl
  from indexer_index_spec [OF r(1) ready(2) r(2) ready(4), of t partial] t str tl(1) txts(1,2) T0(1) mode
  obtain m where m: "length m = length (structural_indexes p)"
    "indexed ?bs (?p\<lparr>structural_indexes := m, n_structural_indexes := of_nat (length ?T), next_structural_index := 0\<rparr>)"
    "stage1 p buf len partial = finish_mode partial ?u SUCCESS t
      (?p\<lparr>structural_indexes := m, n_structural_indexes := of_nat (length ?T), next_structural_index := 0\<rparr>)"
    by (auto simp: stage1_def Let_def)
  let ?q = "?p\<lparr>structural_indexes := m, n_structural_indexes := of_nat (length ?T), next_structural_index := 0\<rparr>"
  define n' :: u32 where "n' = (if ?u then of_nat (length ?T) - 1 else of_nat (length ?T))"
  have lT: "length ?T \<le> t" by (rule token_starts_bound(1))
  have "n' = of_nat (length (closed_chars ?bs))" using T0 cs(2) by (cases ?T) (simp_all add: n'_def)
  moreover have "length (closed_chars ?bs) \<le> SIMDJSON_MAXSIZE_BYTES" using cs(2) lT size(1) by (simp split: if_splits)
  ultimately have un: "unat n' = length (closed_chars ?bs)" by (simp add: unat_of_nat_u32)
  have st: "structured (?q\<lparr>n_structural_indexes := n'\<rparr>) (closed_chars ?bs)"
    by (rule structured_window [OF m(2) _ refl tl(2) size(1) un cs(1)]) simp
  have D: "D \<le> length ?T" using cs(2) txts(3) by (simp add: D_def split: if_splits)
  have room: "unat n' + 2 \<le> length (structural_indexes ?q)" using un cs(2) lT size(2) m(1) by (simp split: if_splits)
  have "take D m = map of_nat (take D ?T)"
    using indexed_nth [OF m(2)] D tl(3) m(1) lT size(2) by (intro nth_equalityI) auto
  moreover have "m ! D = (if D < length ?T then of_nat (?T ! D) else of_nat t)"
  proof (cases "D < length ?T")
    case False
    then have "D = length ?T" using D by simp
    moreover have "take (length ?T + 3) m = map of_nat ?T @ [of_nat t, of_nat t, 0]"
      using m(2) tl(3) by (simp add: indexed_def Let_def)
    then have "take (length ?T + 3) m ! length ?T = of_nat t" by (simp add: nth_append)
    ultimately show ?thesis using False by simp
  qed (use indexed_nth [OF m(2)] tl(3) in simp)
  moreover have "D + 1 < length m" using D lT size(2) m(1) by simp
  moreover have nq: "n' = (if ?u then n_structural_indexes ?q - 1 else n_structural_indexes ?q)" by (simp add: n'_def)
  moreover obtain p' where "stage1 p buf len partial = Some (SUCCESS, p')" "unat (n_structural_indexes p') = D"
    "take D (structural_indexes p') = take D m" "dp_capacity p' = dp_capacity p" "length (structural_indexes p') = length m"
    "structural_indexes p' ! D = (if partial = streaming_final then of_nat t else m ! D)"
    using finish_mode_streaming [OF st [unfolded txts(3)] nq docs(2,3,4,1) room mode, of SUCCESS t, folded D_def m(3)]
    by auto
  ultimately show ?thesis using ready(1) m(1) by (intro exI [of _ p']) (simp add: parser_ready_def)
qed

text \<open>C16: stage 1 on a window of a stream of documents that ends inside of a document: exactly the structural positions
  of the complete documents remain.\<close>

theorem stage1_streaming:
  assumes ready: "parser_ready p" "0 < len" "len \<le> dp_capacity p" "len \<le> length buf"
    and mode: "partial \<noteq> regular" and t: "t = trim_partial_utf8 buf len" "0 < t"
    and txts: "\<not> has_control (take t buf)" "utf8_valid (take t buf)"
      "closed_chars (take t buf) = concat (map toks docs) @ take k (toks v)"
    and docs: "docs \<noteq> []" "\<forall>d \<in> set docs. wf_jval d" "wf_jval v" "k < length (toks v)"
  defines "D \<equiv> length (concat (map toks docs))"
  shows "\<exists>p'. stage1 p buf len partial = Some (SUCCESS, p') \<and> unat (n_structural_indexes p') = D \<and>
    take D (structural_indexes p') = map of_nat (take D (token_starts (take t buf) t))"
  using stage1_window [OF assms(1-14)] unfolding D_def by blast

text \<open>The text \<open>[1] [2\<close>: a document, and the beginning of another one.\<close>

definition example_stream :: "u8 list" where
  "example_stream = [0x5B, 0x31, 0x5D, 0x20, 0x5B, 0x32]"

lemma example_stream_facts:
  "trim_partial_utf8 example_stream 6 = 6" "\<not> has_control example_stream" "utf8_valid example_stream"
  "closed_chars example_stream = [0x5B, 0x31, 0x5D, 0x5B, 0x32]"
  "token_starts example_stream 6 = [0, 1, 2, 4, 5]"
  by code_simp+

theorem stage1_streaming_witness:
  "\<exists>p'. stage1 example_parser example_stream 6 streaming_partial = Some (SUCCESS, p') \<and> unat (n_structural_indexes p') = 3 \<and>
    take 3 (structural_indexes p') = [0, 1, 2]"
proof -
  let ?docs = "[Arr [Scalar 0x31]]" and ?v = "Arr [Scalar 0x32]"
  have t: "take 6 example_stream = example_stream" "length example_stream = 6" by (simp_all add: example_stream_def)
  have d: "concat (map toks ?docs) = [0x5B, 0x31, 0x5D]" "take 2 (toks ?v) = [0x5B, 0x32]" "2 < length (toks ?v)"
    "\<forall>d \<in> set ?docs. wf_jval d" "wf_jval ?v" by code_simp+
  have "\<exists>p'. stage1 example_parser example_stream 6 streaming_partial = Some (SUCCESS, p') \<and>
      unat (n_structural_indexes p') = length (concat (map toks ?docs)) \<and>
      take (length (concat (map toks ?docs))) (structural_indexes p') =
        map of_nat (take (length (concat (map toks ?docs))) (token_starts (take 6 example_stream) 6))"
    by (rule stage1_streaming [where k = 2 and v = ?v]; (unfold t(1))?)
      (use example_ready example_stream_facts t d in \<open>simp_all add: example_parser_def del: toks.simps wf_jval.simps\<close>)
  then show ?thesis unfolding d(1) t(1) example_stream_facts by (simp add: numeral_3_eq_3)
qed

end
