(* ===== verification/Simd_Numbers.thy ===== *)
theory Simd_Numbers
  imports Simd_Indexer
begin

text \<open>
  Integers and atoms of \<^verbatim>\<open>simdjson\<close> (\<^verbatim>\<open>numberparsing.h\<close>, \<^verbatim>\<open>atomparsing.h\<close>, \<^verbatim>\<open>jsoncharutils.h\<close> and
  \<^verbatim>\<open>arm64/numberparsing_defs.h\<close>): the readers of 64-bit integers, the routines that read eight digits at
  once, and the recognisers of \<open>true\<close>, \<open>false\<close> and \<open>null\<close>. The text is memory of fixed size with a position;
  a read outside of it is undefined behaviour, the value \<open>None\<close>. A result is an error code (\<open>Inl\<close>) or the
  number, a 64-bit word that wraps around as the code's does.
\<close>

type_synonym 'a simdjson_result = "error_code + 'a"

section \<open>Tables\<close>

definition structural_or_whitespace :: "bool list" where
  "structural_or_whitespace = replicate 9 False @ [True, True, False, False, True] @ replicate 18 False @ [True]
    @ replicate 11 False @ [True] @ replicate 13 False @ [True] @ replicate 32 False @ [True, False, True]
    @ replicate 29 False @ [True, False, True] @ replicate 130 False"

definition structural_or_whitespace_negated :: "bool list" where
  "structural_or_whitespace_negated = replicate 9 True @ [False, False, True, True, False] @ replicate 18 True @ [False]
    @ replicate 11 True @ [False] @ replicate 13 True @ [False] @ replicate 32 True @ [False, True, False]
    @ replicate 29 True @ [False, True, False] @ replicate 130 True"

definition integer_string_finisher :: "error_code list" where
  "integer_string_finisher = replicate 9 NUMBER_ERROR @ [SUCCESS, SUCCESS, NUMBER_ERROR, NUMBER_ERROR, SUCCESS]
    @ replicate 18 NUMBER_ERROR @ [SUCCESS] @ replicate 11 NUMBER_ERROR @ [SUCCESS, NUMBER_ERROR, INCORRECT_TYPE]
    @ replicate 11 NUMBER_ERROR @ [SUCCESS] @ replicate 10 NUMBER_ERROR @ [INCORRECT_TYPE]
    @ replicate 21 NUMBER_ERROR @ [SUCCESS, NUMBER_ERROR, SUCCESS] @ replicate 7 NUMBER_ERROR @ [INCORRECT_TYPE]
    @ replicate 21 NUMBER_ERROR @ [SUCCESS, NUMBER_ERROR, SUCCESS] @ replicate 130 NUMBER_ERROR"

definition is_not_structural_or_whitespace :: "u8 \<Rightarrow> u32" where
  "is_not_structural_or_whitespace c = of_bool (structural_or_whitespace_negated ! unat c)"

definition is_structural_or_whitespace :: "u8 \<Rightarrow> u32" where
  "is_structural_or_whitespace c = of_bool (structural_or_whitespace ! unat c)"

section \<open>Digits\<close>

definition is_digit :: "u8 \<Rightarrow> bool" where
  "is_digit c \<longleftrightarrow> c - 0x30 \<le> 9"

text \<open>The new value of \<open>i\<close>, or \<open>None\<close> for false.\<close>

definition parse_digit :: "u8 \<Rightarrow> u64 \<Rightarrow> u64 option" where
  "parse_digit c i = (let digit = c - 0x30 in if digit > 9 then None else Some (10 * i + ucast digit))"

text \<open>\<open>while (parse_digit(*p, i)) { p++; }\<close> and the variant that stops at \<open>src_end\<close>.\<close>

function digits_loop :: "u8 list \<Rightarrow> nat \<Rightarrow> u64 \<Rightarrow> (nat \<times> u64) option" where
  "digits_loop src p i =
    (if p < length src
     then (case parse_digit (src ! p) i of None \<Rightarrow> Some (p, i) | Some i' \<Rightarrow> digits_loop src (p + 1) i')
     else None)"
  by pat_completeness auto
termination by (relation "measure (\<lambda>(src, p, i). length src - p)") auto

function digits_loop_end :: "u8 list \<Rightarrow> nat \<Rightarrow> nat \<Rightarrow> u64 \<Rightarrow> (nat \<times> u64) option" where
  "digits_loop_end src src_end p i =
    (if p = src_end then Some (p, i)
     else if p < length src
     then (case parse_digit (src ! p) i of None \<Rightarrow> Some (p, i) | Some i' \<Rightarrow> digits_loop_end src src_end (p + 1) i')
     else None)"
  by pat_completeness auto
termination by (relation "measure (\<lambda>(src, e, p, i). length src - p)") auto

declare digits_loop.simps [simp del] digits_loop_end.simps [simp del]

section \<open>Integers\<close>

definition INT64_MAX :: u64 where "INT64_MAX = 0x7FFFFFFFFFFFFFFF"

definition parse_unsigned :: "u8 list \<Rightarrow> nat \<Rightarrow> u64 simdjson_result option" where
  "parse_unsigned src s = do {
     (p, i) \<leftarrow> digits_loop src s 0;
     let digit_count = p - s;
     if digit_count = 0 \<or> digit_count > 20 then Some (Inl INCORRECT_TYPE)
     else if src ! s = 0x30 \<and> digit_count > 1 then Some (Inl NUMBER_ERROR)
     else if integer_string_finisher ! unat (src ! p) \<noteq> SUCCESS then Some (Inl (integer_string_finisher ! unat (src ! p)))
     else if digit_count = 20 \<and> (src ! s \<noteq> 0x31 \<or> i \<le> INT64_MAX) then Some (Inl INCORRECT_TYPE)
     else Some (Inr i) }"

definition parse_unsigned_end :: "u8 list \<Rightarrow> nat \<Rightarrow> nat \<Rightarrow> u64 simdjson_result option" where
  "parse_unsigned_end src s src_end = do {
     (p, i) \<leftarrow> digits_loop_end src src_end s 0;
     let digit_count = p - s;
     if digit_count = 0 \<or> digit_count > 20 then Some (Inl INCORRECT_TYPE)
     else if src ! s = 0x30 \<and> digit_count > 1 then Some (Inl NUMBER_ERROR)
     else if p \<noteq> src_end \<and> integer_string_finisher ! unat (src ! p) \<noteq> SUCCESS
     then Some (Inl (integer_string_finisher ! unat (src ! p)))
     else if digit_count = 20 \<and> (src ! s \<noteq> 0x31 \<or> i \<le> INT64_MAX) then Some (Inl INCORRECT_TYPE)
     else Some (Inr i) }"

definition parse_unsigned_in_string :: "u8 list \<Rightarrow> nat \<Rightarrow> u64 simdjson_result option" where
  "parse_unsigned_in_string src s = do {
     (p, i) \<leftarrow> digits_loop src (s + 1) 0;
     let digit_count = p - (s + 1);
     if digit_count = 0 \<or> digit_count > 20 then Some (Inl INCORRECT_TYPE)
     else if src ! (s + 1) = 0x30 \<and> digit_count > 1 then Some (Inl NUMBER_ERROR)
     else if src ! p \<noteq> 0x22 then Some (Inl NUMBER_ERROR)
     else if digit_count = 20 \<and> (src ! (s + 1) \<noteq> 0x31 \<or> i \<le> INT64_MAX) then Some (Inl INCORRECT_TYPE)
     else Some (Inr i) }"

text \<open>The result is the bit pattern of the \<open>int64_t\<close>.\<close>

definition parse_integer :: "u8 list \<Rightarrow> nat \<Rightarrow> u64 simdjson_result option" where
  "parse_integer src s = do {
     c \<leftarrow> load src s;
     let negative = (c = 0x2D);
     let start_digits = s + of_bool negative;
     (p, i) \<leftarrow> digits_loop src start_digits 0;
     let digit_count = p - start_digits;
     let longest_digit_count = 19;
     if digit_count = 0 \<or> digit_count > longest_digit_count then Some (Inl INCORRECT_TYPE)
     else if src ! start_digits = 0x30 \<and> digit_count > 1 then Some (Inl NUMBER_ERROR)
     else if integer_string_finisher ! unat (src ! p) \<noteq> SUCCESS then Some (Inl (integer_string_finisher ! unat (src ! p)))
     else if i > INT64_MAX + of_bool negative then Some (Inl INCORRECT_TYPE)
     else Some (Inr (if negative then NOT i + 1 else i)) }"

definition parse_integer_end :: "u8 list \<Rightarrow> nat \<Rightarrow> nat \<Rightarrow> u64 simdjson_result option" where
  "parse_integer_end src s src_end =
    (if s = src_end then Some (Inl NUMBER_ERROR)
     else do {
       c \<leftarrow> load src s;
       let negative = (c = 0x2D);
       let start_digits = s + of_bool negative;
       (p, i) \<leftarrow> digits_loop_end src src_end start_digits 0;
       let digit_count = p - start_digits;
       let longest_digit_count = 19;
       if digit_count = 0 \<or> digit_count > longest_digit_count then Some (Inl INCORRECT_TYPE)
       else if src ! start_digits = 0x30 \<and> digit_count > 1 then Some (Inl NUMBER_ERROR)
       else if p \<noteq> src_end \<and> integer_string_finisher ! unat (src ! p) \<noteq> SUCCESS
       then Some (Inl (integer_string_finisher ! unat (src ! p)))
       else if i > INT64_MAX + of_bool negative then Some (Inl INCORRECT_TYPE)
       else Some (Inr (if negative then NOT i + 1 else i)) })"

definition parse_integer_in_string :: "u8 list \<Rightarrow> nat \<Rightarrow> u64 simdjson_result option" where
  "parse_integer_in_string src s = do {
     c \<leftarrow> load src (s + 1);
     let negative = (c = 0x2D);
     let start_digits = s + (of_bool negative + 1);
     (p, i) \<leftarrow> digits_loop src start_digits 0;
     let digit_count = p - start_digits;
     let longest_digit_count = 19;
     if digit_count = 0 \<or> digit_count > longest_digit_count then Some (Inl INCORRECT_TYPE)
     else if src ! start_digits = 0x30 \<and> digit_count > 1 then Some (Inl NUMBER_ERROR)
     else if src ! p \<noteq> 0x22 then Some (Inl NUMBER_ERROR)
     else if i > INT64_MAX + of_bool negative then Some (Inl INCORRECT_TYPE)
     else Some (Inr (if negative then NOT i + 1 else i)) }"

section \<open>Eight digits at once\<close>

text \<open>\<open>memcpy\<close> of eight bytes into a \<open>uint64_t\<close>, little endian.\<close>

definition load_u64 :: "u8 list \<Rightarrow> u64" where
  "load_u64 chars = le_u64 (take 8 chars)"

definition is_made_of_eight_digits_fast :: "u8 list \<Rightarrow> bool" where
  "is_made_of_eight_digits_fast chars =
    (let v = load_u64 chars
     in (v AND 0xF0F0F0F0F0F0F0F0) OR drop_bit 4 ((v + 0x0606060606060606) AND 0xF0F0F0F0F0F0F0F0) = 0x3333333333333333)"

definition parse_eight_digits_unrolled :: "u8 list \<Rightarrow> u32" where
  "parse_eight_digits_unrolled chars =
    (let v = load_u64 chars;
         v = drop_bit 8 ((v AND 0x0F0F0F0F0F0F0F0F) * 2561);
         v = drop_bit 16 ((v AND 0x00FF00FF00FF00FF) * 6553601)
     in ucast (drop_bit 32 ((v AND 0x0000FFFF0000FFFF) * 42949672960001)))"

section \<open>Atoms\<close>

definition load_u32 :: "u8 list \<Rightarrow> u32" where
  "load_u32 bs = ucast (le_u64 (take 4 bs))"

definition string_to_uint32 :: "u8 list \<Rightarrow> u32" where
  "string_to_uint32 str = load_u32 str"

definition str4ncmp :: "u8 list \<Rightarrow> nat \<Rightarrow> u8 list \<Rightarrow> u32 option" where
  "str4ncmp src s atom =
    (if s + 4 \<le> length src then Some (load_u32 (drop s src) XOR string_to_uint32 atom) else None)"

definition is_valid_true_atom :: "u8 list \<Rightarrow> nat \<Rightarrow> bool option" where
  "is_valid_true_atom src s = do {
     d \<leftarrow> str4ncmp src s [0x74, 0x72, 0x75, 0x65];
     c \<leftarrow> load src (s + 4);
     Some (d OR is_not_structural_or_whitespace c = 0) }"

definition is_valid_true_atom_len :: "u8 list \<Rightarrow> nat \<Rightarrow> nat \<Rightarrow> bool option" where
  "is_valid_true_atom_len src s len =
    (if len > 4 then is_valid_true_atom src s
     else if len = 4 then map_option (\<lambda>d. d = 0) (str4ncmp src s [0x74, 0x72, 0x75, 0x65])
     else Some False)"

definition is_valid_false_atom :: "u8 list \<Rightarrow> nat \<Rightarrow> bool option" where
  "is_valid_false_atom src s = do {
     d \<leftarrow> str4ncmp src (s + 1) [0x61, 0x6C, 0x73, 0x65];
     c \<leftarrow> load src (s + 5);
     Some (d OR is_not_structural_or_whitespace c = 0) }"

definition is_valid_false_atom_len :: "u8 list \<Rightarrow> nat \<Rightarrow> nat \<Rightarrow> bool option" where
  "is_valid_false_atom_len src s len =
    (if len > 5 then is_valid_false_atom src s
     else if len = 5 then map_option (\<lambda>d. d = 0) (str4ncmp src (s + 1) [0x61, 0x6C, 0x73, 0x65])
     else Some False)"

definition is_valid_null_atom :: "u8 list \<Rightarrow> nat \<Rightarrow> bool option" where
  "is_valid_null_atom src s = do {
     d \<leftarrow> str4ncmp src s [0x6E, 0x75, 0x6C, 0x6C];
     c \<leftarrow> load src (s + 4);
     Some (d OR is_not_structural_or_whitespace c = 0) }"

definition is_valid_null_atom_len :: "u8 list \<Rightarrow> nat \<Rightarrow> nat \<Rightarrow> bool option" where
  "is_valid_null_atom_len src s len =
    (if len > 4 then is_valid_null_atom src s
     else if len = 4 then map_option (\<lambda>d. d = 0) (str4ncmp src s [0x6E, 0x75, 0x6C, 0x6C])
     else Some False)"


section \<open>The value of a numeral\<close>

definition digit_value :: "u8 \<Rightarrow> nat" where "digit_value c = unat c - 48"

fun dec_value :: "u8 list \<Rightarrow> nat" where
  "dec_value [] = 0"
| "dec_value (d # ds) = digit_value d * 10 ^ length ds + dec_value ds"

lemma is_digit_range: "is_digit c \<longleftrightarrow> 48 \<le> unat c \<and> unat c \<le> 57"
  using unsigned_less [of c, where 'a = nat] by (simp add: is_digit_def word_le_nat_alt unat_sub_if'; linarith)

lemma unat_48: "unat (0x30 :: u8) = 48" by simp

lemma parse_digit_correct:
  "parse_digit c i = (if is_digit c then Some (10 * i + of_nat (digit_value c)) else None)"
proof (cases "is_digit c")
  case True
  then have "(ucast (c - 0x30) :: u64) = of_nat (digit_value c)"
    by (metis is_digit_range digit_value_def of_nat_unat unat_sub word_le_nat_alt unat_48)
  then show ?thesis using True by (simp add: parse_digit_def is_digit_def Let_def not_less)
qed (simp add: parse_digit_def is_digit_def Let_def not_le)

lemma dec_value_foldl: "foldl (\<lambda>a c. 10 * a + digit_value c) a ds = a * 10 ^ length ds + dec_value ds"
  by (induction ds arbitrary: a) (simp_all add: algebra_simps)

lemma dec_value_bound: "\<forall>d \<in> set ds. is_digit d \<Longrightarrow> dec_value ds < 10 ^ length ds"
proof (induction ds)
  case (Cons d ds)
  then have "digit_value d \<le> 9" "dec_value ds < 10 ^ length ds" by (auto simp: is_digit_range digit_value_def)
  moreover from this have "digit_value d * 10 ^ length ds \<le> 9 * 10 ^ length ds" by (intro mult_right_mono) simp_all
  ultimately show ?case unfolding dec_value.simps length_Cons power_Suc by linarith
qed simp

lemma digits_loop_correct:
  assumes "\<forall>d \<in> set ds. is_digit d" "\<not> is_digit c"
  shows "digits_loop (pre @ ds @ c # post) (length pre) (of_nat a) =
    Some (length pre + length ds, of_nat (foldl (\<lambda>a c. 10 * a + digit_value c) a ds))"
  using assms(1)
proof (induction ds arbitrary: pre a)
  case Nil
  then show ?case using assms(2) by (subst digits_loop.simps) (simp add: parse_digit_correct nth_append)
next
  case (Cons d ds)
  have "digits_loop (pre @ (d # ds) @ c # post) (length pre) (of_nat a) =
      digits_loop ((pre @ [d]) @ ds @ c # post) (length (pre @ [d])) (of_nat (10 * a + digit_value d))"
    using Cons.prems by (subst digits_loop.simps) (simp add: parse_digit_correct nth_append)
  then show ?case using Cons.IH [of "pre @ [d]" "10 * a + digit_value d"] Cons.prems by simp
qed

lemma digits_loop_end_correct:
  assumes "\<forall>d \<in> set ds. is_digit d" "post = [] \<or> \<not> is_digit (hd post)"
    "src_end = length pre + length ds + length post"
  shows "digits_loop_end (pre @ ds @ post @ pad) src_end (length pre) (of_nat a) =
    Some (length pre + length ds, of_nat (foldl (\<lambda>a c. 10 * a + digit_value c) a ds))"
  using assms(1,3)
proof (induction ds arbitrary: pre a)
  case Nil
  then show ?case using assms(2)
    by (subst digits_loop_end.simps) (auto simp: parse_digit_correct nth_append hd_conv_nth)
next
  case (Cons d ds)
  have "digits_loop_end (pre @ (d # ds) @ post @ pad) src_end (length pre) (of_nat a) =
      digits_loop_end ((pre @ [d]) @ ds @ post @ pad) src_end (length (pre @ [d])) (of_nat (10 * a + digit_value d))"
    using Cons.prems by (subst digits_loop_end.simps) (simp add: parse_digit_correct nth_append)
  then show ?case using Cons.IH [of "pre @ [d]" "10 * a + digit_value d"] Cons.prems by simp
qed

text \<open>What follows a number: a separator ends it, a point or an exponent makes it a number of another type.\<close>

definition after_number :: "u8 \<Rightarrow> error_code" where
  "after_number c = (if c \<in> {0x20, 0x09, 0x0A, 0x0D, 0x2C, 0x3A, 0x5B, 0x5D, 0x7B, 0x7D} then SUCCESS
    else if c \<in> {0x2E, 0x45, 0x65} then INCORRECT_TYPE else NUMBER_ERROR)"

lemma integer_string_finisher_correct: "integer_string_finisher ! unat c = after_number c"
  by (rule u8_all [of _ c]) (simp_all add: integer_string_finisher_def after_number_def nth_append)

definition unsigned_ref :: "u8 list \<Rightarrow> error_code \<Rightarrow> u64 simdjson_result" where
  "unsigned_ref ds e =
    (if ds = [] \<or> 20 < length ds then Inl INCORRECT_TYPE
     else if hd ds = 0x30 \<and> 1 < length ds then Inl NUMBER_ERROR
     else if e \<noteq> SUCCESS then Inl e
     else if dec_value ds < 2 ^ 64 then Inr (of_nat (dec_value ds)) else Inl INCORRECT_TYPE)"

definition signed_ref :: "bool \<Rightarrow> u8 list \<Rightarrow> error_code \<Rightarrow> u64 simdjson_result" where
  "signed_ref negative ds e =
    (if ds = [] \<or> 19 < length ds then Inl INCORRECT_TYPE
     else if hd ds = 0x30 \<and> 1 < length ds then Inl NUMBER_ERROR
     else if e \<noteq> SUCCESS then Inl e
     else if dec_value ds < 2 ^ 63 + of_bool negative
     then Inr (if negative then - of_nat (dec_value ds) else of_nat (dec_value ds)) else Inl INCORRECT_TYPE)"

text \<open>The overflow check on 20 digits.\<close>

lemma twenty_digits:
  assumes "\<forall>d \<in> set ds. is_digit d" "length ds = 20"
  shows "hd ds \<noteq> 0x30 \<Longrightarrow> hd ds \<noteq> 0x31 \<or> (of_nat (dec_value ds) :: u64) \<le> INT64_MAX \<longleftrightarrow> 2 ^ 64 \<le> dec_value ds"
proof -
  obtain d r where ds: "ds = d # r" "length r = 19" using assms(2) by (cases ds) auto
  have r: "dec_value r < 10 ^ 19" using dec_value_bound [of r] assms(1) ds by simp
  have d: "48 \<le> unat d" "unat d \<le> 57" using assms(1) ds by (auto simp: is_digit_range)
  assume "hd ds \<noteq> 0x30"
  then have "unat d \<noteq> 48" using ds(1) by (auto simp: word_unat_eq_iff)
  then have "d = 0x31 \<and> digit_value d = 1 \<or> d \<noteq> 0x31 \<and> 2 \<le> digit_value d"
    using d by (auto simp: digit_value_def word_unat_eq_iff)
  then show "hd ds \<noteq> 0x31 \<or> (of_nat (dec_value ds) :: u64) \<le> INT64_MAX \<longleftrightarrow> 2 ^ 64 \<le> dec_value ds"
  proof
    assume d: "d = 0x31 \<and> digit_value d = 1"
    define v where "v = dec_value ds"
    have v: "v = 10 ^ 19 + dec_value r" using d [THEN conjunct2] by (simp add: v_def ds)
    have "unat (of_nat v :: u64) = v mod 2 ^ 64" by (simp only: unat_of_nat take_bit_eq_mod) simp
    moreover have "v mod 2 ^ 64 \<le> 9223372036854775807 \<longleftrightarrow> 2 ^ 64 \<le> v"
      using r mod_if [of v "2 ^ 64"] mod_less [of "v - 2 ^ 64" "2 ^ 64"] unfolding v by (simp split: if_splits; linarith)
    ultimately have "(of_nat v :: u64) \<le> INT64_MAX \<longleftrightarrow> 2 ^ 64 \<le> v" by (simp add: INT64_MAX_def word_le_nat_alt)
    then show ?thesis using d unfolding v_def [symmetric] by (simp add: ds(1))
  next
    assume *: "d \<noteq> 0x31 \<and> 2 \<le> digit_value d"
    then have "2 * 10 ^ 19 \<le> digit_value d * 10 ^ 19" by simp
    then have "(2 :: nat) ^ 64 \<le> dec_value ds" by (simp add: ds)
    then show ?thesis using * ds(1) by simp
  qed
qed


lemma unsigned_checks:
  assumes "\<forall>d \<in> set ds. is_digit d"
  shows "(if length ds = 0 \<or> length ds > 20 then Inl INCORRECT_TYPE
     else if hd ds = 0x30 \<and> length ds > 1 then Inl NUMBER_ERROR
     else if e \<noteq> SUCCESS then Inl e
     else if length ds = 20 \<and> (hd ds \<noteq> 0x31 \<or> (of_nat (dec_value ds) :: u64) \<le> INT64_MAX) then Inl INCORRECT_TYPE
     else Inr (of_nat (dec_value ds))) = unsigned_ref ds e"
proof (cases "length ds = 20 \<or> 20 < length ds")
  case True
  then show ?thesis using twenty_digits [OF assms] by (auto simp: unsigned_ref_def)
next
  case False
  then have "(10 :: nat) ^ length ds \<le> 10 ^ 19" by (intro power_increasing) auto
  then have "dec_value ds < 2 ^ 64" using dec_value_bound [OF assms] by simp
  then show ?thesis using False by (auto simp: unsigned_ref_def)
qed

lemma signed_checks:
  assumes "\<forall>d \<in> set ds. is_digit d"
  shows "(if length ds = 0 \<or> length ds > 19 then Inl INCORRECT_TYPE
     else if hd ds = 0x30 \<and> length ds > 1 then Inl NUMBER_ERROR
     else if e \<noteq> SUCCESS then Inl e
     else if (of_nat (dec_value ds) :: u64) > INT64_MAX + of_bool negative then Inl INCORRECT_TYPE
     else Inr (if negative then NOT (of_nat (dec_value ds)) + 1 else of_nat (dec_value ds))) = signed_ref negative ds e"
proof (cases "19 < length ds")
  case False
  then have "(10 :: nat) ^ length ds \<le> 10 ^ 19" by (intro power_increasing) auto
  then have v: "dec_value ds < 10 ^ 19" using dec_value_bound [OF assms] by simp
  then have "unat (of_nat (dec_value ds) :: u64) = dec_value ds" by (simp add: unat_of_nat take_bit_nat_eq_self)
  moreover have "unat (INT64_MAX + of_bool negative) = 2 ^ 63 - 1 + of_bool negative"
    by (cases negative) (simp_all add: INT64_MAX_def)
  ultimately have "(of_nat (dec_value ds) :: u64) > INT64_MAX + of_bool negative \<longleftrightarrow> \<not> dec_value ds < 2 ^ 63 + of_bool negative"
    by (auto simp: word_less_nat_alt)
  moreover have "NOT x + 1 = - x" for x :: u64 by (simp add: minus_eq_not_plus_1)
  ultimately show ?thesis using False by (auto simp: signed_ref_def)
qed (simp add: signed_ref_def)

lemma Some_if: "(if b then Some x else Some y) = Some (if b then x else y)" by simp

lemma nth_hd: "ds \<noteq> [] \<Longrightarrow> (pre @ ds @ post) ! length pre = hd ds"
  by (simp add: nth_append hd_conv_nth)

lemma digit_positions:
  "ds \<noteq> [] \<Longrightarrow> (pre @ ds @ post) ! length pre = hd ds" "(pre @ ds @ c # post) ! (length pre + length ds) = c"
  by (simp_all add: nth_append hd_conv_nth)

lemmas code_steps = Option.bind.simps prod.case Let_def Some_if add_diff_cancel_left' integer_string_finisher_correct

lemma digits_loop_value:
  assumes "\<forall>d \<in> set ds. is_digit d" "\<not> is_digit c"
  shows "digits_loop (pre @ ds @ c # post) (length pre) 0 = Some (length pre + length ds, of_nat (dec_value ds))"
  using digits_loop_correct [OF assms, of pre post 0] by (simp add: dec_value_foldl)

lemma digits_loop_end_value:
  assumes "\<forall>d \<in> set ds. is_digit d" "post = [] \<or> \<not> is_digit (hd post)"
  shows "digits_loop_end (pre @ ds @ post @ pad) (length pre + length ds + length post) (length pre) 0 =
    Some (length pre + length ds, of_nat (dec_value ds))"
  using digits_loop_end_correct [OF assms refl, of pre pad 0] by (simp add: dec_value_foldl)

text \<open>C18: \<open>parse_unsigned\<close> on a text with the digits \<open>ds\<close> followed by \<open>c\<close>: the number they denote when it
  is a JSON integer below \<open>2 ^ 64\<close>, although the value is accumulated with wrap-around; the error otherwise.\<close>

theorem parse_unsigned_correct:
  assumes "\<forall>d \<in> set ds. is_digit d" "\<not> is_digit c"
  shows "parse_unsigned (pre @ ds @ c # post) (length pre) = Some (unsigned_ref ds (after_number c))"
proof (cases "ds = []")
  case False
  show ?thesis
    unfolding parse_unsigned_def
    by (simp only: digits_loop_value [OF assms] code_steps digit_positions(1) [OF False] digit_positions(2) unsigned_checks [OF assms(1)])
qed (use digits_loop_value [OF assms, of pre post] in \<open>simp add: parse_unsigned_def unsigned_ref_def\<close>)

lemma finish_if: "(if b \<and> f \<noteq> SUCCESS then Inl f else y) =
    (if (if b then f else SUCCESS) \<noteq> SUCCESS then Inl (if b then f else SUCCESS) else y)"
  by simp

lemma end_of_digits:
  "(if length pre + length ds \<noteq> length pre + length ds + length post then after_number ((pre @ ds @ post @ pad) ! (length pre + length ds))
    else SUCCESS) = (if post = [] then SUCCESS else after_number (hd post))"
  by (cases post) (simp_all add: nth_append)

lemma parse_unsigned_end_correct:
  assumes "\<forall>d \<in> set ds. is_digit d" "post = [] \<or> \<not> is_digit (hd post)"
  shows "parse_unsigned_end (pre @ ds @ post @ pad) (length pre) (length pre + length ds + length post) =
    Some (unsigned_ref ds (if post = [] then SUCCESS else after_number (hd post)))"
proof (cases "ds = []")
  case False
  show ?thesis
    unfolding parse_unsigned_end_def
    by (simp only: digits_loop_end_value [OF assms] code_steps digit_positions(1) [OF False] finish_if end_of_digits unsigned_checks [OF assms(1)])
qed (use digits_loop_end_value [OF assms, of pre pad] in \<open>simp add: parse_unsigned_end_def unsigned_ref_def\<close>)

lemma quote_if: "(if c \<noteq> (0x22 :: u8) then Inl NUMBER_ERROR else y) =
    (if (if c = 0x22 then SUCCESS else NUMBER_ERROR) \<noteq> SUCCESS then Inl (if c = 0x22 then SUCCESS else NUMBER_ERROR) else y)"
  by simp

lemma parse_unsigned_in_string_correct:
  assumes "\<forall>d \<in> set ds. is_digit d" "\<not> is_digit c"
  shows "parse_unsigned_in_string (pre @ q # ds @ c # post) (length pre) =
    Some (unsigned_ref ds (if c = 0x22 then SUCCESS else NUMBER_ERROR))"
proof -
  note loop = digits_loop_value [OF assms, of "pre @ [q]" post]
  have shape: "pre @ q # ds @ c # post = (pre @ [q]) @ ds @ c # post" "length pre + 1 = length (pre @ [q])" by simp_all
  show ?thesis
  proof (cases "ds = []")
    case False
    show ?thesis
      unfolding parse_unsigned_in_string_def shape
      by (simp only: loop code_steps digit_positions(1) [OF False] digit_positions(2) quote_if unsigned_checks [OF assms(1)])
  qed (use loop in \<open>simp add: parse_unsigned_in_string_def unsigned_ref_def\<close>)
qed

definition sign_text :: "bool \<Rightarrow> u8 list" where "sign_text negative = (if negative then [0x2D] else [])"

text \<open>The position of the digits and the sign.\<close>

lemma sign_position:
  fixes pre negative
  defines "P \<equiv> pre @ sign_text negative"
  assumes "\<forall>d \<in> set ds. is_digit d" "negative \<or> ds \<noteq> []"
  shows "load (P @ ds @ r) (length pre) = Some (if negative then 0x2D else hd ds)"
    "(if negative then 0x2D else hd ds) = 0x2D \<longleftrightarrow> negative"
    "length pre + of_bool negative = length P"
  using assms(2-) unfolding P_def by (cases ds; force simp: load_def sign_text_def nth_append is_digit_range)+

text \<open>\<open>parse_integer\<close> reads an optional minus sign and digits: the number (as a two's complement 64-bit word)
  when it is a JSON integer from \<open>-2 ^ 63\<close> to \<open>2 ^ 63 - 1\<close>, the error otherwise.\<close>

theorem parse_integer_correct:
  assumes "\<forall>d \<in> set ds. is_digit d" "\<not> is_digit c" "negative \<or> ds \<noteq> []"
  shows "parse_integer ((pre @ sign_text negative) @ ds @ c # post) (length pre) = Some (signed_ref negative ds (after_number c))"
proof (cases "ds = []")
  case False
  show ?thesis
    unfolding parse_integer_def
    by (simp only: sign_position [OF assms(1,3)] code_steps digits_loop_value [OF assms(1,2)]
        digit_positions(1) [OF False] digit_positions(2) signed_checks [OF assms(1)])
qed (use assms(2,3) digits_loop_value [OF assms(1,2), of "pre @ sign_text negative" post] sign_position [OF assms(1,3)]
    in \<open>simp add: parse_integer_def signed_ref_def\<close>)

lemma parse_integer_end_digits:
  assumes "\<forall>d \<in> set ds. is_digit d" "post = [] \<or> \<not> is_digit (hd post)" "negative \<or> ds \<noteq> []"
  shows "parse_integer_end ((pre @ sign_text negative) @ ds @ post @ pad) (length pre) (length (pre @ sign_text negative) + length ds + length post) =
    Some (signed_ref negative ds (if post = [] then SUCCESS else after_number (hd post)))"
proof -
  have nonempty: "length pre = length (pre @ sign_text negative) + length ds + length post \<longleftrightarrow> False"
    using assms(3) by (auto simp: sign_text_def)
  show ?thesis
  proof (cases "ds = []")
    case False
    show ?thesis
      unfolding parse_integer_end_def nonempty if_False
      by (simp only: sign_position [OF assms(1,3)] code_steps digits_loop_end_value [OF assms(1,2)]
          digit_positions(1) [OF False] finish_if end_of_digits signed_checks [OF assms(1)])
  qed (use nonempty digits_loop_end_value [OF assms(1,2), of "pre @ sign_text negative" pad] sign_position [OF assms(1,3)]
      in \<open>simp add: parse_integer_end_def signed_ref_def\<close>)
qed

lemma parse_integer_in_string_digits:
  assumes "\<forall>d \<in> set ds. is_digit d" "\<not> is_digit c" "negative \<or> ds \<noteq> []"
  shows "parse_integer_in_string (((pre @ [q]) @ sign_text negative) @ ds @ c # post) (length pre) =
    Some (signed_ref negative ds (if c = 0x22 then SUCCESS else NUMBER_ERROR))"
proof -
  have at: "length pre + 1 = length (pre @ [q])" "length pre + (of_bool negative + 1) = length ((pre @ [q]) @ sign_text negative)"
    by (simp_all add: sign_text_def)
  show ?thesis
  proof (cases "ds = []")
    case False
    show ?thesis
      unfolding parse_integer_in_string_def at
      by (simp only: sign_position [OF assms(1,3)] code_steps at digits_loop_value [OF assms(1,2)]
          digit_positions(1) [OF False] digit_positions(2) quote_if signed_checks [OF assms(1)])
  qed (use assms(2,3) digits_loop_value [OF assms(1,2), of "(pre @ [q]) @ sign_text negative" post]
      in \<open>simp add: parse_integer_in_string_def signed_ref_def sign_text_def load_def nth_append\<close>)
qed


section \<open>Words as lists of bytes\<close>

lemma le_u64_and:
  assumes "length bs = length cs"
  shows "le_u64 bs AND le_u64 cs = le_u64 (map2 (AND) bs cs)"
  by (rule bit_eqI) (use assms in \<open>auto simp: bit_and_iff bit_le_u64\<close>)

lemma le_u64_or:
  assumes "length bs = length cs"
  shows "le_u64 bs OR le_u64 cs = le_u64 (map2 (OR) bs cs)"
  by (rule bit_eqI) (use assms in \<open>auto simp: bit_or_iff bit_le_u64\<close>)

lemma le_u64_add: "le_u64 (b # bs) = ucast b + 256 * le_u64 bs"
proof -
  have "ucast b AND push_bit 8 (le_u64 bs) = 0"
    by (rule bit_eqI) (auto simp: bit_simps dest: bit_imp_le_length)
  then have "ucast b + push_bit 8 (le_u64 bs) = ucast b OR push_bit 8 (le_u64 bs)" by (rule disjunctive_add_eq_or)
  then show ?thesis by (simp add: push_bit_eq_mult mult.commute)
qed

fun base256 :: "nat list \<Rightarrow> nat" where
  "base256 [] = 0"
| "base256 (x # xs) = x + 256 * base256 xs"

lemma le_u64_nat: "\<forall>x \<in> set xs. x < 256 \<Longrightarrow> le_u64 (map of_nat xs) = of_nat (base256 xs)"
proof (induction xs)
  case (Cons x xs)
  then have "(ucast (of_nat x :: u8) :: u64) = of_nat x" by (simp add: unsigned_of_nat take_bit_nat_eq_self)
  then show ?case using Cons by (simp add: le_u64_add del: le_u64.simps)
qed simp

lemma nibble_masks:
  "0x0F0F0F0F0F0F0F0F = le_u64 (replicate 8 0xF)" "0xF0F0F0F0F0F0F0F0 = le_u64 (replicate 8 0xF0)"
  "0x00FF00FF00FF00FF = le_u64 [0xFF, 0, 0xFF, 0, 0xFF, 0, 0xFF, 0]"
  "0x0000FFFF0000FFFF = le_u64 [0xFF, 0xFF, 0, 0, 0xFF, 0xFF, 0, 0]"
  "0x0606060606060606 = le_u64 (replicate 8 6)" "0x3333333333333333 = le_u64 (replicate 8 0x33)"
  by code_simp+

lemma digit_nibble:
  assumes "is_digit c"
  shows "c AND 0xF = of_nat (digit_value c)"
proof -
  have "is_digit c \<longrightarrow> c AND 0xF = of_nat (digit_value c)"
    by (rule u8_all [of _ c]) (simp_all add: is_digit_range digit_value_def)
  then show ?thesis using assms by blast
qed

lemma list8: "length xs = 8 \<Longrightarrow> \<exists>a b c d e f g h. xs = [a, b, c, d, e, f, g, h]"
  by (auto simp: numeral_eq_Suc length_Suc_conv)

text \<open>Multiplying and shifting: the low part is dropped, and what overflows is lost.\<close>

lemma shift_product:
  assumes "x * m = lo + 2 ^ k * hi + 2 ^ 64 * over" "lo < 2 ^ k" "hi < 2 ^ (64 - k)" "k \<le> 64"
  shows "drop_bit k (of_nat x * of_nat m :: u64) = of_nat hi"
proof (rule word_unat_eq_iff [THEN iffD2])
  have "lo + 2 ^ k * hi < 2 ^ k * (hi + 1)" using assms(2) by simp
  also have "\<dots> \<le> 2 ^ k * 2 ^ (64 - k)" using assms(3) by (intro mult_left_mono) auto
  also have "\<dots> = 2 ^ 64" using assms(4) by (simp flip: power_add)
  finally have small: "lo + 2 ^ k * hi < 2 ^ 64" .
  have "unat (drop_bit k (of_nat x * of_nat m :: u64)) = (x * m) mod 2 ^ 64 div 2 ^ k"
    by (simp only: unat_drop_bit_eq drop_bit_eq_div [where 'a = nat] of_nat_mult [symmetric] unat_of_nat take_bit_eq_mod) simp
  also have "\<dots> = hi" using small assms(1,2) by (simp add: mod_mult_self2)
  also have "\<dots> = unat (of_nat hi :: u64)"
  proof -
    have "(2 :: nat) ^ (64 - k) \<le> 2 ^ 64" by (intro power_increasing) auto
    then have "hi < 2 ^ 64" using assms(3) by (rule less_le_trans [rotated])
    then show ?thesis by (simp add: unat_of_nat)
  qed
  finally show "unat (drop_bit k (of_nat x * of_nat m :: u64)) = unat (of_nat hi :: u64)" .
qed


lemma base256_mask:
  assumes "\<forall>x \<in> set xs. x < 256" "length ms = length xs" "set ms \<subseteq> {0, 0xFF}"
  shows "of_nat (base256 xs) AND le_u64 ms = of_nat (base256 (map2 (\<lambda>x m. if m = 0 then 0 else x) xs ms))"
proof -
  have full: "x AND 0xFF = x" for x :: u8
    by (rule u8_all [of _ x]) simp_all
  have ms: "ms ! i = 0 \<or> ms ! i = 0xFF" if "i < length xs" for i
  proof -
    have "ms ! i \<in> set ms" using that assms(2) by simp
    then show ?thesis using assms(3) by blast
  qed
  have "map2 (AND) (map of_nat xs) ms = map of_nat (map2 (\<lambda>x m. if m = 0 then 0 else x) xs ms)"
    by (rule nth_equalityI) (use assms(2) full ms in \<open>force+\<close>)
  moreover have "\<forall>x \<in> set (map2 (\<lambda>x m. if m = 0 then 0 else x) xs ms). x < 256"
    using assms(1) by (auto dest: set_zip_leftD)
  ultimately show ?thesis
    using assms(1,2) by (simp only: le_u64_nat [symmetric] le_u64_and length_map)
qed

text \<open>the eight digits are converted as a decimal number, two, four and eight digits at a time.\<close>

theorem parse_eight_digits_unrolled_correct:
  assumes "length ds = 8" "\<forall>d \<in> set ds. is_digit d"
  shows "parse_eight_digits_unrolled (ds @ rest) = of_nat (dec_value ds)"
proof -
  define v where "v = map digit_value ds"
  obtain a b c d e f g h where v: "v = [a, b, c, d, e, f, g, h]" using list8 [of v] assms(1) unfolding v_def by auto
  have small: "\<forall>x \<in> set v. x \<le> 9" using assms(2) by (auto simp: v_def digit_value_def is_digit_range)
  have b: "a \<le> 9" "b \<le> 9" "c \<le> 9" "d \<le> 9" "e \<le> 9" "f \<le> 9" "g \<le> 9" "h \<le> 9"
    using small unfolding v by simp_all
  define v1 where "v1 = [b + 10 * a, c + 10 * b, d + 10 * c, e + 10 * d, f + 10 * e, g + 10 * f, h + 10 * g, 0]"
  define v2 where "v2 = [b + 10 * a, 0, d + 10 * c, 0, f + 10 * e, 0, h + 10 * g, 0]"
  define x y z where "x = d + 10 * c + 100 * (b + 10 * a)" and "y = f + 10 * e + 100 * (d + 10 * c)"
    and "z = h + 10 * g + 100 * (f + 10 * e)"
  define v3 where "v3 = [x mod 256, x div 256, y mod 256, y div 256, z mod 256, z div 256, 0, 0]"
  define v4 where "v4 = [x mod 256, x div 256, 0, 0, z mod 256, z div 256, 0, 0]"
  have xyz: "x \<le> 9999" "y \<le> 9999" "z \<le> 9999" using b by (simp_all add: x_def y_def z_def)
  have ds: "load_u64 (ds @ rest) AND 0x0F0F0F0F0F0F0F0F = of_nat (base256 v)"
  proof -
    have "map2 (AND) ds (replicate 8 0xF) = map of_nat v"
      unfolding v_def by (rule nth_equalityI) (use assms in \<open>auto simp: digit_nibble\<close>)
    moreover have "\<forall>x \<in> set v. x < 256" using small by force
    ultimately show ?thesis
      using assms(1) le_u64_nat [of v] unfolding nibble_masks load_u64_def by (subst le_u64_and) auto
  qed
  have s1: "drop_bit 8 (of_nat (base256 v) * of_nat 2561 :: u64) = of_nat (base256 v1)"
    by (rule shift_product [where lo = a and over = "10 * h"]) (use b in \<open>simp_all add: v v1_def\<close>)
  have m1: "of_nat (base256 v1) AND (0x00FF00FF00FF00FF :: u64) = of_nat (base256 v2)"
    unfolding nibble_masks by (subst base256_mask) (use b in \<open>auto simp: v1_def v2_def\<close>)
  have s2: "drop_bit 16 (of_nat (base256 v2) * of_nat 6553601 :: u64) = of_nat (base256 v3)"
    by (rule shift_product [where lo = "b + 10 * a" and over = "100 * (h + 10 * g)"])
      (use b xyz in \<open>simp_all add: v2_def v3_def x_def y_def z_def\<close>)
  have m2: "of_nat (base256 v3) AND (0x0000FFFF0000FFFF :: u64) = of_nat (base256 v4)"
    unfolding nibble_masks by (subst base256_mask) (use xyz in \<open>auto simp: v3_def v4_def\<close>)
  have s3: "drop_bit 32 (of_nat (base256 v4) * of_nat 42949672960001 :: u64) = of_nat (z + 10000 * x)"
    by (rule shift_product [where lo = x and over = "10000 * z"])
      (use xyz in \<open>simp_all add: v4_def\<close>)
  have "dec_value ds = foldl (\<lambda>a x. 10 * a + x) 0 v"
    using dec_value_foldl [of 0 ds] by (simp add: v_def foldl_map)
  also have "\<dots> = z + 10000 * x" by (simp add: v x_def z_def)
  finally have val: "dec_value ds = z + 10000 * x" .
  then have "dec_value ds < 2 ^ 32" using xyz by simp
  then have "(ucast (of_nat (dec_value ds) :: u64) :: u32) = of_nat (dec_value ds)"
    by (simp add: unsigned_of_nat take_bit_nat_eq_self)
  then show ?thesis
    unfolding parse_eight_digits_unrolled_def Let_def ds s1 [simplified of_nat_numeral] m1 s2 [simplified of_nat_numeral] m2
      s3 [simplified of_nat_numeral] by (simp only: val)
qed


lemma le_u64_inject:
  assumes "le_u64 bs = le_u64 cs" "length bs = length cs" "length bs \<le> 8"
  shows "bs = cs"
proof (rule nth_equalityI)
  fix i assume i: "i < length bs"
  show "bs ! i = cs ! i"
  proof (rule bit_eqI)
    fix n assume "possible_bit TYPE(8 word) n"
    then have n: "n < 8" by simp
    have "bit (le_u64 bs) (8 * i + n) = bit (le_u64 cs) (8 * i + n)" using assms(1) by simp
    then show "bit (bs ! i) n = bit (cs ! i) n" using i n assms(2,3) by (simp add: bit_le_u64)
  qed
qed (use assms in simp)

lemma bit_0xF0:
  assumes "k < 8"
  shows "bit (0xF0 :: u8) k \<longleftrightarrow> 4 \<le> k"
proof -
  have "k = 0 \<or> k = 1 \<or> k = 2 \<or> k = 3 \<or> k = 4 \<or> k = 5 \<or> k = 6 \<or> k = 7" using assms by arith
  then show ?thesis by (elim disjE) simp_all
qed

lemma le_u64_nibbles:
  assumes "length bs = 8"
  shows "drop_bit 4 (le_u64 bs AND le_u64 (replicate 8 0xF0)) = le_u64 (map (drop_bit 4) bs)"
proof (rule bit_eqI)
  fix n assume "possible_bit TYPE(64 word) n"
  then have n: "n < 64" by simp
  define q r where "q = n div 8" and "r = n mod 8"
  have nqr: "n = 8 * q + r" "r < 8" "q < 8" using n by (simp_all add: q_def r_def)
  consider "r < 4" "(4 + n) div 8 = q" "(4 + n) mod 8 = r + 4" | "4 \<le> r" "(4 + n) div 8 = q + 1" "(4 + n) mod 8 = r - 4"
  proof (cases "r < 4")
    case True
    have "4 + n = (r + 4) + 8 * q" using nqr by simp
    then have "(4 + n) div 8 = q" "(4 + n) mod 8 = r + 4" using True by (simp_all only: div_mult_self2 mod_mult_self2) simp_all
    then show ?thesis using that(1) True by blast
  next
    case False
    have "4 + n = (r - 4) + 8 * (q + 1)" using nqr False by simp
    moreover have "r - 4 < 8" using nqr(2) by simp
    ultimately have "(4 + n) div 8 = q + 1" "(4 + n) mod 8 = r - 4" by (simp_all only: div_mult_self2 mod_mult_self2) simp_all
    then show ?thesis using that(2) False by simp
  qed
  then show "bit (drop_bit 4 (le_u64 bs AND le_u64 (replicate 8 0xF0))) n = bit (le_u64 (map (drop_bit 4) bs)) n"
  proof cases
    case 1
    then show ?thesis using n nqr assms bit_0xF0 [of "r + 4"]
      by (simp add: bit_drop_bit_eq bit_and_iff bit_le_u64 q_def [symmetric] r_def [symmetric] add.commute [of 4 r])
  next
    case 2
    then show ?thesis using n nqr assms bit_0xF0 [of "r - 4"]
      by (auto simp: bit_drop_bit_eq bit_and_iff bit_le_u64 q_def [symmetric] r_def [symmetric] dest: bit_imp_le_length)
  qed
qed

lemma le_u64_plus_6:
  assumes "\<forall>b \<in> set bs. b < 0x40"
  shows "le_u64 bs + le_u64 (replicate (length bs) 6) = le_u64 (map (\<lambda>b. b + 6) bs)"
  using assms
proof (induction bs)
  case (Cons b bs)
  have "b < 0x40 \<longrightarrow> (ucast (b + 6) :: u64) = ucast b + 6"
    by (rule u8_all [of _ b]) simp_all
  then have "(ucast (b + 6) :: u64) = ucast b + 6" using Cons.prems by simp
  moreover have "le_u64 (map (\<lambda>b. b + 6) bs) = le_u64 bs + le_u64 (replicate (length bs) 6)" using Cons by simp
  ultimately show ?case
    by (simp only: le_u64_add list.map length_Cons replicate_Suc distrib_left) simp
qed simp

lemma le_u64_bytes: "\<exists>bs. length bs = 8 \<and> w = le_u64 bs"
  by (rule exI [of _ "map (\<lambda>i. ucast (drop_bit (8 * i) w)) [0..<8]"])
    (auto simp: bit_eq_iff bit_le_u64 bit_simps)

text \<open>The test for eight digits.\<close>

theorem is_made_of_eight_digits_fast_correct:
  assumes "length cs = 8"
  shows "is_made_of_eight_digits_fast (cs @ rest) \<longleftrightarrow> (\<forall>c \<in> set cs. is_digit c)"
proof -
  have step: "(c AND 0xF0) OR drop_bit 4 (c + 6) = 0x33 \<longleftrightarrow> is_digit c" for c
    by (rule u8_all [of _ c]) (simp_all add: is_digit_range)
  obtain ws where ws: "length ws = 8" "le_u64 cs + le_u64 (replicate 8 6) = le_u64 ws" using le_u64_bytes by metis
  have "map2 (AND) cs (replicate 8 0xF0) = map (\<lambda>c. c AND 0xF0) cs"
    by (rule nth_equalityI) (use assms in simp_all)
  then have "is_made_of_eight_digits_fast (cs @ rest) \<longleftrightarrow>
      le_u64 (map2 (OR) (map (\<lambda>c. c AND 0xF0) cs) (map (drop_bit 4) ws)) = le_u64 (replicate 8 0x33)"
    using assms ws le_u64_and [of cs "replicate 8 0xF0"] le_u64_nibbles [OF ws(1)]
      le_u64_or [of "map (\<lambda>c. c AND 0xF0) cs" "map (drop_bit 4) ws"]
    unfolding is_made_of_eight_digits_fast_def Let_def nibble_masks load_u64_def
    by (simp only: take_append take_all_iff length_replicate length_map) simp
  also have "\<dots> \<longleftrightarrow> map2 (OR) (map (\<lambda>c. c AND 0xF0) cs) (map (drop_bit 4) ws) = replicate 8 0x33"
    using le_u64_inject assms ws(1) by auto
  finally have fast: "is_made_of_eight_digits_fast (cs @ rest) \<longleftrightarrow> (\<forall>i < 8. (cs ! i AND 0xF0) OR drop_bit 4 (ws ! i) = 0x33)"
    using assms ws(1) by (simp add: list_eq_iff_nth_eq)
  have low: "c < 0x40" if "(c AND 0xF0) OR y = 0x33" for c y :: u8
  proof -
    have "\<not> bit c 6 \<and> \<not> bit c 7 \<longrightarrow> c < 0x40" by (rule u8_all [of _ c]) simp_all
    moreover have "\<not> bit c 6" "\<not> bit c 7" using arg_cong [OF that, of "\<lambda>x. bit x 6"] arg_cong [OF that, of "\<lambda>x. bit x 7"]
      by (simp_all add: bit_or_iff bit_and_iff)
    ultimately show ?thesis by blast
  qed
  have sum: "ws ! i = cs ! i + 6" if "\<forall>c \<in> set cs. c < 0x40" "i < 8" for i
  proof -
    have "le_u64 ws = le_u64 (map (\<lambda>b. b + 6) cs)" using le_u64_plus_6 [OF that(1)] ws(2) assms by simp
    then have "ws = map (\<lambda>b. b + 6) cs" by (rule le_u64_inject) (use assms ws(1) in simp_all)
    then show ?thesis using that(2) assms by simp
  qed
  have dig: "is_digit c \<Longrightarrow> c < 0x40" for c by (simp add: is_digit_range word_less_nat_alt)
  show ?thesis
  proof (cases "\<forall>c \<in> set cs. c < 0x40")
    case True
    then show ?thesis using fast sum step assms by (simp add: all_set_conv_all_nth)
  next
    case False
    then show ?thesis using fast low dig assms by (auto simp: all_set_conv_all_nth)
  qed
qed


section \<open>Atoms\<close>

lemma load_u32_inject:
  assumes "length bs = 4" "length cs = 4" "load_u32 bs = load_u32 cs"
  shows "bs = cs"
proof -
  have b: "bit (load_u32 xs) i \<longleftrightarrow> bit (le_u64 xs) i" if "length xs = 4" for xs i
    using that by (auto simp: load_u32_def bit_simps bit_le_u64)
  have "le_u64 bs = le_u64 cs" by (rule bit_eqI) (use assms b in metis)
  then show ?thesis by (rule le_u64_inject) (use assms in simp_all)
qed

lemma str4ncmp_correct:
  assumes "s + 4 \<le> length src" "length atom = 4"
  shows "\<exists>d. str4ncmp src s atom = Some d \<and> (d = 0 \<longleftrightarrow> take 4 (drop s src) = atom)"
proof -
  have take: "load_u32 xs = load_u32 (take 4 xs)" for xs by (simp add: load_u32_def)
  have "load_u32 (drop s src) XOR load_u32 atom = 0 \<longleftrightarrow> load_u32 (take 4 (drop s src)) = load_u32 atom"
    using take [of "drop s src"] by (simp add: bit_eq_iff bit_xor_iff)
  also have "\<dots> \<longleftrightarrow> take 4 (drop s src) = atom" using load_u32_inject [of "take 4 (drop s src)" atom] assms by auto
  finally show ?thesis using assms(1) by (simp add: str4ncmp_def string_to_uint32_def)
qed

lemma not_separator: "is_not_structural_or_whitespace c = 0 \<longleftrightarrow> after_number c = SUCCESS"
  by (rule u8_all [of _ c])
    (simp_all add: is_not_structural_or_whitespace_def structural_or_whitespace_negated_def after_number_def nth_append)

lemma tables_agree: "is_structural_or_whitespace c = 1 - is_not_structural_or_whitespace c"
  by (rule u8_all [of _ c])
    (simp_all add: is_not_structural_or_whitespace_def is_structural_or_whitespace_def structural_or_whitespace_def
      structural_or_whitespace_negated_def nth_append)

lemma or_zero: "a OR b = 0 \<longleftrightarrow> a = 0 \<and> b = 0" for a b :: u32
  by (auto simp: bit_eq_iff bit_or_iff)

text \<open>The bytes of an atom and a separator behind it, or the end of the input.\<close>

definition atom_at :: "u8 list \<Rightarrow> u8 list \<Rightarrow> nat \<Rightarrow> bool" where
  "atom_at atom src s \<longleftrightarrow> take (length atom) (drop s src) = atom \<and> after_number (src ! (s + length atom)) = SUCCESS"

text \<open>The recognisers of \<open>true\<close>, \<open>false\<close> (whose first letter the caller has read) and \<open>null\<close> accept the
  letters followed by a separator and nothing else.\<close>

theorem atoms_correct:
  assumes "s + 6 \<le> length src"
  shows "is_valid_true_atom src s = Some (atom_at [0x74, 0x72, 0x75, 0x65] src s)
    \<and> is_valid_false_atom src s = Some (atom_at [0x61, 0x6C, 0x73, 0x65] src (s + 1))
    \<and> is_valid_null_atom src s = Some (atom_at [0x6E, 0x75, 0x6C, 0x6C] src s)"
proof -
  have len: "length [x, y, z, w] = 4" for x y z w :: u8 by simp
  obtain d1 where "str4ncmp src s [0x74, 0x72, 0x75, 0x65] = Some d1" "d1 = 0 \<longleftrightarrow> take 4 (drop s src) = [0x74, 0x72, 0x75, 0x65]"
    using str4ncmp_correct [OF _ len, of s src] assms by fastforce
  moreover obtain d2 where "str4ncmp src (s + 1) [0x61, 0x6C, 0x73, 0x65] = Some d2" "d2 = 0 \<longleftrightarrow> take 4 (drop (s + 1) src) = [0x61, 0x6C, 0x73, 0x65]"
    using str4ncmp_correct [OF _ len, of "s + 1" src] assms by fastforce
  moreover obtain d3 where "str4ncmp src s [0x6E, 0x75, 0x6C, 0x6C] = Some d3" "d3 = 0 \<longleftrightarrow> take 4 (drop s src) = [0x6E, 0x75, 0x6C, 0x6C]"
    using str4ncmp_correct [OF _ len, of s src] assms by fastforce
  ultimately show ?thesis using assms
    by (auto simp: is_valid_true_atom_def is_valid_false_atom_def is_valid_null_atom_def atom_at_def load_def or_zero not_separator
        numeral_eq_Suc)
qed

theorem atoms_correct_witness:
  "is_valid_true_atom [0x74, 0x72, 0x75, 0x65, 0x2C, 0x20] 0 = Some True"
  using atoms_correct [of 0 "[0x74, 0x72, 0x75, 0x65, 0x2C, 0x20]"] by (simp add: atom_at_def after_number_def)

text \<open>The largest 64-bit number and the one behind it.\<close>

theorem parse_unsigned_correct_witness:
  "parse_unsigned [0x5B, 0x31, 0x38, 0x34, 0x34, 0x36, 0x37, 0x34, 0x34, 0x30, 0x37, 0x33, 0x37, 0x30, 0x39, 0x35, 0x35, 0x31, 0x36, 0x31, 0x35, 0x5D] 1
     = Some (Inr 0xFFFFFFFFFFFFFFFF)
   \<and> parse_unsigned [0x5B, 0x31, 0x38, 0x34, 0x34, 0x36, 0x37, 0x34, 0x34, 0x30, 0x37, 0x33, 0x37, 0x30, 0x39, 0x35, 0x35, 0x31, 0x36, 0x31, 0x36, 0x5D] 1
     = Some (Inl INCORRECT_TYPE)"
  using parse_unsigned_correct [of "[0x31, 0x38, 0x34, 0x34, 0x36, 0x37, 0x34, 0x34, 0x30, 0x37, 0x33, 0x37, 0x30, 0x39, 0x35, 0x35, 0x31, 0x36, 0x31, 0x35]"
      "0x5D" "[0x5B]" "[]"]
    parse_unsigned_correct [of "[0x31, 0x38, 0x34, 0x34, 0x36, 0x37, 0x34, 0x34, 0x30, 0x37, 0x33, 0x37, 0x30, 0x39, 0x35, 0x35, 0x31, 0x36, 0x31, 0x36]"
      "0x5D" "[0x5B]" "[]"]
  by (simp add: is_digit_def unsigned_ref_def after_number_def digit_value_def)

theorem parse_integer_correct_witness:
  "parse_integer [0x2D, 0x39, 0x32, 0x32, 0x33, 0x33, 0x37, 0x32, 0x30, 0x33, 0x36, 0x38, 0x35, 0x34, 0x37, 0x37, 0x35, 0x38, 0x30, 0x38, 0x2C] 0
     = Some (Inr 0x8000000000000000)"
  using parse_integer_correct [of "[0x39, 0x32, 0x32, 0x33, 0x33, 0x37, 0x32, 0x30, 0x33, 0x36, 0x38, 0x35, 0x34, 0x37, 0x37, 0x35, 0x38, 0x30, 0x38]"
      "0x2C" True "[]" "[]"]
  by (simp add: is_digit_def signed_ref_def after_number_def digit_value_def sign_text_def)

theorem parse_eight_digits_unrolled_correct_witness:
  "parse_eight_digits_unrolled [0x31, 0x32, 0x33, 0x34, 0x35, 0x36, 0x37, 0x38] = 12345678"
  using parse_eight_digits_unrolled_correct [of "[0x31, 0x32, 0x33, 0x34, 0x35, 0x36, 0x37, 0x38]" "[]"]
  by (simp add: is_digit_def digit_value_def)

end
