(* ===== verification/Simd_Strings.thy ===== *)
theory Simd_Strings
  imports Simd_Indexer
begin

text \<open>
  String unescaping of \<^verbatim>\<open>simdjson\<close> (\<^verbatim>\<open>stage2/stringparsing.h\<close>, \<^verbatim>\<open>arm64/stringparsing_defs.h\<close> and
  \<^verbatim>\<open>jsoncharutils.h\<close>): 32 bytes at a time are copied and searched for a quote or a backslash, escapes
  are replaced, and \<open>\u\<close> escapes become UTF-8. Source and destination are memory of fixed size with a
  position each; an access outside of them is undefined behaviour, the value \<open>None\<close>. The reference
  unescapes one character after the other.
\<close>

section \<open>Tables\<close>

text \<open>\<open>escape_map\<close>: the character an escape stands for, 0 when there is none.\<close>

definition escape_map :: "u8 list" where
  "escape_map = replicate 34 0 @ [0x22] @ replicate 12 0 @ [0x2f] @ replicate 44 0 @ [0x5c] @ replicate 5 0
    @ [8, 0, 0, 0, 0xc] @ replicate 7 0 @ [0xa, 0, 0, 0, 0xd, 0, 9] @ replicate 139 0"

text \<open>\<open>digit_to_val32\<close> consists of four rows, one for each place of a hexadecimal digit.\<close>

definition digit_row :: "u32 \<Rightarrow> u32 list" where
  "digit_row s = replicate 48 0xffffffff @ map (\<lambda>d. d * s) [0, 1, 2, 3, 4, 5, 6, 7, 8, 9] @ replicate 7 0xffffffff
    @ map (\<lambda>d. d * s) [0xa, 0xb, 0xc, 0xd, 0xe, 0xf] @ replicate 26 0xffffffff
    @ map (\<lambda>d. d * s) [0xa, 0xb, 0xc, 0xd, 0xe, 0xf] @ replicate 107 0xffffffff"

definition digit_to_val32 :: "u32 list" where
  "digit_to_val32 = digit_row 1 @ digit_row 0x10 @ digit_row 0x100 @ digit_row 0x1000 @ replicate 46 0xffffffff"

section \<open>Code points\<close>

definition hex_to_u32_nocheck :: "u8 \<Rightarrow> u8 \<Rightarrow> u8 \<Rightarrow> u8 \<Rightarrow> u32" where
  "hex_to_u32_nocheck c0 c1 c2 c3 =
    (let v1 = digit_to_val32 ! (630 + unat c0); v2 = digit_to_val32 ! (420 + unat c1);
         v3 = digit_to_val32 ! (210 + unat c2); v4 = digit_to_val32 ! (0 + unat c3)
     in v1 OR v2 OR v3 OR v4)"

text \<open>The bytes written; none when the code point is too large.\<close>

definition codepoint_to_utf8 :: "u32 \<Rightarrow> u8 list" where
  "codepoint_to_utf8 cp =
    (if cp \<le> 0x7F then [ucast cp]
     else if cp \<le> 0x7FF then [ucast (drop_bit 6 cp + 192), ucast ((cp AND 63) + 128)]
     else if cp \<le> 0xFFFF then
       [ucast (drop_bit 12 cp + 224), ucast ((drop_bit 6 cp AND 63) + 128), ucast ((cp AND 63) + 128)]
     else if cp \<le> 0x10FFFF then
       [ucast (drop_bit 18 cp + 240), ucast ((drop_bit 12 cp AND 63) + 128),
        ucast ((drop_bit 6 cp AND 63) + 128), ucast ((cp AND 63) + 128)]
     else [])"

text \<open>Reading four characters at a position, and writing a list of bytes.\<close>

definition load_hex :: "u8 list \<Rightarrow> nat \<Rightarrow> u32 option" where
  "load_hex src i = do { a \<leftarrow> load src i; b \<leftarrow> load src (i + 1); c \<leftarrow> load src (i + 2); d \<leftarrow> load src (i + 3);
                         Some (hex_to_u32_nocheck a b c d) }"

definition store_bytes :: "u8 list \<Rightarrow> nat \<Rightarrow> u8 list \<Rightarrow> u8 list option" where
  "store_bytes mem i bs = (if i + length bs \<le> length mem then Some (take i mem @ bs @ drop (i + length bs) mem) else None)"

text \<open>The position in the source, the memory and the position of the destination. The inner option is
  the boolean result: \<open>None\<close> for false.\<close>

type_synonym string_state = "nat \<times> u8 list \<times> nat"

definition write_codepoint :: "u32 \<Rightarrow> nat \<Rightarrow> u8 list \<Rightarrow> nat \<Rightarrow> string_state option option" where
  "write_codepoint code_point s mem d = do {
     mem \<leftarrow> store_bytes mem d (codepoint_to_utf8 code_point);
     let off = length (codepoint_to_utf8 code_point);
     Some (if off > 0 then Some (s, mem, d + off) else None) }"

definition handle_unicode_codepoint :: "u8 list \<Rightarrow> string_state \<Rightarrow> bool \<Rightarrow> string_state option option" where
  "handle_unicode_codepoint src st allow_replacement =
    (let substitution_code_point = 0xfffd; (s, mem, d) = st
     in do {
       code_point \<leftarrow> load_hex src (s + 2);
       let s = s + 6;
       if 0xd800 \<le> code_point \<and> code_point < 0xdc00 then do {
         c0 \<leftarrow> load src s;
         c1 \<leftarrow> load src (s + 1);
         if \<not> (c0 = 0x5C \<and> c1 = 0x75) then
           (if \<not> allow_replacement then Some None else write_codepoint substitution_code_point s mem d)
         else do {
           code_point_2 \<leftarrow> load_hex src (s + 2);
           let low_bit = code_point_2 - 0xdc00;
           if drop_bit 10 low_bit \<noteq> 0 then
             (if \<not> allow_replacement then Some None else write_codepoint substitution_code_point s mem d)
           else write_codepoint ((push_bit 10 (code_point - 0xd800) OR low_bit) + 0x10000) (s + 6) mem d } }
       else if 0xdc00 \<le> code_point \<and> code_point \<le> 0xdfff then
         (if \<not> allow_replacement then Some None else write_codepoint substitution_code_point s mem d)
       else write_codepoint code_point s mem d })"

definition handle_unicode_codepoint_wobbly :: "u8 list \<Rightarrow> string_state \<Rightarrow> string_state option option" where
  "handle_unicode_codepoint_wobbly src st =
    (let (s, mem, d) = st
     in do {
       code_point \<leftarrow> load_hex src (s + 2);
       let s = s + 6;
       if 0xd800 \<le> code_point \<and> code_point < 0xdc00 then do {
         c0 \<leftarrow> load src s;
         c1 \<leftarrow> load src (s + 1);
         if c0 = 0x5C \<and> c1 = 0x75 then do {
           code_point_2 \<leftarrow> load_hex src (s + 2);
           let low_bit = code_point_2 - 0xdc00;
           if drop_bit 10 low_bit = 0
           then write_codepoint ((push_bit 10 (code_point - 0xd800) OR low_bit) + 0x10000) (s + 6) mem d
           else write_codepoint code_point s mem d }
         else write_codepoint code_point s mem d }
       else write_codepoint code_point s mem d })"

section \<open>Finding quotes and backslashes\<close>

record backslash_and_quote =
  bs_bits :: u32
  quote_bits :: u32

definition BYTES_PROCESSED :: nat where "BYTES_PROCESSED = 32"

definition copy_and_find :: "u8 list \<Rightarrow> nat \<Rightarrow> u8 list \<Rightarrow> nat \<Rightarrow> (backslash_and_quote \<times> u8 list) option" where
  "copy_and_find src s mem d =
    (if s + BYTES_PROCESSED \<le> length src then
       let v0 = take 16 (drop s src); v1 = take 16 (drop (s + 16) src)
       in do {
         mem \<leftarrow> store_bytes mem d v0;
         mem \<leftarrow> store_bytes mem (d + 16) v1;
         let bs_and_quote = to_bitmask [vceqq_u8 v0 (splat 0x5C), vceqq_u8 v1 (splat 0x5C), vceqq_u8 v0 (splat 0x22), vceqq_u8 v1 (splat 0x22)];
         Some (\<lparr>bs_bits = ucast bs_and_quote, quote_bits = ucast (drop_bit 32 bs_and_quote)\<rparr>, mem) }
     else None)"

definition has_quote_first :: "backslash_and_quote \<Rightarrow> bool" where
  "has_quote_first b \<longleftrightarrow> (bs_bits b - 1) AND quote_bits b \<noteq> 0"

definition has_backslash :: "backslash_and_quote \<Rightarrow> bool" where
  "has_backslash b \<longleftrightarrow> bs_bits b \<noteq> 0"

definition quote_index :: "backslash_and_quote \<Rightarrow> nat" where
  "quote_index b = trailing_zeroes (ucast (quote_bits b))"

definition backslash_index :: "backslash_and_quote \<Rightarrow> nat" where
  "backslash_index b = trailing_zeroes (ucast (bs_bits b))"

section \<open>The loop\<close>

text \<open>One round: the final position (\<open>Inl (Some d)\<close>), the null pointer (\<open>Inl None\<close>), or the next state. The
  two string functions differ in the function that handles a code point.\<close>

definition string_round :: "(u8 list \<Rightarrow> string_state \<Rightarrow> string_state option option) \<Rightarrow> u8 list \<Rightarrow> string_state \<Rightarrow>
    (nat option \<times> u8 list + string_state) option" where
  "string_round handle src st =
    (let (s, mem, d) = st
     in do {
       (bs_quote, mem) \<leftarrow> copy_and_find src s mem d;
       if has_quote_first bs_quote then Some (Inl (Some (d + quote_index bs_quote), mem))
       else if has_backslash bs_quote then do {
         let bs_dist = backslash_index bs_quote;
         escape_char \<leftarrow> load src (s + bs_dist + 1);
         if escape_char = 0x75 then do {
           r \<leftarrow> handle src (s + bs_dist, mem, d + bs_dist);
           Some (case r of None \<Rightarrow> Inl (None, mem) | Some st' \<Rightarrow> Inr st') }
         else do {
           let escape_result = escape_map ! unat escape_char;
           if escape_result = 0 then Some (Inl (None, mem))
           else do {
             mem \<leftarrow> store mem (d + bs_dist) escape_result;
             Some (Inr (s + bs_dist + 2, mem, d + bs_dist + 1)) } } }
       else Some (Inr (s + BYTES_PROCESSED, mem, d + BYTES_PROCESSED)) })"

text \<open>The rounds until a result; the bound on the number of rounds is the number of source bytes, and
  every round consumes one at least.\<close>

fun string_loop :: "nat \<Rightarrow> (u8 list \<Rightarrow> string_state \<Rightarrow> string_state option option) \<Rightarrow> u8 list \<Rightarrow> string_state \<Rightarrow>
    (nat option \<times> u8 list) option" where
  "string_loop 0 handle src st = None"
| "string_loop (Suc n) handle src st =
    do { r \<leftarrow> string_round handle src st; (case r of Inl res \<Rightarrow> Some res | Inr st' \<Rightarrow> string_loop n handle src st') }"

definition parse_string :: "u8 list \<Rightarrow> nat \<Rightarrow> u8 list \<Rightarrow> nat \<Rightarrow> bool \<Rightarrow> (nat option \<times> u8 list) option" where
  "parse_string src s mem d allow_replacement =
    string_loop (length src) (\<lambda>src st. handle_unicode_codepoint src st allow_replacement) src (s, mem, d)"

definition parse_wobbly_string :: "u8 list \<Rightarrow> nat \<Rightarrow> u8 list \<Rightarrow> nat \<Rightarrow> (nat option \<times> u8 list) option" where
  "parse_wobbly_string src s mem d = string_loop (length src) handle_unicode_codepoint_wobbly src (s, mem, d)"

section \<open>The reference\<close>

definition hex_digit :: "u8 \<Rightarrow> u32 option" where
  "hex_digit b = (if 0x30 \<le> b \<and> b \<le> 0x39 then Some (ucast b - 0x30)
    else if 0x41 \<le> b \<and> b \<le> 0x46 then Some (ucast b - 0x37)
    else if 0x61 \<le> b \<and> b \<le> 0x66 then Some (ucast b - 0x57) else None)"

text \<open>The code unit of \<open>\uXXXX\<close>, read from the four characters.\<close>

fun hex4 :: "u8 list \<Rightarrow> u32 option" where
  "hex4 (a # b # c # d # r) = do { x \<leftarrow> hex_digit a; y \<leftarrow> hex_digit b; z \<leftarrow> hex_digit c; w \<leftarrow> hex_digit d;
     Some (x * 0x1000 + y * 0x100 + z * 0x10 + w) }"
| "hex4 _ = None"

definition high_surrogate :: "u32 \<Rightarrow> bool" where "high_surrogate u \<longleftrightarrow> 0xD800 \<le> u \<and> u < 0xDC00"
definition low_surrogate :: "u32 \<Rightarrow> bool" where "low_surrogate u \<longleftrightarrow> 0xDC00 \<le> u \<and> u < 0xE000"

text \<open>A second escape that completes a surrogate pair.\<close>

definition low_half :: "u8 list \<Rightarrow> u32 option" where
  "low_half r = (if take 2 r = [0x5C, 0x75]
     then (case hex4 (drop 2 r) of Some l \<Rightarrow> if low_surrogate l then Some l else None | None \<Rightarrow> None) else None)"

text \<open>The code point of an escape at the front of the text and the number of characters it takes. The
  argument says what a lone surrogate is: an error, a replacement character, or itself.\<close>

datatype lone = Reject | Replace | Keep

definition pair_value :: "u32 \<Rightarrow> u32 \<Rightarrow> u32" where
  "pair_value u l = 0x10000 + (u - 0xD800) * 0x400 + (l - 0xDC00)"

definition unicode_ref :: "lone \<Rightarrow> u8 list \<Rightarrow> (u32 \<times> nat) option" where
  "unicode_ref m xs =
    (case hex4 (drop 2 xs) of
       None \<Rightarrow> None
     | Some u \<Rightarrow>
         if high_surrogate u \<and> low_half (drop 6 xs) \<noteq> None
         then Some (pair_value u (the (low_half (drop 6 xs))), 12)
         else if high_surrogate u \<or> low_surrogate u
         then (case m of Reject \<Rightarrow> None | Replace \<Rightarrow> Some (0xFFFD, 6) | Keep \<Rightarrow> Some (u, 6))
         else Some (u, 6))"

lemma unicode_ref_consumed: "unicode_ref m xs = Some (cp, n) \<Longrightarrow> n = 6 \<or> n = 12"
  by (auto simp: unicode_ref_def split: option.splits if_splits lone.splits)

text \<open>The unescaped text up to the closing quote with the number of characters in front of the quote;
  \<open>None\<close> inside for a bad escape (with the number of characters in front of it), \<open>None\<close> outside when the
  text ends first.\<close>

type_synonym unescaped = "(u8 list option \<times> nat) option"

definition prepend :: "u8 list \<Rightarrow> nat \<Rightarrow> unescaped \<Rightarrow> unescaped" where
  "prepend out n r = map_option (\<lambda>(t, k). (map_option (\<lambda>t. out @ t) t, n + k)) r"

function unescape :: "lone \<Rightarrow> u8 list \<Rightarrow> unescaped" where
  "unescape m [] = None"
| "unescape m (c # r) =
    (if c = 0x22 then Some (Some [], 0)
     else if c \<noteq> 0x5C then prepend [c] 1 (unescape m r)
     else if r = [] then None
     else if hd r = 0x75
     then (case unicode_ref m (c # r) of
             None \<Rightarrow> Some (None, 0)
           | Some (cp, n) \<Rightarrow> prepend (codepoint_to_utf8 cp) n (unescape m (drop n (c # r))))
     else if escape_map ! unat (hd r) = 0 then Some (None, 0)
     else prepend [escape_map ! unat (hd r)] 2 (unescape m (tl r)))"
  by pat_completeness auto
termination
  by (relation "measure (\<lambda>(m, xs). length xs)") (auto dest: unicode_ref_consumed)


section \<open>Hexadecimal digits\<close>

lemma nth_row:
  assumes "length D = 10" "length H = 6" "i < 210"
  shows "(replicate 48 x @ D @ replicate 7 x @ H @ replicate 26 x @ H @ replicate 107 x) ! i =
    (if 48 \<le> i \<and> i \<le> 57 then D ! (i - 48) else if 65 \<le> i \<and> i \<le> 70 then H ! (i - 65)
     else if 97 \<le> i \<and> i \<le> 102 then H ! (i - 97) else x)"
proof -
  consider "i < 48" | j where "i = 48 + j" "j < 10" | j where "i = 58 + j" "j < 7" | j where "i = 65 + j" "j < 6"
    | j where "i = 71 + j" "j < 26" | j where "i = 97 + j" "j < 6" | j where "i = 103 + j" "j < 107"
    using assms(3) by (atomize_elim, presburger)
  then show ?thesis using assms by cases (simp_all add: nth_append)
qed

lemma nth_digits: "j < 10 \<Longrightarrow> map (\<lambda>d. d * s) [0, 1, 2, 3, 4, 5, 6, 7, 8, 9 :: u32] ! j = of_nat j * s"
  by (simp add: less_Suc_eq numeral_eq_Suc) auto

lemma nth_letters: "j < 6 \<Longrightarrow> map (\<lambda>d. d * s) [0xa, 0xb, 0xc, 0xd, 0xe, 0xf :: u32] ! j = of_nat (j + 10) * s"
  by (auto simp: less_Suc_eq numeral_eq_Suc)

lemma hex_digit_unat: "hex_digit b = (if 48 \<le> unat b \<and> unat b \<le> 57 then Some (of_nat (unat b - 48))
    else if 65 \<le> unat b \<and> unat b \<le> 70 then Some (of_nat (unat b - 55))
    else if 97 \<le> unat b \<and> unat b \<le> 102 then Some (of_nat (unat b - 87)) else None)"
  by (simp add: hex_digit_def word_le_nat_alt)

lemma hex_digit_bound:
  assumes "hex_digit b = Some v"
  shows "v < 16"
proof -
  have "\<exists>k < 16. v = of_nat k"
    using assms by (auto simp: hex_digit_unat split: if_splits
        intro: exI [of _ "unat b - 48"] exI [of _ "unat b - 55"] exI [of _ "unat b - 87"])
  then show ?thesis by (auto simp: word_less_nat_alt unat_of_nat)
qed

lemma digit_row_nth:
  assumes "i < 210"
  shows "digit_row s ! i = (if 48 \<le> i \<and> i \<le> 57 then of_nat (i - 48) * s
    else if 65 \<le> i \<and> i \<le> 70 then of_nat (i - 65 + 10) * s
    else if 97 \<le> i \<and> i \<le> 102 then of_nat (i - 97 + 10) * s else 0xffffffff)"
proof -
  define D where "D = map (\<lambda>d. d * s) [0, 1, 2, 3, 4, 5, 6, 7, 8, 9]"
  define H where "H = map (\<lambda>d. d * s) [0xa, 0xb, 0xc, 0xd, 0xe, 0xf]"
  have D: "length D = 10" "\<And>j. j < 10 \<Longrightarrow> D ! j = of_nat j * s"
    unfolding D_def by (simp, rule nth_digits)
  have H: "length H = 6" "\<And>j. j < 6 \<Longrightarrow> H ! j = of_nat (j + 10) * s"
    unfolding H_def by (simp, rule nth_letters)
  show ?thesis
    unfolding digit_row_def D_def [symmetric] H_def [symmetric] nth_row [OF D(1) H(1) assms]
    by (auto simp: D H)
qed

lemma length_digit_row [simp]: "length (digit_row s) = 210"
  by (simp add: digit_row_def)

definition hex_value :: "u8 \<Rightarrow> u32 \<Rightarrow> u32" where
  "hex_value b s = (case hex_digit b of Some v \<Rightarrow> v * s | None \<Rightarrow> 0xffffffff)"

lemma digit_row_lookup:
  assumes "unat b < 210"
  shows "digit_row s ! unat b = hex_value b s"
proof -
  have e: "i - 65 + 10 = i - 55" if "65 \<le> i" for i :: nat using that by simp
  have e': "i - 97 + 10 = i - 87" if "97 \<le> i" for i :: nat using that by simp
  show ?thesis
    by (cases "48 \<le> unat b \<and> unat b \<le> 57"; cases "65 \<le> unat b \<and> unat b \<le> 70"; cases "97 \<le> unat b \<and> unat b \<le> 102")
      (auto simp add: digit_row_nth [OF assms] hex_digit_unat hex_value_def e e')
qed

lemma next_row:
  assumes "(\<exists>s' u. t = digit_row s' @ u) \<or> t = replicate 46 0xffffffff"
  shows "(digit_row s @ t) ! unat b = hex_value b s"
proof (cases "unat b < 210")
  case True
  then show ?thesis by (simp add: nth_append digit_row_lookup)
next
  case False
  then have "unat b - 210 < 46" using unsigned_less [of b, where 'a = nat] by simp
  then have "t ! (unat b - 210) = 0xffffffff" using assms by (auto simp: nth_append digit_row_nth)
  then show ?thesis using False by (simp add: nth_append hex_value_def hex_digit_unat)
qed

lemma digit_to_val32_lookup:
  "digit_to_val32 ! (0 + unat b) = hex_value b 1" "digit_to_val32 ! (210 + unat b) = hex_value b 0x10"
  "digit_to_val32 ! (420 + unat b) = hex_value b 0x100" "digit_to_val32 ! (630 + unat b) = hex_value b 0x1000"
proof -
  have skip: "(digit_row s @ t) ! (n + 210 + k) = t ! (n + k)" for s t n k by (simp add: nth_append)
  show "digit_to_val32 ! (0 + unat b) = hex_value b 1" unfolding digit_to_val32_def by (auto intro!: next_row)
  show "digit_to_val32 ! (210 + unat b) = hex_value b 0x10"
    using skip [of _ _ 0 "unat b"] unfolding digit_to_val32_def by (auto intro!: next_row)
  show "digit_to_val32 ! (420 + unat b) = hex_value b 0x100"
    using skip [of _ _ 0 "unat b"] skip [of _ _ 210 "unat b"] unfolding digit_to_val32_def by (auto intro!: next_row)
  show "digit_to_val32 ! (630 + unat b) = hex_value b 0x1000"
    using skip [of _ _ 0 "unat b"] skip [of _ _ 210 "unat b"] skip [of _ _ 420 "unat b"]
    unfolding digit_to_val32_def by (auto intro!: next_row)
qed

lemma or_as_sum:
  fixes x y :: u32
  assumes "y < 2 ^ k" "k < 32" shows "x * 2 ^ k OR y = x * 2 ^ k + y"
proof -
  have m: "y = y AND mask k" using assms(1) by (simp add: less_mask_eq)
  have "push_bit k x AND y = 0"
    by (subst m, rule bit_eqI) (auto simp: bit_simps)
  then have "push_bit k x + y = push_bit k x OR y" by (rule disjunctive_add_eq_or)
  then show ?thesis by (simp add: push_bit_eq_mult)
qed

lemma hex_small:
  fixes x y z w :: u32
  assumes "x < 16" "y < 16" "z < 16" "w < 16"
  shows "z * 0x10 + w < 0x100" "y * 0x100 + (z * 0x10 + w) < 0x1000" "x * 0x1000 + (y * 0x100 + (z * 0x10 + w)) < 0x10000"
  using assms by (simp_all add: word_less_nat_alt unat_word_ariths)

lemma hex_to_u32_nocheck_correct:
  "hex_to_u32_nocheck a b c d = (case hex4 [a, b, c, d] of Some v \<Rightarrow> v | None \<Rightarrow> 0xffffffff)"
proof -
  have ones: "0xffffffff = (- 1 :: u32)" by simp
  have all: "x OR 0xffffffff = 0xffffffff" "0xffffffff OR x = 0xffffffff" for x :: u32
    by (simp_all add: ones)
  show ?thesis
  proof (cases "hex_digit a = None \<or> hex_digit b = None \<or> hex_digit c = None \<or> hex_digit d = None")
    case True
    then show ?thesis
      by (cases "hex_digit a"; cases "hex_digit b"; cases "hex_digit c"; cases "hex_digit d")
        (simp_all add: hex_to_u32_nocheck_def digit_to_val32_lookup digit_to_val32_lookup(1) [simplified] hex_value_def all)
  next
    case False
    then obtain x y z w where v: "hex_digit a = Some x" "hex_digit b = Some y" "hex_digit c = Some z" "hex_digit d = Some w"
      by auto
    note bound = v [THEN hex_digit_bound]
    show ?thesis
      using hex_small [OF bound] bound or_as_sum [of w 4 z] or_as_sum [of "z * 0x10 + w" 8 y] or_as_sum [of "y * 0x100 + (z * 0x10 + w)" 12 x]
      by (simp add: hex_to_u32_nocheck_def digit_to_val32_lookup digit_to_val32_lookup(1) [simplified] hex_value_def v)
  qed
qed

lemma hex4_bound:
  assumes "hex4 xs = Some v"
  shows "v < 0x10000"
proof -
  obtain a b c d r where xs: "xs = a # b # c # d # r"
    using assms by (cases xs rule: hex4.cases) simp_all
  then obtain x y z w where "hex_digit a = Some x" "hex_digit b = Some y" "hex_digit c = Some z" "hex_digit d = Some w"
    and v: "v = x * 0x1000 + (y * 0x100 + (z * 0x10 + w))"
    using assms by (auto simp: bind_eq_Some_conv add.assoc)
  then have "x < 16" "y < 16" "z < 16" "w < 16" by (simp_all add: hex_digit_bound)
  then show ?thesis unfolding v by (rule hex_small(3))
qed

lemma load_hex_correct:
  assumes "i + 4 \<le> length src"
  shows "load_hex src i = Some (case hex4 (drop i src) of Some v \<Rightarrow> v | None \<Rightarrow> 0xffffffff)"
proof -
  have "drop i src = src ! i # src ! (i + 1) # src ! (i + 2) # src ! (i + 3) # drop (i + 4) src"
    using assms by (simp add: Cons_nth_drop_Suc numeral_eq_Suc)
  then show ?thesis using assms by (simp add: load_hex_def load_def hex_to_u32_nocheck_correct)
qed

lemma utf8_length: "cp \<le> 0x10FFFF \<Longrightarrow> codepoint_to_utf8 cp \<noteq> [] \<and> length (codepoint_to_utf8 cp) \<le> 4"
  by (simp add: codepoint_to_utf8_def)

lemma surrogate_low: "drop_bit 10 (l - 0xdc00) = 0 \<longleftrightarrow> low_surrogate l" for l :: u32
proof -
  have "unat l < 4294967296" using unsigned_less [of l, where 'a = nat] by simp
  then show ?thesis
    by (simp add: low_surrogate_def word_unat_eq_iff unat_drop_bit_eq drop_bit_eq_div [where 'a = nat] word_less_nat_alt word_le_nat_alt
        unat_sub_if' div_eq_0_iff; linarith)
qed

lemma surrogate_pair:
  assumes "high_surrogate u" "low_surrogate l"
  shows "(push_bit 10 (u - 0xd800) OR (l - 0xdc00)) + 0x10000 = 0x10000 + (u - 0xD800) * 0x400 + (l - 0xDC00)"
    "0x10000 + (u - 0xD800) * 0x400 + (l - 0xDC00) \<le> 0x10FFFF"
proof -
  have u: "u - 0xD800 < 0x400" and l: "l - 0xDC00 < 0x400"
    using assms by (auto simp: high_surrogate_def low_surrogate_def word_less_nat_alt word_le_nat_alt unat_sub_if')
  show "(push_bit 10 (u - 0xd800) OR (l - 0xdc00)) + 0x10000 = 0x10000 + (u - 0xD800) * 0x400 + (l - 0xDC00)"
    using or_as_sum [of "l - 0xdc00" 10 "u - 0xd800"] l by (simp add: push_bit_eq_mult)
  have "0x10000 + x * 0x400 + y \<le> 0x10FFFF" if "x < 0x400" "y < 0x400" for x y :: u32
    using that by (simp add: word_less_nat_alt word_le_nat_alt unat_word_ariths)
  then show "0x10000 + (u - 0xD800) * 0x400 + (l - 0xDC00) \<le> 0x10FFFF" using u l .
qed


section \<open>Memory\<close>

text \<open>The bytes in front of \<open>d\<close> are kept and \<open>bs\<close> stands at \<open>d\<close>.\<close>

definition written :: "nat \<Rightarrow> u8 list \<Rightarrow> u8 list \<Rightarrow> u8 list \<Rightarrow> bool" where
  "written d mem mem' bs \<longleftrightarrow> length mem' = length mem \<and> d + length bs \<le> length mem \<and> take (d + length bs) mem' = take d mem @ bs"

lemma written_trans:
  assumes "written d mem mem1 a" "written (d + length a) mem1 mem2 b"
  shows "written d mem mem2 (a @ b)"
  using assms by (simp add: written_def add.assoc)

lemma written_prefix:
  assumes "written d mem mem1 (a @ b)"
  shows "written d mem mem1 a"
proof -
  have "take (d + length a) mem1 = take (d + length a) (take (d + length (a @ b)) mem1)"
    by (simp only: take_take length_append) simp
  also have "\<dots> = take (d + length a) (take d mem @ a @ b)" using assms by (simp only: written_def)
  also have "\<dots> = take d mem @ a" using assms by (auto simp: written_def)
  finally show ?thesis using assms by (simp add: written_def)
qed

lemma store_bytes_written:
  assumes "d + length bs \<le> length mem"
  shows "\<exists>mem'. store_bytes mem d bs = Some mem' \<and> written d mem mem' bs"
  using assms by (auto simp: store_bytes_def written_def)

lemma store_written:
  assumes "d < length mem"
  shows "\<exists>mem'. store mem d v = Some mem' \<and> written d mem mem' [v]"
  using assms by (auto simp: store_def written_def take_Suc_conv_app_nth)

lemma write_codepoint_correct:
  assumes "cp \<le> 0x10FFFF" "d + 4 \<le> length mem"
  shows "\<exists>mem'. write_codepoint cp s mem d = Some (Some (s, mem', d + length (codepoint_to_utf8 cp)))
    \<and> written d mem mem' (codepoint_to_utf8 cp)"
  using store_bytes_written [of d "codepoint_to_utf8 cp" mem] utf8_length [OF assms(1)] assms(2)
  by (auto simp: write_codepoint_def)

lemma write_codepoint_bad: "d \<le> length mem \<Longrightarrow> write_codepoint 0xffffffff s mem d = Some None"
  by (simp add: write_codepoint_def store_bytes_def codepoint_to_utf8_def)

section \<open>The handlers of code points\<close>

definition handled :: "(u32 \<times> nat) option \<Rightarrow> nat \<Rightarrow> u8 list \<Rightarrow> nat \<Rightarrow> string_state option option \<Rightarrow> bool" where
  "handled u s mem d r = (case u of
      None \<Rightarrow> r = Some None
    | Some (cp, n) \<Rightarrow> (\<exists>mem'. r = Some (Some (s + n, mem', d + length (codepoint_to_utf8 cp)))
        \<and> written d mem mem' (codepoint_to_utf8 cp)))"

locale unicode_handler =
  fixes m :: lone and handle :: "u8 list \<Rightarrow> string_state \<Rightarrow> string_state option option"
  assumes handle_escape: "s + 12 \<le> length src \<Longrightarrow> d + 4 \<le> length mem \<Longrightarrow>
    handled (unicode_ref m (drop s src)) s mem d (handle src (s, mem, d))"

lemma two_chars:
  assumes "i + 2 \<le> length src"
  shows "take 2 (drop i src) = [a, b] \<longleftrightarrow> src ! i = a \<and> src ! (i + 1) = b"
proof -
  have "drop i src = src ! i # src ! (i + 1) # drop (i + 2) src" using assms by (simp add: Cons_nth_drop_Suc numeral_eq_Suc)
  then show ?thesis by simp
qed

lemma low_half_load:
  assumes "i + 6 \<le> length src"
  shows "low_half (drop i src) = (if src ! i = 0x5C \<and> src ! (i + 1) = 0x75
    then (let l = the (load_hex src (i + 2)) in if low_surrogate l then Some l else None) else None)"
  using assms two_chars [of i src "0x5C" "0x75"]
  by (auto simp: low_half_def load_hex_correct low_surrogate_def split: option.splits)

lemma handled_write:
  assumes "cp \<le> 0x10FFFF" "d + 4 \<le> length mem" "s' = s + n"
  shows "handled (Some (cp, n)) s mem d (write_codepoint cp s' mem d)"
  using write_codepoint_correct [OF assms(1,2), of s'] assms(3) by (simp add: handled_def)

lemma load_hex_some: "i + 4 \<le> length src \<Longrightarrow> load_hex src i = Some (the (load_hex src i))"
  by (simp add: load_hex_correct)

lemma pair_value_or:
  "high_surrogate u \<Longrightarrow> low_surrogate l \<Longrightarrow> (push_bit 10 (u - 0xd800) OR (l - 0xdc00)) + 0x10000 = pair_value u l"
  by (simp only: surrogate_pair(1) pair_value_def)

lemma handle_unicode_codepoint_cases:
  fixes src s
  defines "u \<equiv> the (load_hex src (s + 2))" and "l \<equiv> low_half (drop (s + 6) src)"
  assumes "s + 12 \<le> length src"
  shows "handle_unicode_codepoint src (s, mem, d) repl =
    (if high_surrogate u \<and> l \<noteq> None then write_codepoint (pair_value u (the l)) (s + 12) mem d
     else if high_surrogate u \<or> low_surrogate u
     then (if repl then write_codepoint 0xfffd (s + 6) mem d else Some None)
     else write_codepoint u (s + 6) mem d)"
proof -
  define c where "c = the (load_hex src (s + 8))"
  have load: "load_hex src (s + 2) = Some u" "load_hex src (s + 8) = Some c"
    "load src (s + 6) = Some (src ! (s + 6))" "load src (s + 7) = Some (src ! (s + 7))"
    using assms load_hex_some [of "s + 2" src] load_hex_some [of "s + 8" src] by (simp_all add: load_def c_def)
  have hi: "0xd800 \<le> u \<and> u < 0xdc00 \<longleftrightarrow> high_surrogate u" by (simp add: high_surrogate_def)
  have lo: "0xdc00 \<le> u \<and> u \<le> 0xdfff \<longleftrightarrow> low_surrogate u"
    by (auto simp: low_surrogate_def word_less_nat_alt word_le_nat_alt)
  have l: "l = (if src ! (s + 6) = 0x5C \<and> src ! (s + 7) = 0x75
      then (if low_surrogate c then Some c else None) else None)"
    unfolding l_def c_def by (subst low_half_load) (use assms(3) in \<open>simp_all add: Let_def add.commute [of 7] add.commute [of 8]\<close>)
  show ?thesis
    by (simp add: handle_unicode_codepoint_def Let_def load hi lo l surrogate_low pair_value_or add.assoc add.commute [of 7] add.commute [of 8] add.commute [of 12] del: add_2_eq_Suc')
qed

lemma handle_unicode_codepoint_wobbly_cases:
  fixes src s
  defines "u \<equiv> the (load_hex src (s + 2))" and "l \<equiv> low_half (drop (s + 6) src)"
  assumes "s + 12 \<le> length src"
  shows "handle_unicode_codepoint_wobbly src (s, mem, d) =
    (if high_surrogate u \<and> l \<noteq> None then write_codepoint (pair_value u (the l)) (s + 12) mem d
     else write_codepoint u (s + 6) mem d)"
proof -
  define c where "c = the (load_hex src (s + 8))"
  have load: "load_hex src (s + 2) = Some u" "load_hex src (s + 8) = Some c"
    "load src (s + 6) = Some (src ! (s + 6))" "load src (s + 7) = Some (src ! (s + 7))"
    using assms load_hex_some [of "s + 2" src] load_hex_some [of "s + 8" src] by (simp_all add: load_def c_def)
  have hi: "0xd800 \<le> u \<and> u < 0xdc00 \<longleftrightarrow> high_surrogate u" by (simp add: high_surrogate_def)
  have l: "l = (if src ! (s + 6) = 0x5C \<and> src ! (s + 7) = 0x75
      then (if low_surrogate c then Some c else None) else None)"
    unfolding l_def c_def by (subst low_half_load) (use assms(3) in \<open>simp_all add: Let_def add.commute [of 7] add.commute [of 8]\<close>)
  show ?thesis
    by (simp add: handle_unicode_codepoint_wobbly_def Let_def load hi l surrogate_low pair_value_or add.assoc add.commute [of 7] add.commute [of 8] add.commute [of 12] del: add_2_eq_Suc')
qed

lemma low_half_low: "low_half r = Some l \<Longrightarrow> low_surrogate l"
  by (auto simp: low_half_def split: if_splits option.splits)

lemma bad_unit: "\<not> high_surrogate 0xffffffff" "\<not> low_surrogate 0xffffffff"
  by (simp_all add: high_surrogate_def low_surrogate_def)

lemma pair_value_bound: "high_surrogate u \<Longrightarrow> low_half r \<noteq> None \<Longrightarrow> pair_value u (the (low_half r)) \<le> 0x10FFFF"
  using surrogate_pair(2) low_half_low by (auto simp: pair_value_def)

lemma hex4_le: "hex4 xs = Some v \<Longrightarrow> v \<le> 0x10FFFF"
  using hex4_bound [of xs v] by (simp add: word_less_nat_alt word_le_nat_alt)

lemma unicode_handler_strict:
  "unicode_handler (if repl then Replace else Reject) (\<lambda>src st. handle_unicode_codepoint src st repl)"
proof
  fix s d :: nat and src mem :: "u8 list"
  assume src: "s + 12 \<le> length src" and mem: "d + 4 \<le> length mem"
  show "handled (unicode_ref (if repl then Replace else Reject) (drop s src)) s mem d (handle_unicode_codepoint src (s, mem, d) repl)"
    using src mem hex4_le [of "drop (s + 2) src"]
    by (cases "hex4 (drop (s + 2) src)")
      (auto simp: handle_unicode_codepoint_cases unicode_ref_def load_hex_correct add.commute [of _ s] bad_unit
        write_codepoint_bad handled_def [of None] simp del: add_2_eq_Suc' intro!: handled_write pair_value_bound)
qed

lemma unicode_handler_wobbly: "unicode_handler Keep handle_unicode_codepoint_wobbly"
proof
  fix s d :: nat and src mem :: "u8 list"
  assume src: "s + 12 \<le> length src" and mem: "d + 4 \<le> length mem"
  show "handled (unicode_ref Keep (drop s src)) s mem d (handle_unicode_codepoint_wobbly src (s, mem, d))"
    using src mem hex4_le [of "drop (s + 2) src"]
    by (cases "hex4 (drop (s + 2) src)")
      (auto simp: handle_unicode_codepoint_wobbly_cases unicode_ref_def load_hex_correct add.commute [of _ s] bad_unit
        write_codepoint_bad handled_def [of None] simp del: add_2_eq_Suc' intro!: handled_write pair_value_bound)
qed


section \<open>One round of the loop\<close>

lemma borrow_1: "borrow (uint x) 1 False n \<longleftrightarrow> 0 < n \<and> (\<forall>i < n. \<not> bit x i)" if "n \<le> LENGTH('a)" for x :: "'a :: len word"
  using that
proof (induction n)
  case (Suc n)
  then show ?case by (cases n) (auto simp: bit_uint_iff bit_1_iff less_Suc_eq)
qed simp

text \<open>Subtracting one changes the bits up to the lowest one that is set.\<close>

lemma bit_minus_1:
  fixes x :: "'a :: len word"
  assumes "i < LENGTH('a)"
  shows "bit (x - 1) i \<longleftrightarrow> (if \<exists>j < i. bit x j then bit x i else \<not> bit x i)"
  using assms borrow_1 [of i x] by (simp add: bit_diff_word bit_1_iff) (metis gr_zeroI less_nat_zero_code)

lemma trailing_zeroes_at:
  assumes "k < 64" "bit x k" "\<And>i. i < k \<Longrightarrow> \<not> bit x i"
  shows "trailing_zeroes x = k"
proof -
  have "[0..<64] = [0..<k] @ k # [Suc k..<64]"
    using assms(1) upt_add_eq_append [of 0 k "64 - k"] by (simp add: upt_conv_Cons)
  moreover have "takeWhile (\<lambda>i. \<not> bit x i) [0..<k] = [0..<k]" using assms(3) by (simp add: takeWhile_eq_all_conv)
  ultimately show ?thesis using assms(2) by (simp only: trailing_zeroes_def takeWhile_append takeWhile.simps) simp
qed

definition plain :: "u8 \<Rightarrow> bool" where "plain b \<longleftrightarrow> b \<noteq> 0x22 \<and> b \<noteq> 0x5C"

lemma copy_and_find_correct:
  assumes "s + 32 \<le> length src" "d + 32 \<le> length mem"
  obtains b mem' where "copy_and_find src s mem d = Some (b, mem')" "written d mem mem' (take 32 (drop s src))"
    "\<And>i. bit (bs_bits b) i \<longleftrightarrow> i < 32 \<and> src ! (s + i) = 0x5C" "\<And>i. bit (quote_bits b) i \<longleftrightarrow> i < 32 \<and> src ! (s + i) = 0x22"
proof -
  define v0 v1 where "v0 = take 16 (drop s src)" and "v1 = take 16 (drop (s + 16) src)"
  have len: "length v0 = 16" "length v1 = 16" using assms by (simp_all add: v0_def v1_def)
  have v: "take 32 (drop s src) = v0 @ v1"
    unfolding v0_def v1_def by (metis add.commute drop_drop numeral_plus_numeral take_add semiring_norm(2,6) add_numeral_left)
  obtain m1 where m1: "store_bytes mem d v0 = Some m1" "written d mem m1 v0"
    using store_bytes_written [of d v0 mem] assms len by auto
  obtain m2 where m2: "store_bytes m1 (d + 16) v1 = Some m2" "written (d + 16) m1 m2 v1"
    using store_bytes_written [of "d + 16" v1 m1] m1(2) assms len by (auto simp: written_def)
  have "written d mem m2 (v0 @ v1)" using written_trans [of d mem m1 v0 m2 v1] m1 m2 len by simp
  define M where "M = to_bitmask [vceqq_u8 v0 (splat 0x5C), vceqq_u8 v1 (splat 0x5C), vceqq_u8 v0 (splat 0x22), vceqq_u8 v1 (splat 0x22)]"
  have chunk: "(v0 @ v1) ! i = src ! (s + i)" if "i < 32" for i
    unfolding v [symmetric] using that assms(1) by simp
  have M: "bit M i \<longleftrightarrow> i < 64 \<and> (if i < 32 then src ! (s + i) = 0x5C else src ! (s + (i - 32)) = 0x22)" for i
  proof -
    have eq: "vceqq_u8 v (splat m) = map (\<lambda>b. if b = m then 0xFF else 0) v" if "length v = 16" for v m
      using that by (simp add: vceqq_u8_def map2_splat)
    have "bit M i \<longleftrightarrow> i < 64 \<and> (map (\<lambda>b. if b = 0x5C then 0xFF else 0) (v0 @ v1) @ map (\<lambda>b. if b = 0x22 then 0xFF else 0) (v0 @ v1)) ! i \<noteq> (0 :: u8)"
      unfolding M_def by (subst bit_to_bitmask) (use len in \<open>auto simp: eq wf_block_def bool_lanes_def\<close>)
    also have "\<dots> \<longleftrightarrow> i < 64 \<and> (if i < 32 then (v0 @ v1) ! i = 0x5C else (v0 @ v1) ! (i - 32) = 0x22)"
      unfolding nth_append [of "map _ (v0 @ v1)"] using len by (auto simp del: map_append split: if_splits)
    finally show ?thesis using chunk [of i] chunk [of "i - 32"] by auto
  qed
  show ?thesis
  proof (rule that)
    show "copy_and_find src s mem d = Some (\<lparr>bs_bits = ucast M, quote_bits = ucast (drop_bit 32 M)\<rparr>, m2)"
      using assms(1) m1(1) m2(1) by (simp add: copy_and_find_def BYTES_PROCESSED_def v0_def v1_def M_def Let_def)
    show "written d mem m2 (take 32 (drop s src))" unfolding v by fact
  qed (auto simp: bit_simps M)
qed


text \<open>The masks answer which of the two comes first, \<open>k\<close> being the number of bytes in front of it.\<close>

lemma finder_decides:
  assumes bs: "\<And>i. bit (bs_bits b) i \<longleftrightarrow> i < 32 \<and> x i = (0x5C :: u8)" and q: "\<And>i. bit (quote_bits b) i \<longleftrightarrow> i < 32 \<and> x i = 0x22"
    and before: "\<And>i. i < k \<Longrightarrow> plain (x i)"
  shows "32 \<le> k \<Longrightarrow> \<not> has_quote_first b \<and> \<not> has_backslash b"
    "k < 32 \<Longrightarrow> x k = 0x22 \<Longrightarrow> has_quote_first b \<and> quote_index b = k"
    "k < 32 \<Longrightarrow> x k = 0x5C \<Longrightarrow> \<not> has_quote_first b \<and> has_backslash b \<and> backslash_index b = k"
proof -
  have first: "has_quote_first b \<longleftrightarrow> (\<exists>i < 32. bit (bs_bits b - 1) i \<and> bit (quote_bits b) i)"
    unfolding has_quote_first_def by (auto simp: bit_eq_iff bit_and_iff q)
  have before': "x i \<noteq> 0x22" "x i \<noteq> 0x5C" if "i < k" for i using before [OF that] by (simp_all add: plain_def)
  have some: "has_backslash b \<longleftrightarrow> (\<exists>i. bit (bs_bits b) i)" by (auto simp: has_backslash_def bit_eq_iff bs)
  show "32 \<le> k \<Longrightarrow> \<not> has_quote_first b \<and> \<not> has_backslash b"
    using before' by (auto simp: first some bs q)
  show "has_quote_first b \<and> quote_index b = k" if "k < 32" "x k = 0x22"
  proof
    show "has_quote_first b" unfolding first using that before' by (auto simp: bit_minus_1 bs q intro!: exI [of _ k])
    show "quote_index b = k" unfolding quote_index_def using that before' by (intro trailing_zeroes_at) (auto simp: bit_simps q)
  qed
  show "\<not> has_quote_first b \<and> has_backslash b \<and> backslash_index b = k" if "k < 32" "x k = 0x5C"
  proof (intro conjI)
    show "\<not> has_quote_first b"
    proof
      assume "has_quote_first b"
      then obtain i where i: "i < 32" "bit (bs_bits b - 1) i" "x i = 0x22" unfolding first q by auto
      then have "k \<le> i" "i \<noteq> k" using before' [of i] that by (auto simp: not_less [symmetric])
      then have "k < i" by simp
      then show False using i that by (auto simp: bit_minus_1 bs split: if_splits)
    qed
    show "has_backslash b" unfolding some using that by (auto simp: bs)
    show "backslash_index b = k" unfolding backslash_index_def using that before' by (intro trailing_zeroes_at) (auto simp: bit_simps bs)
  qed
qed

lemma unescape_plain:
  assumes "k \<le> length xs" "\<forall>i < k. plain (xs ! i)"
  shows "unescape m xs = prepend (take k xs) k (unescape m (drop k xs))"
  using assms
proof (induction k arbitrary: xs)
  case 0
  then show ?case by (cases "unescape m xs") (auto simp: prepend_def option.map_ident)
next
  case (Suc k)
  then obtain c r where xs: "xs = c # r" by (cases xs) auto
  then have "plain c" "\<forall>i < k. plain (r ! i)" "k \<le> length r" using Suc.prems by auto
  then show ?case using Suc.IH [of r] unfolding xs
    by (cases "unescape m (drop k r)") (auto simp: plain_def prepend_def option.map_comp comp_def)
qed


section \<open>The loop\<close>

definition out_bytes :: "u8 list option \<Rightarrow> u8 list" where
  "out_bytes res = (case res of None \<Rightarrow> [] | Some out \<Rightarrow> out)"

text \<open>The outcome of the loop: the end of the output or the null pointer, the output in the memory.\<close>

definition outcome :: "nat \<Rightarrow> u8 list \<Rightarrow> u8 list option \<Rightarrow> (nat option \<times> u8 list) option \<Rightarrow> bool" where
  "outcome d mem res r \<longleftrightarrow> (\<exists>mem'. r = Some (map_option (\<lambda>out. d + length out) res, mem') \<and> written d mem mem' (out_bytes res))"

lemma outcome_extend:
  assumes "written d mem mem1 a" "outcome (d + length a) mem1 res r"
  shows "outcome d mem (map_option (\<lambda>t. a @ t) res) r"
proof -
  obtain mem2 where r: "r = Some (map_option (\<lambda>out. d + length a + length out) res, mem2)"
    and w: "written (d + length a) mem1 mem2 (out_bytes res)"
    using assms(2) by (auto simp: outcome_def)
  have all: "written d mem mem2 (a @ out_bytes res)" using written_trans [OF assms(1) w] .
  show ?thesis
  proof (cases res)
    case None
    then show ?thesis using r written_prefix [of d mem mem2 "[]" "a @ out_bytes res"] all
      by (auto simp: outcome_def out_bytes_def)
  next
    case (Some out)
    then show ?thesis using r all by (auto simp: outcome_def out_bytes_def add.assoc)
  qed
qed

lemma written_none: "written d mem mem' bs \<Longrightarrow> written d mem mem' []"
  using written_prefix [of d mem mem' "[]" bs] by simp

lemma utf8_length_le: "length (codepoint_to_utf8 cp) \<le> 4"
  by (simp add: codepoint_to_utf8_def)

lemma stop_position:
  fixes x :: "nat \<Rightarrow> u8"
  obtains k where "k \<le> 32" "\<And>i. i < k \<Longrightarrow> plain (x i)" "k < 32 \<Longrightarrow> x k = 0x22 \<or> x k = 0x5C"
proof (cases "\<exists>i < 32. \<not> plain (x i)")
  case True
  then obtain k where "\<not> plain (x k)" "k < 32" "\<And>i. i < k \<Longrightarrow> plain (x i)"
    using exists_least_iff [of "\<lambda>i. i < 32 \<and> \<not> plain (x i)"] by auto
  then show ?thesis using that [of k] by (auto simp: plain_def)
qed (use that [of 32] in auto)

text \<open>A round either gives the outcome, or consumes a part of the text and continues with the rest.\<close>

definition round_ends :: "nat \<Rightarrow> u8 list \<Rightarrow> u8 list option \<Rightarrow> (nat option \<times> u8 list + string_state) option \<Rightarrow> bool" where
  "round_ends d mem res r \<longleftrightarrow> (\<exists>mem'. r = Some (Inl (map_option (\<lambda>out. d + length out) res, mem')) \<and> written d mem mem' (out_bytes res))"

definition round_continues :: "lone \<Rightarrow> u8 list \<Rightarrow> nat \<Rightarrow> u8 list \<Rightarrow> nat \<Rightarrow> u8 list option \<Rightarrow> nat \<Rightarrow>
    (nat option \<times> u8 list + string_state) option \<Rightarrow> bool" where
  "round_continues m src s mem d res n r \<longleftrightarrow> (\<exists>c a mem' res' n'. r = Some (Inr (s + c, mem', d + length a)) \<and> written d mem mem' a
     \<and> unescape m (drop (s + c) src) = Some (res', n') \<and> res = map_option (\<lambda>t. a @ t) res' \<and> n = c + n' \<and> 0 < c \<and> length a \<le> c)"

lemma prepend_Some:
  "prepend a c r = Some (res, n) \<longleftrightarrow> (\<exists>res' n'. r = Some (res', n') \<and> res = map_option (\<lambda>t. a @ t) res' \<and> n = c + n')"
  by (cases r) (auto simp: prepend_def)

lemma round_continues_prefix:
  assumes "unescape m (drop s src) = Some (res, n)" "unescape m (drop s src) = prepend a c (unescape m (drop (s + c) src))"
    "r = Some (Inr (s + c, mem', d + length a))" "written d mem mem' a" "0 < c" "length a \<le> c"
  shows "round_continues m src s mem d res n r"
  using assms unfolding round_continues_def by (auto simp: prepend_Some)

lemma prepend_prepend: "prepend a c (prepend b e r) = prepend (a @ b) (c + e) r"
  by (cases r) (auto simp: prepend_def option.map_comp comp_def)

context unicode_handler
begin

lemma string_round_escape:
  assumes "unescape m (drop s src) = Some (res, n)" "s + n + 32 \<le> length src" "d + n + 32 \<le> length mem"
    and k: "k < 32" "src ! (s + k) = 0x5C" and un: "unescape m (drop s src) = prepend (take k (drop s src)) k (unescape m (drop (s + k) src))"
    and find: "copy_and_find src s mem d = Some (b, mem1)" "\<not> has_quote_first b" "has_backslash b" "backslash_index b = k"
    and w: "written d mem mem1 (take k (drop s src))"
  shows "round_ends d mem res (string_round handle src (s, mem, d)) \<or> round_continues m src s mem d res n (string_round handle src (s, mem, d))"
proof -
  obtain res' n' where tail: "unescape m (drop (s + k) src) = Some (res', n')" "res = map_option (\<lambda>t. take k (drop s src) @ t) res'" "n = k + n'"
    using assms(1) un by (auto simp: prepend_Some)
  have lk: "length (take k (drop s src)) = k" "length mem1 = length mem" using assms(2) tail(3) w by (auto simp: written_def)
  define e where "e = src ! (s + k + 1)"
  have "drop (s + k) src = src ! (s + k) # src ! (s + k + 1) # drop (s + k + 2) src"
    using assms(2) tail(3) by (simp add: Cons_nth_drop_Suc)
  then have dk: "drop (s + k) src = 0x5C # e # drop (s + k + 2) src" using k(2) by (simp add: e_def)
  have load: "load src (Suc (s + k)) = Some e" using assms(2) tail(3) by (simp add: load_def e_def)
  have ends: "round_ends d mem res (Some (Inl (None, mem1)))" if "res' = None"
    using that tail(2) written_none [OF w] by (simp add: round_ends_def out_bytes_def)
  show ?thesis
  proof (cases "e = 0x75")
    case True
    have un': "unescape m (drop (s + k) src) = (case unicode_ref m (drop (s + k) src) of None \<Rightarrow> Some (None, 0)
        | Some (cp, c) \<Rightarrow> prepend (codepoint_to_utf8 cp) c (unescape m (drop (s + k + c) src)))"
    proof -
      have "drop (s + k + c) src = drop c (drop (s + k) src)" for c by (simp add: add.commute)
      then show ?thesis using True by (simp add: dk split: option.split)
    qed
    have "handled (unicode_ref m (drop (s + k) src)) (s + k) mem1 (d + k) (handle src (s + k, mem1, d + k))"
      using handle_escape [of "s + k" src "d + k" mem1] assms(2,3) tail(3) lk(2) by simp
    then have h: "handled (unicode_ref m (drop (s + k) src)) (s + k) mem1 (d + k) (handle src (s + k, mem1, d + k))" .
    have round: "string_round handle src (s, mem, d) = (case handle src (s + k, mem1, d + k) of None \<Rightarrow> None
        | Some None \<Rightarrow> Some (Inl (None, mem1)) | Some (Some st') \<Rightarrow> Some (Inr st'))"
      using True by (simp add: string_round_def find load split: option.splits)
    show ?thesis
    proof (cases "unicode_ref m (drop (s + k) src)")
      case None
      then have "round_ends d mem res (string_round handle src (s, mem, d))"
        using h ends tail(1) un' by (simp add: round handled_def)
      then show ?thesis ..
    next
      case (Some p)
      obtain cp c where p: "p = (cp, c)" by fastforce
      then obtain mem2 where h: "handle src (s + k, mem1, d + k) = Some (Some (s + k + c, mem2, d + k + length (codepoint_to_utf8 cp)))"
        and w2: "written (d + k) mem1 mem2 (codepoint_to_utf8 cp)"
        using h Some by (auto simp: handled_def)
      have "round_continues m src s mem d res n (string_round handle src (s, mem, d))"
        by (rule round_continues_prefix [where a = "take k (drop s src) @ codepoint_to_utf8 cp" and c = "k + c" and mem' = mem2])
          (use un un' Some p lk w w2 utf8_length_le [of cp] unicode_ref_consumed [OF Some [unfolded p]] written_trans [OF w] assms(1)
            in \<open>auto simp: prepend_prepend round h add.assoc\<close>)
      then show ?thesis ..
    qed
  next
    case False
    show ?thesis
    proof (cases "escape_map ! unat e = 0")
      case True
      then have "round_ends d mem res (string_round handle src (s, mem, d))"
        using False ends tail(1) by (simp add: string_round_def find load dk)
      then show ?thesis ..
    next
      case esc: False
      obtain mem2 where w2: "store mem1 (d + k) (escape_map ! unat e) = Some mem2" "written (d + k) mem1 mem2 [escape_map ! unat e]"
        using store_written [of "d + k" mem1] assms(3) tail(3) lk(2) by auto
      have "round_continues m src s mem d res n (string_round handle src (s, mem, d))"
        by (rule round_continues_prefix [where a = "take k (drop s src) @ [escape_map ! unat e]" and c = "k + 2" and mem' = mem2])
          (use un False esc lk w w2 written_trans [OF w] assms(1)
            in \<open>auto simp: prepend_prepend string_round_def find load dk add.assoc\<close>)
      then show ?thesis ..
    qed
  qed
qed
lemma string_round_correct:
  assumes "unescape m (drop s src) = Some (res, n)" "s + n + 32 \<le> length src" "d + n + 32 \<le> length mem"
  shows "round_ends d mem res (string_round handle src (s, mem, d)) \<or> round_continues m src s mem d res n (string_round handle src (s, mem, d))"
proof -
  define x where "x i = src ! (s + i)" for i
  obtain b mem1 where find: "copy_and_find src s mem d = Some (b, mem1)" and w: "written d mem mem1 (take 32 (drop s src))"
    and bs: "\<And>i. bit (bs_bits b) i \<longleftrightarrow> i < 32 \<and> x i = 0x5C" and q: "\<And>i. bit (quote_bits b) i \<longleftrightarrow> i < 32 \<and> x i = 0x22"
    unfolding x_def by (rule copy_and_find_correct [of s src d mem]) (use assms(2,3) in auto)
  obtain k where k: "k \<le> 32" "\<And>i. i < k \<Longrightarrow> plain (x i)" "k < 32 \<Longrightarrow> x k = 0x22 \<or> x k = 0x5C"
    using stop_position [of x] by blast
  note dec = finder_decides [of b x k, OF bs q k(2)]
  have un: "unescape m (drop s src) = prepend (take k (drop s src)) k (unescape m (drop (s + k) src))"
    using unescape_plain [of k "drop s src" m] k(1,2) assms(2) by (simp add: x_def add.commute)
  have "take 32 (drop s src) = take k (drop s src) @ take (32 - k) (drop (s + k) src)"
    using k(1) take_add [of k "32 - k" "drop s src"] by (simp add: add.commute)
  then have wk: "written d mem mem1 (take k (drop s src))" using w written_prefix by metis
  have lk: "length (take k (drop s src)) = k" using k(1) assms(2) by simp
  consider "k = 32" | "k < 32" "x k = 0x22" | "k < 32" "x k = 0x5C" using k(1,3) by fastforce
  then show ?thesis
  proof cases
    case 1
    have "round_continues m src s mem d res n (string_round handle src (s, mem, d))"
      by (rule round_continues_prefix [OF assms(1) un _ wk])
        (use 1 dec(1) lk in \<open>simp_all add: string_round_def find BYTES_PROCESSED_def\<close>)
    then show ?thesis ..
  next
    case 2
    have "drop (s + k) src = 0x22 # drop (s + k + 1) src"
      using 2 assms(2) Cons_nth_drop_Suc [of "s + k" src] by (simp add: x_def)
    then have "res = Some (take k (drop s src))" using un assms(1) by (simp add: prepend_def)
    then have "round_ends d mem res (string_round handle src (s, mem, d))"
      using 2 dec(2) lk wk by (simp add: round_ends_def out_bytes_def string_round_def find)
    then show ?thesis ..
  next
    case 3
    then show ?thesis using string_round_escape [OF assms 3(1) _ un find _ _ _ wk] dec(3) by (simp add: x_def)
  qed
qed

lemma string_loop_correct:
  assumes "unescape m (drop s src) = Some (res, n)" "s + n + 32 \<le> length src" "d + n + 32 \<le> length mem" "n < fuel"
  shows "outcome d mem res (string_loop fuel handle src (s, mem, d))"
  using assms
proof (induction fuel arbitrary: s mem d res n)
  case (Suc fuel)
  from string_round_correct [OF Suc.prems(1-3)]
  show ?case
  proof
    assume "round_ends d mem res (string_round handle src (s, mem, d))"
    then show ?thesis by (auto simp: round_ends_def outcome_def)
  next
    assume "round_continues m src s mem d res n (string_round handle src (s, mem, d))"
    then obtain c a mem' res' n' where r: "string_round handle src (s, mem, d) = Some (Inr (s + c, mem', d + length a))"
      and w: "written d mem mem' a" and un: "unescape m (drop (s + c) src) = Some (res', n')"
      and res: "res = map_option (\<lambda>t. a @ t) res'" and n: "n = c + n'" "0 < c" "length a \<le> c"
      unfolding round_continues_def by blast
    have "outcome (d + length a) mem' res' (string_loop fuel handle src (s + c, mem', d + length a))"
      by (rule Suc.IH [OF un]) (use n w Suc.prems in \<open>auto simp: written_def\<close>)
    then show ?thesis using outcome_extend [OF w] r by (simp add: res)
  qed
qed simp

end

interpretation strict: unicode_handler "if repl then Replace else Reject" "\<lambda>src st. handle_unicode_codepoint src st repl" for repl
  by (rule unicode_handler_strict)

interpretation wobbly: unicode_handler Keep handle_unicode_codepoint_wobbly
  by (rule unicode_handler_wobbly)


section \<open>The result\<close>

lemma outcome_memory:
  assumes "outcome d mem res r"
  shows "\<exists>mem'. r = Some (map_option (\<lambda>out. d + length out) res, mem') \<and> length mem' = length mem \<and> take d mem' = take d mem
    \<and> (\<forall>out. res = Some out \<longrightarrow> take (length out) (drop d mem') = out)"
proof -
  obtain mem' where r: "r = Some (map_option (\<lambda>out. d + length out) res, mem')" and w: "written d mem mem' (out_bytes res)"
    using assms by (auto simp: outcome_def)
  have "take d mem' = take d mem" "d \<le> length mem" using written_none [OF w] by (auto simp: written_def)
  moreover have "take (length out) (drop d mem') = out" if "res = Some out" for out
  proof -
    have "take (length out) (drop d mem') = drop d (take (d + length out) mem')" by (simp add: drop_take)
    then show ?thesis using w that \<open>d \<le> length mem\<close> by (simp add: written_def out_bytes_def)
  qed
  ultimately show ?thesis using r w by (auto simp: written_def)
qed

lemma parse_string_outcome:
  assumes "unescape (if allow_replacement then Replace else Reject) (drop s src) = Some (res, n)"
    and "s + n + 32 \<le> length src" and "d + n + 32 \<le> length mem"
  shows "\<exists>mem'. parse_string src s mem d allow_replacement = Some (map_option (\<lambda>out. d + length out) res, mem')
    \<and> length mem' = length mem \<and> take d mem' = take d mem
    \<and> (\<forall>out. res = Some out \<longrightarrow> take (length out) (drop d mem') = out)"
  unfolding parse_string_def
  by (rule outcome_memory, rule strict.string_loop_correct [OF assms]) (use assms(2) in simp)

text \<open>C15: unescaping a string literal that starts at \<open>s\<close> gives what reading it character by character
  gives: the position behind the last byte written, the unescaped text in front of it, and everything
  before \<open>d\<close> as it was; a bad escape (or a lone surrogate, unless it is to be replaced) gives the null
  pointer. Every access stays inside of the two buffers when both reach 32 bytes behind the closing quote
  or the bad escape, and the loop ends.\<close>

theorem parse_string_correct:
  assumes "unescape (if allow_replacement then Replace else Reject) (drop s src) = Some (res, n)"
    and "s + n + 32 \<le> length src" and "d + n + 32 \<le> length mem"
  shows "\<exists>mem'. parse_string src s mem d allow_replacement = Some (map_option (\<lambda>out. d + length out) res, mem')
    \<and> length mem' = length mem \<and> take d mem' = take d mem
    \<and> (\<forall>out. res = Some out \<longrightarrow> take (length out) (drop d mem') = out)"
  by (rule parse_string_outcome [OF assms])

text \<open>The example: \<open>a\u00e9\n\<close> and the closing quote, followed by padding.\<close>

definition example_literal :: "u8 list" where
  "example_literal = [0x61, 0x5C, 0x75, 0x30, 0x30, 0x65, 0x39, 0x5C, 0x6E, 0x22] @ replicate 64 0"

lemma unescape_example: "unescape m (drop 0 example_literal) = Some (Some [0x61, 0xC3, 0xA9, 0x0A], 9)"
  by code_simp

lemma length_example: "length example_literal = 74"
  by (simp add: example_literal_def)

theorem parse_string_correct_witness:
  "\<exists>mem'. parse_string example_literal 0 (replicate 64 0) 3 False = Some (Some 7, mem') \<and> take 4 (drop 3 mem') = [0x61, 0xC3, 0xA9, 0x0A]"
proof -
  have u: "unescape (if False then Replace else Reject) (drop 0 example_literal) = Some (Some [0x61, 0xC3, 0xA9, 0x0A], 9)"
    by (simp only: if_False unescape_example)
  have four: "Suc (Suc (Suc (Suc 0))) = 4" by simp
  have "\<exists>mem'. parse_string example_literal 0 (replicate 64 0) 3 False = Some (Some (3 + 4), mem') \<and> take 4 (drop 3 mem') = [0x61, 0xC3, 0xA9, 0x0A]"
    using parse_string_correct [OF u, of 3 "replicate 64 0"] by (auto simp: length_example four)
  then show ?thesis by simp
qed

text \<open>C21: the loop of the wobbly variant ends: on every literal with a closing quote or a bad escape it returns, with the
  text read character by character, a lone surrogate kept as itself.\<close>

theorem parse_wobbly_string_correct:
  assumes "unescape Keep (drop s src) = Some (res, n)"
    and "s + n + 32 \<le> length src" and "d + n + 32 \<le> length mem"
  shows "\<exists>mem'. parse_wobbly_string src s mem d = Some (map_option (\<lambda>out. d + length out) res, mem')
    \<and> length mem' = length mem \<and> take d mem' = take d mem
    \<and> (\<forall>out. res = Some out \<longrightarrow> take (length out) (drop d mem') = out)"
  unfolding parse_wobbly_string_def
  by (rule outcome_memory, rule wobbly.string_loop_correct [OF assms]) (use assms(2) in simp)

theorem parse_wobbly_string_correct_witness:
  "\<exists>mem'. parse_wobbly_string example_literal 0 (replicate 64 0) 3 = Some (Some (3 + length [0x61, 0xC3, 0xA9, 0x0A :: u8]), mem')"
  using parse_wobbly_string_correct [OF unescape_example, of 3 "replicate 64 0"] by (auto simp: length_example)

end
