(* ===== verification/Simd_Ondemand.thy ===== *)
theory Simd_Ondemand
  imports Simd_Documents Simd_Numbers Simd_Strings
begin

text \<open>
  Field lookup of the On Demand interface of \<^verbatim>\<open>simdjson\<close> (\<^verbatim>\<open>json_iterator-inl.h\<close>, \<^verbatim>\<open>token_iterator-inl.h\<close>,
  \<^verbatim>\<open>value_iterator-inl.h\<close>, \<^verbatim>\<open>object-inl.h\<close>, \<^verbatim>\<open>document-inl.h\<close>), as \<open>doc["status"].get_uint64()\<close> uses it: a cursor
  over the token positions that stage 1 has found. The model is the optimised build: the development
  checks are off, and a condition of \<^verbatim>\<open>SIMDJSON_ASSUME\<close> that does not hold is undefined behaviour, the
  value \<open>None\<close>, as is an access outside of the two arrays and an overflow of the 32-bit depth.
\<close>

section \<open>Cursor over the tokens\<close>

record json_iterator =
  ji_buf :: "u8 list"
  ji_indexes :: "u32 list"
  ji_n :: nat
  ji_pos :: nat
  ji_depth :: int
  ji_error :: error_code
  ji_root :: nat
  ji_streaming :: bool
  ji_alive :: bool

definition assume_that :: "bool \<Rightarrow> unit option" where
  "assume_that b = (if b then Some () else None)"

definition INT32_MAX :: int where "INT32_MAX = 0x7FFFFFFF"

text \<open>A pointer into the text is its offset.\<close>

definition token_peek :: "json_iterator \<Rightarrow> nat \<Rightarrow> nat option" where
  "token_peek ji position = map_option unat (load (ji_indexes ji) position)"

definition char_at :: "json_iterator \<Rightarrow> nat \<Rightarrow> u8 option" where
  "char_at ji position = do { off \<leftarrow> token_peek ji position; load (ji_buf ji) off }"

definition return_current_and_advance :: "json_iterator \<Rightarrow> (nat \<times> json_iterator) option" where
  "return_current_and_advance ji = do { off \<leftarrow> token_peek ji (ji_pos ji); Some (off, ji\<lparr>ji_pos := ji_pos ji + 1\<rparr>) }"

text \<open>The number of tokens belongs to the parser, which an abandoned iterator has no more.\<close>

definition end_position :: "json_iterator \<Rightarrow> nat option" where
  "end_position ji = do { assume_that (ji_alive ji); Some (ji_n ji) }"

definition last_position :: "json_iterator \<Rightarrow> nat option" where
  "last_position ji = do { assume_that (ji_alive ji); assume_that (ji_n ji > 0); Some (ji_n ji - 1) }"

definition at_root :: "json_iterator \<Rightarrow> bool" where
  "at_root ji \<longleftrightarrow> ji_pos ji = ji_root ji"

definition ji_abandon :: "json_iterator \<Rightarrow> json_iterator" where
  "ji_abandon ji = ji\<lparr>ji_alive := False, ji_depth := 0\<rparr>"

definition report_error :: "json_iterator \<Rightarrow> error_code \<Rightarrow> json_iterator" where
  "report_error ji e = ji\<lparr>ji_error := e\<rparr>"

definition ascend_to :: "json_iterator \<Rightarrow> int \<Rightarrow> json_iterator option" where
  "ascend_to ji parent_depth = do {
     assume_that (parent_depth \<ge> 0 \<and> parent_depth < INT32_MAX - 1);
     assume_that (ji_depth ji = parent_depth + 1);
     Some (ji\<lparr>ji_depth := parent_depth\<rparr>) }"

definition descend_to :: "json_iterator \<Rightarrow> int \<Rightarrow> json_iterator option" where
  "descend_to ji child_depth = do {
     assume_that (child_depth \<ge> 1 \<and> child_depth < INT32_MAX);
     assume_that (ji_depth ji = child_depth - 1);
     Some (ji\<lparr>ji_depth := child_depth\<rparr>) }"

text \<open>\<open>balanced\<close> reads the tokens from the root on, as long as their offset is at most the one of the
  last token; the number of rounds is bounded by the length of the array of indexes.\<close>

fun balanced_loop :: "nat \<Rightarrow> json_iterator \<Rightarrow> nat \<Rightarrow> nat \<Rightarrow> int \<Rightarrow> bool option" where
  "balanced_loop 0 ji last_offset p count = None"
| "balanced_loop (Suc k) ji last_offset p count = do {
     off \<leftarrow> token_peek ji p;
     if off \<le> last_offset then do {
       c \<leftarrow> char_at ji p;
       let count = (if c = LBRACKET \<or> c = LBRACE then count + 1 else if c = RBRACKET \<or> c = RBRACE then count - 1 else count);
       assume_that (- INT32_MAX - 1 \<le> count \<and> count \<le> INT32_MAX);
       balanced_loop k ji last_offset (p + 1) count }
     else Some (count = 0) }"

definition ji_balanced :: "json_iterator \<Rightarrow> bool option" where
  "ji_balanced ji = do {
     l \<leftarrow> last_position ji;
     last_offset \<leftarrow> token_peek ji l;
     balanced_loop (Suc (length (ji_indexes ji))) ji last_offset (ji_root ji) 0 }"

section \<open>Skipping a value\<close>

text \<open>The loop after the first token.\<close>

function skip_loop :: "int \<Rightarrow> json_iterator \<Rightarrow> (error_code \<times> json_iterator) option" where
  "skip_loop parent_depth ji =
    (case end_position ji of
       None \<Rightarrow> None
     | Some stop \<Rightarrow>
         if ji_pos ji < stop
         then (case char_at ji (ji_pos ji) of
                 None \<Rightarrow> None
               | Some c \<Rightarrow>
                   let ji = ji\<lparr>ji_pos := ji_pos ji + 1\<rparr>
                   in if c = LBRACKET \<or> c = LBRACE
                      then (if ji_depth ji < INT32_MAX then skip_loop parent_depth (ji\<lparr>ji_depth := ji_depth ji + 1\<rparr>) else None)
                      else if c = RBRACKET \<or> c = RBRACE
                      then (if ji_depth ji - 1 \<le> parent_depth then Some (SUCCESS, ji\<lparr>ji_depth := ji_depth ji - 1\<rparr>)
                            else skip_loop parent_depth (ji\<lparr>ji_depth := ji_depth ji - 1\<rparr>))
                      else skip_loop parent_depth ji)
         else Some (TAPE_ERROR, report_error ji TAPE_ERROR))"
  by pat_completeness auto
termination by (relation "measure (\<lambda>(d, ji). ji_n ji - ji_pos ji)") (auto simp: end_position_def assume_that_def split: if_splits)

declare skip_loop.simps [simp del]

definition ji_skip_child :: "json_iterator \<Rightarrow> int \<Rightarrow> (error_code \<times> json_iterator) option" where
  "ji_skip_child ji parent_depth =
    (if ji_depth ji \<le> parent_depth then Some (SUCCESS, ji)
     else do {
       (off, ji) \<leftarrow> return_current_and_advance ji;
       c \<leftarrow> load (ji_buf ji) off;
       if c = LBRACKET \<or> c = LBRACE \<or> c = COLON \<or> c = COMMA then skip_loop parent_depth ji
       else if c = RBRACKET \<or> c = RBRACE then
         (let ji = ji\<lparr>ji_depth := ji_depth ji - 1\<rparr>
          in if ji_depth ji \<le> parent_depth then Some (SUCCESS, ji) else skip_loop parent_depth ji)
       else do {
         key \<leftarrow> (if c = 0x22 then map_option (\<lambda>d. d = COLON) (char_at ji (ji_pos ji)) else Some False);
         if key then do { (off, ji) \<leftarrow> return_current_and_advance ji; skip_loop parent_depth ji }
         else (let ji = ji\<lparr>ji_depth := ji_depth ji - 1\<rparr>
               in if ji_depth ji \<le> parent_depth then Some (SUCCESS, ji) else skip_loop parent_depth ji) } })"

section \<open>Iterators of values\<close>

record value_iterator =
  vi_depth :: int
  vi_start :: nat

definition assert_at_start :: "value_iterator \<Rightarrow> json_iterator \<Rightarrow> unit option" where
  "assert_at_start vi ji = assume_that (ji_pos ji = vi_start vi \<and> ji_depth ji = vi_depth vi \<and> vi_depth vi > 0)"

definition assert_at_container_start :: "value_iterator \<Rightarrow> json_iterator \<Rightarrow> unit option" where
  "assert_at_container_start vi ji = assume_that (ji_pos ji = vi_start vi + 1 \<and> ji_depth ji = vi_depth vi \<and> vi_depth vi > 0)"

definition assert_at_next :: "value_iterator \<Rightarrow> json_iterator \<Rightarrow> unit option" where
  "assert_at_next vi ji = assume_that (ji_pos ji > vi_start vi \<and> ji_depth ji = vi_depth vi \<and> vi_depth vi > 0)"

definition assert_at_child :: "value_iterator \<Rightarrow> json_iterator \<Rightarrow> unit option" where
  "assert_at_child vi ji = assume_that (ji_pos ji > vi_start vi \<and> ji_depth ji = vi_depth vi + 1 \<and> vi_depth vi > 0)"

definition assert_at_non_root_start :: "value_iterator \<Rightarrow> json_iterator \<Rightarrow> unit option" where
  "assert_at_non_root_start vi ji = do { assert_at_start vi ji; assume_that (vi_depth vi > 1) }"

definition is_at_start :: "value_iterator \<Rightarrow> json_iterator \<Rightarrow> bool" where
  "is_at_start vi ji \<longleftrightarrow> ji_pos ji = vi_start vi"

definition is_open :: "value_iterator \<Rightarrow> json_iterator \<Rightarrow> bool" where
  "is_open vi ji \<longleftrightarrow> ji_depth ji \<ge> vi_depth vi"

definition at_first_field :: "value_iterator \<Rightarrow> json_iterator \<Rightarrow> bool option" where
  "at_first_field vi ji = do { assume_that (ji_pos ji > vi_start vi); Some (ji_pos ji = vi_start vi + 1) }"

definition child :: "value_iterator \<Rightarrow> json_iterator \<Rightarrow> value_iterator option" where
  "child vi ji = do { assert_at_child vi ji; Some \<lparr>vi_depth = vi_depth vi + 1, vi_start = ji_pos ji\<rparr> }"

definition vi_skip_child :: "value_iterator \<Rightarrow> json_iterator \<Rightarrow> (error_code \<times> json_iterator) option" where
  "vi_skip_child vi ji = do {
     assume_that (ji_pos ji > vi_start vi);
     assume_that (ji_depth ji \<ge> vi_depth vi);
     ji_skip_child ji (vi_depth vi) }"

definition end_container :: "value_iterator \<Rightarrow> json_iterator \<Rightarrow> json_iterator option" where
  "end_container vi ji = ascend_to ji (vi_depth vi - 1)"

definition start_container :: "value_iterator \<Rightarrow> u8 \<Rightarrow> json_iterator \<Rightarrow> (error_code \<times> json_iterator) option" where
  "start_container vi start_char ji =
    (if \<not> is_at_start vi ji then do {
       c \<leftarrow> char_at ji (vi_start vi);
       Some (if c \<noteq> start_char then INCORRECT_TYPE else SUCCESS, ji) }
     else do {
       assert_at_start vi ji;
       c \<leftarrow> char_at ji (ji_pos ji);
       if c \<noteq> start_char then Some (INCORRECT_TYPE, ji)
       else do { (off, ji) \<leftarrow> return_current_and_advance ji; Some (SUCCESS, ji) } })"

definition started_object :: "value_iterator \<Rightarrow> json_iterator \<Rightarrow> (bool simdjson_result \<times> json_iterator) option" where
  "started_object vi ji = do {
     assert_at_container_start vi ji;
     c \<leftarrow> char_at ji (ji_pos ji);
     if c = RBRACE then do {
       (off, ji) \<leftarrow> return_current_and_advance ji;
       ji \<leftarrow> end_container vi ji;
       Some (Inr False, ji) }
     else Some (Inr True, ji) }"

definition check_root_object :: "json_iterator \<Rightarrow> (error_code \<times> json_iterator) option" where
  "check_root_object ji =
    (if \<not> ji_streaming ji then do {
       l \<leftarrow> last_position ji;
       c \<leftarrow> char_at ji l;
       if c \<noteq> RBRACE
       then Some (INCOMPLETE_ARRAY_OR_OBJECT, report_error (ji_abandon ji) INCOMPLETE_ARRAY_OR_OBJECT)
       else do {
         stop \<leftarrow> end_position ji;
         d \<leftarrow> char_at ji stop;
         bad \<leftarrow> (if d = RBRACE then map_option Not (ji_balanced ji) else Some False);
         Some (if bad then (INCOMPLETE_ARRAY_OR_OBJECT, report_error (ji_abandon ji) INCOMPLETE_ARRAY_OR_OBJECT)
               else (SUCCESS, ji)) } }
     else Some (SUCCESS, ji))"

definition started_root_object :: "value_iterator \<Rightarrow> json_iterator \<Rightarrow> (bool simdjson_result \<times> json_iterator) option" where
  "started_root_object vi ji = do {
     (e, ji) \<leftarrow> check_root_object ji;
     if e \<noteq> SUCCESS then Some (Inl e, ji) else started_object vi ji }"

definition start_root_object :: "value_iterator \<Rightarrow> json_iterator \<Rightarrow> (bool simdjson_result \<times> json_iterator) option" where
  "start_root_object vi ji = do {
     (e, ji) \<leftarrow> start_container vi LBRACE ji;
     if e \<noteq> SUCCESS then Some (Inl e, ji) else started_root_object vi ji }"

definition reset_object :: "value_iterator \<Rightarrow> json_iterator \<Rightarrow> (bool simdjson_result \<times> json_iterator) option" where
  "reset_object vi ji =
    (if ji_error ji \<noteq> SUCCESS then Some (Inl (ji_error ji), ji)
     else started_object vi (ji\<lparr>ji_depth := vi_depth vi, ji_pos := vi_start vi + 1\<rparr>))"

definition has_next_field :: "value_iterator \<Rightarrow> json_iterator \<Rightarrow> (bool simdjson_result \<times> json_iterator) option" where
  "has_next_field vi ji = do {
     assert_at_next vi ji;
     (off, ji) \<leftarrow> return_current_and_advance ji;
     c \<leftarrow> load (ji_buf ji) off;
     if c = RBRACE then do { ji \<leftarrow> end_container vi ji; Some (Inr False, ji) }
     else if c = COMMA then Some (Inr True, ji)
     else Some (Inl TAPE_ERROR, report_error ji TAPE_ERROR) }"

text \<open>A key is the offset behind its opening quote.\<close>

definition field_key :: "value_iterator \<Rightarrow> json_iterator \<Rightarrow> (nat simdjson_result \<times> json_iterator) option" where
  "field_key vi ji = do {
     assert_at_next vi ji;
     (off, ji) \<leftarrow> return_current_and_advance ji;
     c \<leftarrow> load (ji_buf ji) off;
     if c \<noteq> 0x22 then Some (Inl TAPE_ERROR, report_error ji TAPE_ERROR) else Some (Inr (off + 1), ji) }"

definition field_value :: "value_iterator \<Rightarrow> json_iterator \<Rightarrow> (error_code \<times> json_iterator) option" where
  "field_value vi ji = do {
     assert_at_next vi ji;
     (off, ji) \<leftarrow> return_current_and_advance ji;
     c \<leftarrow> load (ji_buf ji) off;
     if c \<noteq> COLON then Some (TAPE_ERROR, report_error ji TAPE_ERROR)
     else do { ji \<leftarrow> descend_to ji (vi_depth vi + 1); Some (SUCCESS, ji) } }"

definition SIMDJSON_PADDING :: nat where "SIMDJSON_PADDING = 64"

text \<open>The character loop for keys longer than the padding.\<close>

fun is_equal_loop :: "u8 list \<Rightarrow> nat \<Rightarrow> u8 list \<Rightarrow> bool option" where
  "is_equal_loop buf r [] = map_option (\<lambda>c. c = 0x22) (load buf r)"
| "is_equal_loop buf r (t # ts) = do { c \<leftarrow> load buf r; if c \<noteq> t then Some False else is_equal_loop buf (r + 1) ts }"

definition unsafe_is_equal :: "u8 list \<Rightarrow> nat \<Rightarrow> u8 list \<Rightarrow> bool option" where
  "unsafe_is_equal buf r target =
    (if length target \<le> SIMDJSON_PADDING
     then do { c \<leftarrow> load buf (r + length target); Some (c = 0x22 \<and> take (length target) (drop r buf) = target) }
     else is_equal_loop buf r target)"

section \<open>Finding a field\<close>

text \<open>The scan from the current field to the end of the object. The bound on the rounds is the length of
  the array of indexes; a round consumes two tokens at least.\<close>

fun find_loop :: "nat \<Rightarrow> value_iterator \<Rightarrow> u8 list \<Rightarrow> bool \<Rightarrow> json_iterator \<Rightarrow> (bool simdjson_result \<times> json_iterator) option" where
  "find_loop 0 vi key has_value ji = None"
| "find_loop (Suc k) vi key has_value ji =
    (if \<not> has_value then Some (Inr False, ji)
     else do {
       assume_that (ji_depth ji = vi_depth vi);
       (actual_key, ji) \<leftarrow> field_key vi ji;
       case actual_key of
         Inl e \<Rightarrow> Some (Inl e, ji_abandon ji)
       | Inr r \<Rightarrow> do {
           (e, ji) \<leftarrow> field_value vi ji;
           if e \<noteq> SUCCESS then Some (Inl e, ji_abandon ji)
           else do {
             eq \<leftarrow> unsafe_is_equal (ji_buf ji) r key;
             if eq then Some (Inr True, ji)
             else do {
               (e, ji) \<leftarrow> vi_skip_child vi ji;
               if e \<noteq> SUCCESS then Some (Inl e, ji)
               else do {
                 (next_value, ji) \<leftarrow> has_next_field vi ji;
                 case next_value of
                   Inl e \<Rightarrow> Some (Inl e, ji_abandon ji)
                 | Inr has_value \<Rightarrow> find_loop k vi key has_value ji } } } } })"

text \<open>The scan from the first field up to the position where the search began.\<close>

fun wrap_loop :: "nat \<Rightarrow> value_iterator \<Rightarrow> u8 list \<Rightarrow> nat \<Rightarrow> bool \<Rightarrow> json_iterator \<Rightarrow> (bool simdjson_result \<times> json_iterator) option" where
  "wrap_loop 0 vi key search_start has_value ji = None"
| "wrap_loop (Suc k) vi key search_start has_value ji = do {
     assume_that (has_value \<and> ji_depth ji = vi_depth vi);
     (actual_key, ji) \<leftarrow> field_key vi ji;
     case actual_key of
       Inl e \<Rightarrow> None
     | Inr r \<Rightarrow> do {
         (e, ji) \<leftarrow> field_value vi ji;
         assume_that (e = SUCCESS);
         eq \<leftarrow> unsafe_is_equal (ji_buf ji) r key;
         if eq then Some (Inr True, ji)
         else do {
           (e, ji) \<leftarrow> vi_skip_child vi ji;
           if e \<noteq> SUCCESS then Some (Inl e, ji)
           else if ji_pos ji = search_start then Some (Inr False, ji)
           else do {
             (next_value, ji) \<leftarrow> has_next_field vi ji;
             case next_value of Inl e \<Rightarrow> None | Inr has_value \<Rightarrow> wrap_loop k vi key search_start has_value ji } } } }"

text \<open>What the two parts of the search share: the first field, the search start, and whether there is a
  field to look at.\<close>

definition find_begin :: "value_iterator \<Rightarrow> json_iterator \<Rightarrow> ((bool \<times> nat \<times> bool) simdjson_result \<times> json_iterator) option" where
  "find_begin vi ji = do {
     at_first \<leftarrow> at_first_field vi ji;
     if at_first then Some (Inr (True, ji_pos ji, True), ji)
     else if \<not> is_open vi ji then do {
       (h, ji') \<leftarrow> reset_object vi ji;
       Some (case h of Inl e \<Rightarrow> Inl e | Inr has_value \<Rightarrow> Inr (True, ji_pos ji, has_value), ji') }
     else do {
       (e, ji) \<leftarrow> vi_skip_child vi ji;
       if e \<noteq> SUCCESS then Some (Inl e, ji_abandon ji)
       else do {
         (h, ji') \<leftarrow> has_next_field vi ji;
         Some (case h of Inl e \<Rightarrow> (Inl e, ji_abandon ji') | Inr has_value \<Rightarrow> (Inr (False, ji_pos ji, has_value), ji')) } } }"

definition find_field_unordered_raw :: "value_iterator \<Rightarrow> u8 list \<Rightarrow> json_iterator \<Rightarrow> (bool simdjson_result \<times> json_iterator) option" where
  "find_field_unordered_raw vi key ji = do {
     (b, ji) \<leftarrow> find_begin vi ji;
     case b of
       Inl e \<Rightarrow> Some (Inl e, ji)
     | Inr (at_first, search_start, has_value) \<Rightarrow> do {
         (r, ji) \<leftarrow> find_loop (Suc (length (ji_indexes ji))) vi key has_value ji;
         if r \<noteq> Inr False \<or> at_first then Some (r, ji)
         else do {
           (h, ji) \<leftarrow> reset_object vi ji;
           case h of
             Inl e \<Rightarrow> Some (Inl e, ji)
           | Inr has_value \<Rightarrow> wrap_loop (Suc (length (ji_indexes ji))) vi key search_start has_value ji } } }"

section \<open>Documents and values\<close>

definition get_root_value_iterator :: "json_iterator \<Rightarrow> value_iterator" where
  "get_root_value_iterator ji = \<lparr>vi_depth = 1, vi_start = ji_root ji\<rparr>"

definition object_find_field_unordered :: "value_iterator \<Rightarrow> u8 list \<Rightarrow> json_iterator \<Rightarrow> (value_iterator simdjson_result \<times> json_iterator) option" where
  "object_find_field_unordered vi key ji = do {
     (r, ji) \<leftarrow> find_field_unordered_raw vi key ji;
     case r of
       Inl e \<Rightarrow> Some (Inl e, ji)
     | Inr has_value \<Rightarrow>
         if \<not> has_value then Some (Inl NO_SUCH_FIELD, ji)
         else do { v \<leftarrow> child vi ji; Some (Inr v, ji) } }"

text \<open>\<open>start_or_resume_object\<close> and \<open>operator[]\<close> of a document.\<close>

definition start_or_resume_object :: "json_iterator \<Rightarrow> (value_iterator simdjson_result \<times> json_iterator) option" where
  "start_or_resume_object ji =
    (if at_root ji then do {
       (r, ji) \<leftarrow> start_root_object (get_root_value_iterator ji) ji;
       Some (case r of Inl e \<Rightarrow> Inl e | Inr b \<Rightarrow> Inr (get_root_value_iterator ji), ji) }
     else Some (Inr (get_root_value_iterator ji), ji))"

definition document_field :: "json_iterator \<Rightarrow> u8 list \<Rightarrow> (value_iterator simdjson_result \<times> json_iterator) option" where
  "document_field ji key = do {
     (r, ji) \<leftarrow> start_or_resume_object ji;
     case r of Inl e \<Rightarrow> Some (Inl e, ji) | Inr vi \<Rightarrow> object_find_field_unordered vi key ji }"

definition peek_non_root_scalar :: "value_iterator \<Rightarrow> json_iterator \<Rightarrow> nat option" where
  "peek_non_root_scalar vi ji =
    (if \<not> is_at_start vi ji then token_peek ji (vi_start vi)
     else do { assert_at_non_root_start vi ji; token_peek ji (ji_pos ji) })"

definition advance_non_root_scalar :: "value_iterator \<Rightarrow> json_iterator \<Rightarrow> json_iterator option" where
  "advance_non_root_scalar vi ji =
    (if \<not> is_at_start vi ji then Some ji
     else do {
       assert_at_non_root_start vi ji;
       (off, ji) \<leftarrow> return_current_and_advance ji;
       ascend_to ji (vi_depth vi - 1) })"

definition get_uint64 :: "value_iterator \<Rightarrow> json_iterator \<Rightarrow> (u64 simdjson_result \<times> json_iterator) option" where
  "get_uint64 vi ji = do {
     json \<leftarrow> peek_non_root_scalar vi ji;
     result \<leftarrow> parse_unsigned (ji_buf ji) json;
     case result of
       Inl e \<Rightarrow> Some (Inl e, ji)
     | Inr v \<Rightarrow> do { ji \<leftarrow> advance_non_root_scalar vi ji; Some (Inr v, ji) } }"

text \<open>Strings are unescaped into the string buffer of the parser: the buffer and the next free location in it are
  passed along. A string is the location and the length of its text in the buffer.\<close>

definition peek_scalar :: "value_iterator \<Rightarrow> json_iterator \<Rightarrow> nat option" where
  "peek_scalar vi ji =
    (if \<not> is_at_start vi ji then token_peek ji (vi_start vi)
     else do { assert_at_start vi ji; token_peek ji (ji_pos ji) })"

definition advance_scalar :: "value_iterator \<Rightarrow> json_iterator \<Rightarrow> json_iterator option" where
  "advance_scalar vi ji =
    (if \<not> is_at_start vi ji then Some ji
     else do {
       assert_at_start vi ji;
       (off, ji) \<leftarrow> return_current_and_advance ji;
       ascend_to ji (vi_depth vi - 1) })"

definition get_raw_json_string :: "value_iterator \<Rightarrow> json_iterator \<Rightarrow> (nat simdjson_result \<times> json_iterator) option" where
  "get_raw_json_string vi ji = do {
     json \<leftarrow> peek_scalar vi ji;
     c \<leftarrow> load (ji_buf ji) json;
     if c \<noteq> 0x22 then Some (Inl INCORRECT_TYPE, ji)
     else do { ji \<leftarrow> advance_scalar vi ji; Some (Inr (json + 1), ji) } }"

type_synonym string_buffer = "u8 list \<times> nat"

definition parser_unescape ::
  "u8 list \<Rightarrow> nat \<Rightarrow> bool \<Rightarrow> string_buffer \<Rightarrow> ((nat \<times> nat) simdjson_result \<times> string_buffer) option" where
  "parser_unescape buf r allow_replacement sb = do {
     let (mem, dst) = sb;
     (res, mem) \<leftarrow> parse_string buf r mem dst allow_replacement;
     Some (case res of None \<Rightarrow> (Inl STRING_ERROR, mem, dst) | Some e \<Rightarrow> (Inr (dst, e - dst), mem, e)) }"

definition get_string ::
  "value_iterator \<Rightarrow> bool \<Rightarrow> json_iterator \<Rightarrow> string_buffer \<Rightarrow> ((nat \<times> nat) simdjson_result \<times> json_iterator \<times> string_buffer) option" where
  "get_string vi allow_replacement ji sb = do {
     (raw, ji) \<leftarrow> get_raw_json_string vi ji;
     case raw of
       Inl e \<Rightarrow> Some (Inl e, ji, sb)
     | Inr r \<Rightarrow> do { (res, sb) \<leftarrow> parser_unescape (ji_buf ji) r allow_replacement sb; Some (res, ji, sb) } }"

text \<open>\<open>doc[key].get_uint64()\<close> and \<open>doc[key].get_string()\<close>, the latter with the text that the result shows at that
  moment, one after the other.\<close>

datatype request = AsUint64 "u8 list" | AsString "u8 list"

type_synonym answer = "(u64 + u8 list) simdjson_result"

definition document_uint64 :: "json_iterator \<Rightarrow> u8 list \<Rightarrow> (u64 simdjson_result \<times> json_iterator) option" where
  "document_uint64 ji key = do {
     (r, ji) \<leftarrow> document_field ji key;
     case r of Inl e \<Rightarrow> Some (Inl e, ji) | Inr v \<Rightarrow> get_uint64 v ji }"

definition document_string ::
  "json_iterator \<Rightarrow> string_buffer \<Rightarrow> u8 list \<Rightarrow> ((nat \<times> nat) simdjson_result \<times> json_iterator \<times> string_buffer) option" where
  "document_string ji sb key = do {
     (r, ji) \<leftarrow> document_field ji key;
     case r of Inl e \<Rightarrow> Some (Inl e, ji, sb) | Inr v \<Rightarrow> get_string v False ji sb }"

fun document_request :: "json_iterator \<times> string_buffer \<Rightarrow> request \<Rightarrow> (answer \<times> json_iterator \<times> string_buffer) option" where
  "document_request (ji, sb) (AsUint64 key) = do {
     (r, ji) \<leftarrow> document_uint64 ji key;
     Some (map_sum id Inl r, ji, sb) }"
| "document_request (ji, sb) (AsString key) = do {
     (r, ji, sb) \<leftarrow> document_string ji sb key;
     Some (map_sum id (\<lambda>(d, n). Inr (take n (drop d (fst sb)))) r, ji, sb) }"

fun document_requests :: "json_iterator \<times> string_buffer \<Rightarrow> request list \<Rightarrow> (answer list \<times> json_iterator \<times> string_buffer) option" where
  "document_requests s [] = Some ([], s)"
| "document_requests s (q # qs) = do {
     (a, s) \<leftarrow> document_request s q;
     (as, s) \<leftarrow> document_requests s qs;
     Some (a # as, s) }"

text \<open>\<open>raw_json\<close>: the document's text as offset and length. The position behind the document is read from the
  array of indexes only.\<close>

definition is_scalar :: "json_iterator \<Rightarrow> bool option" where
  "is_scalar ji = map_option (\<lambda>c. \<not> (c = LBRACE \<or> c = LBRACKET)) (char_at ji (ji_root ji))"

definition document_consume :: "json_iterator \<Rightarrow> (error_code \<times> json_iterator) option" where
  "document_consume ji = do {
     scalar \<leftarrow> is_scalar ji;
     if scalar then do { (off, ji) \<leftarrow> return_current_and_advance ji; Some (SUCCESS, ji) }
     else do { (e, ji) \<leftarrow> ji_skip_child ji 0; Some (e, if e \<noteq> SUCCESS then ji_abandon ji else ji) } }"

definition raw_json :: "json_iterator \<Rightarrow> ((nat \<times> nat) simdjson_result \<times> json_iterator) option" where
  "raw_json ji = do {
     starting_point \<leftarrow> token_peek ji (ji_root ji);
     (e, ji) \<leftarrow> document_consume ji;
     if e \<noteq> SUCCESS then Some (Inl e, ji)
     else do { final_point \<leftarrow> token_peek ji (ji_pos ji); Some (Inr (starting_point, final_point - starting_point), ji) } }"

end
