(* ===== verification/Simd_Lookups.thy ===== *)
theory Simd_Lookups
  imports Simd_Ondemand
begin

text \<open>
  Lookups of fields on the tokens of an object. The first sections relate the cursor of \<^verbatim>\<open>Simd_Ondemand\<close> to the tokens of
  a value (\<open>toks\<close> of \<^verbatim>\<open>Simd_Documents\<close>): skipping a value moves the cursor behind it. Then the five kinds of places where a
  lookup can leave the cursor (\<open>place\<close>), what a search does from each of them, and the result of sequences of lookups.
\<close>

section \<open>The tokens of a value\<close>

abbreviation cursor_to :: "json_iterator \<Rightarrow> nat \<Rightarrow> int \<Rightarrow> json_iterator" where
  "cursor_to ji p d \<equiv> ji\<lparr>ji_pos := p, ji_depth := d\<rparr>"

lemma char_at_moved [simp]: "char_at (ji\<lparr>ji_pos := p\<rparr>) = char_at ji" "char_at (ji\<lparr>ji_depth := d\<rparr>) = char_at ji"
  "token_peek (ji\<lparr>ji_pos := p\<rparr>) = token_peek ji" "token_peek (ji\<lparr>ji_depth := d\<rparr>) = token_peek ji"
  by (simp_all add: fun_eq_iff char_at_def token_peek_def)

lemma cursor_commute [simp]: "ji\<lparr>ji_depth := d, ji_pos := p\<rparr> = cursor_to ji p d" for ji :: json_iterator
  by simp

definition tokens_at :: "json_iterator \<Rightarrow> nat \<Rightarrow> u8 list \<Rightarrow> bool" where
  "tokens_at ji p cs \<longleftrightarrow> p + length cs \<le> ji_n ji \<and> (\<forall>i < length cs. char_at ji (p + i) = Some (cs ! i))"

lemma tokens_at_Cons: "tokens_at ji p (c # cs) \<longleftrightarrow> p < ji_n ji \<and> char_at ji p = Some c \<and> tokens_at ji (p + 1) cs"
  by (auto simp: tokens_at_def less_Suc_eq_0_disj)

lemma tokens_at_append: "tokens_at ji p (xs @ ys) \<longleftrightarrow> tokens_at ji p xs \<and> tokens_at ji (p + length xs) ys"
proof (induction xs arbitrary: p)
  case Nil
  then show ?case by (auto simp: tokens_at_def)
qed (simp add: tokens_at_Cons conj_ac)

lemma tokens_at_moved [simp]: "tokens_at (ji\<lparr>ji_pos := p\<rparr>) = tokens_at ji" "tokens_at (ji\<lparr>ji_depth := d\<rparr>) = tokens_at ji"
  by (simp_all add: tokens_at_def fun_eq_iff)

text \<open>Advancing over a token that is there.\<close>

lemma advance_token:
  assumes "char_at ji (ji_pos ji) = Some c"
  obtains off where "token_peek ji (ji_pos ji) = Some off" "load (ji_buf ji) off = Some c"
    "return_current_and_advance ji = Some (off, ji\<lparr>ji_pos := ji_pos ji + 1\<rparr>)"
  using assms by (auto simp: char_at_def return_current_and_advance_def bind_eq_Some_conv)

text \<open>The loop stops behind the tokens when the depth is above the parent's inside and reaches it at the end.\<close>

abbreviation weight :: "u8 \<Rightarrow> int" where "weight c \<equiv> arr_weight c + obj_weight c"

lemma skip_loop_tokens:
  assumes "tokens_at ji p cs" "ji_alive ji" "parent < d" "d + depth cs = parent"
    and "\<And>k. k < length cs \<Longrightarrow> parent < d + depth (take k cs)" "\<And>k. k < length cs \<Longrightarrow> d + depth (take k cs) < INT32_MAX"
  shows "skip_loop parent (cursor_to ji p d) = Some (SUCCESS, cursor_to ji (p + length cs) parent)"
  using assms
proof (induction cs arbitrary: p d)
  case (Cons c cs)
  have p: "p < ji_n ji" "char_at ji p = Some c" "tokens_at ji (p + 1) cs" using Cons.prems(1) by (simp_all add: tokens_at_Cons)
  have above: "parent < d + weight c + depth (take k cs)" if "k < length cs" for k
    using Cons.prems(5) [of "Suc k"] that by (simp del: arr_weight.simps obj_weight.simps)
  have below: "d + weight c + depth (take k cs) < INT32_MAX" if "k < length cs" for k
    using Cons.prems(6) [of "Suc k"] that by (simp del: arr_weight.simps obj_weight.simps)
  have max: "d < INT32_MAX" using Cons.prems(6) [of 0] by simp
  have total: "d + weight c + depth cs = parent" using Cons.prems(4) by (simp del: arr_weight.simps obj_weight.simps)
  show ?case
  proof (cases "cs = []")
    case True
    then have "weight c < 0" using total Cons.prems(3) by simp
    then have "c = RBRACKET \<or> c = RBRACE" by (auto split: if_splits)
    then show ?thesis using p max Cons.prems(2,3) total True
      by (subst skip_loop.simps) (auto simp: end_position_def assume_that_def)
  next
    case False
    then have "parent < d + weight c" using above [of 0] by simp
    then have ih: "skip_loop parent (cursor_to ji (p + 1) (d + weight c)) = Some (SUCCESS, cursor_to ji (p + 1 + length cs) parent)"
      using Cons.IH [OF p(3) Cons.prems(2)] total above below by blast
    then show ?thesis using p max \<open>parent < d + weight c\<close> Cons.prems(2)
      by (subst skip_loop.simps) (auto simp: end_position_def assume_that_def Let_def split: if_splits)
  qed
qed simp


text \<open>Skipping a whole value: the cursor moves behind its tokens and the depth drops to the parent's.\<close>

lemma toks_nonempty: "wf_jval v \<Longrightarrow> toks v \<noteq> []"
  using value_shaped_toks [of v] by (simp add: value_shaped_def)

lemma depth_le_length: "depth xs \<le> int (length xs)"
  by (induction xs) auto

lemma container_depths:
  assumes "wf_jval v" "toks v = c # cs" "c = LBRACKET \<or> c = LBRACE"
  shows "1 + depth cs = 0" "\<And>k. k < length cs \<Longrightarrow> 0 < 1 + depth (take k cs)" "\<And>k. depth (take k cs) \<le> int (length cs)"
proof -
  have w: "weight c = 1" using assms(3) by auto
  have bal: "balanced (toks v)" using assms(1) by (rule balanced_toks)
  then have "depth (toks v) = 0" by (simp add: balanced_def depth_def)
  then show "1 + depth cs = 0" unfolding assms(2) using w by (simp del: arr_weight.simps obj_weight.simps)
  show "0 < 1 + depth (take k cs)" if "k < length cs" for k
  proof -
    obtain xs b where x: "balanced xs" "toks v = c # xs @ [b]" "(c, b) \<in> {(LBRACKET, RBRACKET), (LBRACE, RBRACE)}"
    proof (cases v)
      case (Scalar a)
      then show ?thesis using assms by (auto simp: op_char_def)
    next
      case (Arr vs)
      have "balanced (comma_sep (map toks vs))"
        by (rule balanced_comma_sep) (use assms(1) Arr balanced_toks in auto)
      then show ?thesis using that [of _ RBRACKET] Arr assms(2) by auto
    next
      case (Obj kvs)
      have "balanced (fst kv # COLON # toks (snd kv))" if "kv \<in> set kvs" for kv
        using assms(1) Obj that balanced_toks [of "snd kv"] balanced_single [of "fst kv"] balanced_single [of COLON]
        by (auto intro!: balanced_Cons)
      then have "balanced (comma_sep (map (\<lambda>kv. fst kv # COLON # toks (snd kv)) kvs))" by (intro balanced_comma_sep) auto
      then show ?thesis using that [of _ RBRACE] Obj assms(2) by auto
    qed
    have "Suc k < length (toks v)" using that assms(2) by simp
    then have "0 < depth (take (Suc k) (toks v))"
      using balanced_bracket(2) [OF x(1,3), of "Suc k"] unfolding x(2) by blast
    then show ?thesis unfolding assms(2) using w by (simp del: arr_weight.simps obj_weight.simps)
  qed
  show "depth (take k cs) \<le> int (length cs)" for k using depth_le_length [of "take k cs"] by simp
qed

lemma skip_container:
  assumes wf: "wf_jval v" and alive: "ji_alive ji" and toks: "tokens_at ji p (toks v)" and max: "parent + int (ji_n ji) < INT32_MAX"
    and v: "toks v = c # cs" "c = LBRACKET \<or> c = LBRACE"
  shows "ji_skip_child (cursor_to ji p (parent + 1)) parent = Some (SUCCESS, cursor_to ji (p + length (toks v)) parent)"
proof -
  have c: "char_at ji p = Some c" "tokens_at ji (p + 1) cs" "p < ji_n ji" using toks by (simp_all add: v(1) tokens_at_Cons)
  obtain off where off: "load (ji_buf ji) off = Some c"
    "return_current_and_advance (cursor_to ji p (parent + 1)) = Some (off, cursor_to ji (p + 1) (parent + 1))"
    by (rule advance_token [of "cursor_to ji p (parent + 1)" c]) (use c(1) in simp_all)
  note d = container_depths [OF wf v]
  have len: "int (length cs) + 1 \<le> int (ji_n ji)" using toks by (simp add: tokens_at_def v(1))
  have "skip_loop parent (cursor_to ji (p + 1) (parent + 1)) = Some (SUCCESS, cursor_to ji (p + 1 + length cs) parent)"
  proof (rule skip_loop_tokens [OF c(2) alive])
    show "parent + 1 + depth cs = parent" using d(1) by simp
    show "parent < parent + 1 + depth (take k cs)" if "k < length cs" for k using d(2) [OF that] by simp
    show "parent + 1 + depth (take k cs) < INT32_MAX" for k using d(3) [of k] max len by linarith
  qed simp
  then show ?thesis using v off by (auto simp: ji_skip_child_def)
qed

lemma skip_value:
  assumes wf: "wf_jval v" and alive: "ji_alive ji" and toks: "tokens_at ji p (toks v)" and max: "parent + int (ji_n ji) < INT32_MAX"
    and "next": "char_at ji (p + length (toks v)) = Some e" "e \<noteq> COLON"
  shows "ji_skip_child (cursor_to ji p (parent + 1)) parent = Some (SUCCESS, cursor_to ji (p + length (toks v)) parent)"
proof -
  obtain c cs where v: "toks v = c # cs" using toks_nonempty [OF wf] by (cases "toks v") auto
  show ?thesis
  proof (cases "c = LBRACKET \<or> c = LBRACE")
    case True
    then show ?thesis by (rule skip_container [OF wf alive toks max v])
  next
    case False
    have c: "char_at ji p = Some c" using toks by (simp add: v tokens_at_Cons)
    obtain off where off: "load (ji_buf ji) off = Some c"
      "return_current_and_advance (cursor_to ji p (parent + 1)) = Some (off, cursor_to ji (p + 1) (parent + 1))"
      by (rule advance_token [of "cursor_to ji p (parent + 1)" c]) (use c(1) in simp_all)
    obtain a where a: "v = Scalar a" using v False by (cases v) auto
    then have ac: "a = c" "cs = []" "\<not> op_char c" using v wf by auto
    then have "char_at ji (p + 1) = Some e" using "next"(1) by (simp add: v)
    then show ?thesis using off ac "next"(2) False by (auto simp: ji_skip_child_def v op_char_def)
  qed
qed

section \<open>The fields of an object\<close>

abbreviation field_toks :: "u8 \<times> jval \<Rightarrow> u8 list" where
  "field_toks kv \<equiv> fst kv # COLON # toks (snd kv)"

text \<open>The positions of the key and behind the value of a field, counted from the opening brace.\<close>

definition field_pos :: "(u8 \<times> jval) list \<Rightarrow> nat \<Rightarrow> nat" where
  "field_pos kvs i = 1 + sum_list (map (\<lambda>kv. length (field_toks kv) + 1) (take i kvs))"

definition value_end :: "(u8 \<times> jval) list \<Rightarrow> nat \<Rightarrow> nat" where
  "value_end kvs i = field_pos kvs i + length (field_toks (kvs ! i))"

definition object_end :: "(u8 \<times> jval) list \<Rightarrow> nat" where
  "object_end kvs = length (toks (Obj kvs))"

lemma field_pos_0 [simp]: "field_pos kvs 0 = 1" by (simp add: field_pos_def)

lemma field_pos_Suc: "i < length kvs \<Longrightarrow> field_pos kvs (Suc i) = value_end kvs i + 1"
  by (simp add: field_pos_def value_end_def take_Suc_conv_app_nth)

lemma comma_sep_at:
  assumes "tokens_at ji q (comma_sep (map field_toks kvs) @ [RBRACE])" "i < length kvs"
  shows "tokens_at ji (q + (field_pos kvs i - 1)) (field_toks (kvs ! i)) \<and>
    char_at ji (q + (value_end kvs i - 1)) = Some (if Suc i < length kvs then COMMA else RBRACE) \<and>
    q + (value_end kvs i - 1) < ji_n ji"
  using assms
proof (induction kvs arbitrary: q i)
  case (Cons kv kvs)
  show ?case
  proof (cases kvs)
    case Nil
    then show ?thesis using Cons.prems
      by (simp add: field_pos_def value_end_def tokens_at_Cons tokens_at_append)
  next
    case (Cons kv' kvs')
    have all: "tokens_at ji q (field_toks kv)" "char_at ji (q + length (field_toks kv)) = Some COMMA"
      "q + length (field_toks kv) < ji_n ji"
      "tokens_at ji (q + length (field_toks kv) + 1) (comma_sep (map field_toks kvs) @ [RBRACE])"
    proof -
      have "comma_sep (map field_toks (kv # kvs)) @ [RBRACE] = field_toks kv @ COMMA # (comma_sep (map field_toks kvs) @ [RBRACE])"
        by (simp add: Cons)
      then show "tokens_at ji q (field_toks kv)" "char_at ji (q + length (field_toks kv)) = Some COMMA"
        "q + length (field_toks kv) < ji_n ji"
        "tokens_at ji (q + length (field_toks kv) + 1) (comma_sep (map field_toks kvs) @ [RBRACE])"
        using Cons.prems(1) by (simp_all only: tokens_at_append [of ji q "field_toks kv"] tokens_at_Cons [of ji _ COMMA])
    qed
    show ?thesis
    proof (cases i)
      case 0
      then show ?thesis using all Cons by (simp add: value_end_def)
    next
      case (Suc j)
      have j: "j < length kvs" using Cons.prems(2) Suc by simp
      have pos: "field_pos (kv # kvs) (Suc j) = length (field_toks kv) + 1 + field_pos kvs j"
        "value_end (kv # kvs) (Suc j) = length (field_toks kv) + 1 + value_end kvs j"
        by (simp_all add: field_pos_def value_end_def)
      have "0 < field_pos kvs j" "0 < value_end kvs j" by (simp_all add: field_pos_def value_end_def)
      then show ?thesis using Cons.IH [OF all(4) j] unfolding Suc pos by (simp add: add.assoc)
    qed
  qed
qed simp

lemma object_end_last: "kvs \<noteq> [] \<Longrightarrow> object_end kvs = value_end kvs (length kvs - 1) + 1"
proof -
  have "length (comma_sep ts) + 1 = sum_list (map (\<lambda>t. length t + 1) ts)" if "ts \<noteq> []" for ts
    using that by (induction ts rule: comma_sep.induct) auto
  then have "kvs \<noteq> [] \<Longrightarrow> length (comma_sep (map field_toks kvs)) + 1 = sum_list (map (\<lambda>kv. length (field_toks kv) + 1) kvs)"
    by (simp add: comp_def)
  moreover have "kvs \<noteq> [] \<Longrightarrow> field_pos kvs (length kvs) = value_end kvs (length kvs - 1) + 1"
    using field_pos_Suc [of "length kvs - 1" kvs] by simp
  ultimately show "kvs \<noteq> [] \<Longrightarrow> object_end kvs = value_end kvs (length kvs - 1) + 1"
    by (simp add: object_end_def field_pos_def)
qed

lemma object_fields:
  assumes "tokens_at ji r (toks (Obj kvs))" "i < length kvs"
  shows "tokens_at ji (r + field_pos kvs i) (field_toks (kvs ! i))"
    "char_at ji (r + value_end kvs i) = Some (if Suc i < length kvs then COMMA else RBRACE)" "r + value_end kvs i < ji_n ji"
proof -
  have "tokens_at ji (r + 1) (comma_sep (map field_toks kvs) @ [RBRACE])" using assms(1) by (simp add: tokens_at_Cons)
  note * = comma_sep_at [OF this assms(2)]
  have pos: "r + 1 + (field_pos kvs i - 1) = r + field_pos kvs i" "r + 1 + (value_end kvs i - 1) = r + value_end kvs i"
    by (simp_all add: field_pos_def value_end_def)
  show "tokens_at ji (r + field_pos kvs i) (field_toks (kvs ! i))"
    "char_at ji (r + value_end kvs i) = Some (if Suc i < length kvs then COMMA else RBRACE)" "r + value_end kvs i < ji_n ji"
    using * unfolding pos by blast+
qed


section \<open>The places of the cursor\<close>

text \<open>Between two lookups the cursor of a root object is at one of five kinds of places.\<close>

datatype place = AtRoot | AtFirst | AtValue nat | AfterValue nat | Closed

fun place_pos :: "(u8 \<times> jval) list \<Rightarrow> place \<Rightarrow> nat" where
  "place_pos kvs AtRoot = 0"
| "place_pos kvs AtFirst = 1"
| "place_pos kvs (AtValue i) = field_pos kvs i + 2"
| "place_pos kvs (AfterValue i) = value_end kvs i"
| "place_pos kvs Closed = object_end kvs"

fun place_depth :: "place \<Rightarrow> int" where
  "place_depth (AtValue i) = 2"
| "place_depth Closed = 0"
| "place_depth p = 1"

definition put :: "(u8 \<times> jval) list \<Rightarrow> json_iterator \<Rightarrow> place \<Rightarrow> json_iterator" where
  "put kvs ji p = cursor_to ji (ji_root ji + place_pos kvs p) (place_depth p)"

text \<open>The tokens from the root on are the ones of an object whose keys are strings.\<close>

definition object_doc :: "(u8 \<times> jval) list \<Rightarrow> json_iterator \<Rightarrow> bool" where
  "object_doc kvs ji \<longleftrightarrow> tokens_at ji (ji_root ji) (toks (Obj kvs)) \<and> wf_jval (Obj kvs) \<and>
    (\<forall>kv \<in> set kvs. fst kv = 0x22) \<and> ji_error ji = SUCCESS \<and> ji_alive ji \<and> int (ji_n ji) + 2 < INT32_MAX"

definition key_at :: "(u8 \<times> jval) list \<Rightarrow> json_iterator \<Rightarrow> nat \<Rightarrow> nat" where
  "key_at kvs ji i = the (token_peek ji (ji_root ji + field_pos kvs i)) + 1"

text \<open>The key stands in the text, followed by a quote.\<close>

definition key_matches :: "(u8 \<times> jval) list \<Rightarrow> json_iterator \<Rightarrow> u8 list \<Rightarrow> nat \<Rightarrow> bool" where
  "key_matches kvs ji key i \<longleftrightarrow> take (length key + 1) (drop (key_at kvs ji i) (ji_buf ji)) = key @ [0x22]"

definition key_readable :: "(u8 \<times> jval) list \<Rightarrow> json_iterator \<Rightarrow> u8 list \<Rightarrow> bool" where
  "key_readable kvs ji key \<longleftrightarrow> (\<forall>i < length kvs. key_at kvs ji i + length key < length (ji_buf ji))"

lemma is_equal_loop_readable:
  assumes "r + length key < length buf"
  shows "is_equal_loop buf r key = Some (take (length key + 1) (drop r buf) = key @ [0x22])"
  using assms
proof (induction key arbitrary: r)
  case (Cons t ts)
  have "drop r buf = buf ! r # drop (r + 1) buf" using Cons.prems by (simp add: Cons_nth_drop_Suc)
  then show ?case using Cons.IH [of "r + 1"] Cons.prems by (simp add: load_def)
qed (simp add: load_def take_Suc_conv_app_nth)

lemma key_read:
  assumes "key_readable kvs ji key" "i < length kvs"
  shows "unsafe_is_equal (ji_buf ji) (key_at kvs ji i) key = Some (key_matches kvs ji key i)"
proof -
  have r: "key_at kvs ji i + length key < length (ji_buf ji)" using assms by (simp add: key_readable_def)
  have "take (length key + 1) (drop (key_at kvs ji i) (ji_buf ji)) =
      take (length key) (drop (key_at kvs ji i) (ji_buf ji)) @ [ji_buf ji ! (key_at kvs ji i + length key)]"
    using r by (simp add: take_Suc_conv_app_nth)
  then show ?thesis using is_equal_loop_readable [OF r] r
    by (auto simp: unsafe_is_equal_def key_matches_def load_def)
qed

lemma fields_of:
  assumes "object_doc kvs ji" "i < length kvs"
  defines "r \<equiv> ji_root ji"
  shows "char_at ji (r + field_pos kvs i) = Some 0x22" "char_at ji (r + field_pos kvs i + 1) = Some COLON"
    "tokens_at ji (r + field_pos kvs i + 2) (toks (snd (kvs ! i)))" "wf_jval (snd (kvs ! i))"
    "char_at ji (r + value_end kvs i) = Some (if Suc i < length kvs then COMMA else RBRACE)"
    "r + field_pos kvs i + 2 + length (toks (snd (kvs ! i))) = r + value_end kvs i"
proof -
  have t: "tokens_at ji r (toks (Obj kvs))" and w: "wf_jval (Obj kvs)" and q: "\<forall>kv \<in> set kvs. fst kv = 0x22"
    using assms(1) unfolding object_doc_def r_def by blast+
  note f = object_fields [OF t assms(2)]
  show "char_at ji (r + field_pos kvs i) = Some 0x22" "char_at ji (r + field_pos kvs i + 1) = Some COLON"
    "tokens_at ji (r + field_pos kvs i + 2) (toks (snd (kvs ! i)))"
    using f(1) q assms(2) by (simp_all add: tokens_at_Cons)
  show "wf_jval (snd (kvs ! i))" using w assms(2) by simp
  show "char_at ji (r + value_end kvs i) = Some (if Suc i < length kvs then COMMA else RBRACE)" by (rule f(2))
qed (simp add: value_end_def)

lemmas cursor_simps = assert_at_next_def assume_that_def get_root_value_iterator_def return_current_and_advance_def
  char_at_def bind_eq_Some_conv INT32_MAX_def

lemma field_steps:
  assumes "object_doc kvs ji" "i < length kvs"
  defines "vi \<equiv> get_root_value_iterator ji" and "r \<equiv> ji_root ji"
  shows "field_key vi (cursor_to ji (r + field_pos kvs i) 1) = Some (Inr (key_at kvs ji i), cursor_to ji (r + field_pos kvs i + 1) 1)"
    "field_value vi (cursor_to ji (r + field_pos kvs i + 1) 1) = Some (SUCCESS, put kvs ji (AtValue i))"
    "vi_skip_child vi (put kvs ji (AtValue i)) = Some (SUCCESS, put kvs ji (AfterValue i))"
    "vi_skip_child vi (put kvs ji (AfterValue i)) = Some (SUCCESS, put kvs ji (AfterValue i))"
    "has_next_field vi (put kvs ji (AfterValue i)) =
      Some (Inr (Suc i < length kvs), if Suc i < length kvs then cursor_to ji (r + field_pos kvs (Suc i)) 1 else put kvs ji Closed)"
proof -
  note f = fields_of [OF assms(1,2), folded r_def]
  have pos: "0 < field_pos kvs i" "0 < value_end kvs i" by (simp_all add: field_pos_def value_end_def)
  show "field_key vi (cursor_to ji (r + field_pos kvs i) 1) = Some (Inr (key_at kvs ji i), cursor_to ji (r + field_pos kvs i + 1) 1)"
    using f(1) pos by (auto simp: field_key_def cursor_simps vi_def key_at_def r_def)
  show "field_value vi (cursor_to ji (r + field_pos kvs i + 1) 1) = Some (SUCCESS, put kvs ji (AtValue i))"
    using f(2) pos by (auto simp: field_value_def descend_to_def cursor_simps vi_def put_def r_def)
  have max: "1 + int (ji_n ji) < INT32_MAX" and alive: "ji_alive ji" using assms(1) by (simp_all add: object_doc_def)
  have e: "char_at ji (r + field_pos kvs i + 2 + length (toks (snd (kvs ! i)))) = Some (if Suc i < length kvs then COMMA else RBRACE)"
    using f(5) unfolding f(6) .
  show "vi_skip_child vi (put kvs ji (AtValue i)) = Some (SUCCESS, put kvs ji (AfterValue i))"
    using skip_value [OF f(4) alive f(3) max e] f(6) pos
    by (simp add: vi_skip_child_def assume_that_def vi_def get_root_value_iterator_def put_def r_def add.assoc)
  show "vi_skip_child vi (put kvs ji (AfterValue i)) = Some (SUCCESS, put kvs ji (AfterValue i))"
    using pos by (simp add: vi_skip_child_def assume_that_def vi_def get_root_value_iterator_def put_def ji_skip_child_def)
  show "has_next_field vi (put kvs ji (AfterValue i)) =
      Some (Inr (Suc i < length kvs), if Suc i < length kvs then cursor_to ji (r + field_pos kvs (Suc i)) 1 else put kvs ji Closed)"
  proof (cases "Suc i < length kvs")
    case True
    then show ?thesis using f(5) pos field_pos_Suc [OF assms(2)]
      by (auto simp: has_next_field_def cursor_simps vi_def put_def r_def)
  next
    case False
    then have "length kvs - 1 = i" "kvs \<noteq> []" using assms(2) by auto
    then have "object_end kvs = value_end kvs i + 1" using object_end_last [of kvs] by simp
    then show ?thesis using f(5) pos False
      by (auto simp: has_next_field_def end_container_def ascend_to_def cursor_simps vi_def put_def r_def intro!: exI [of _ RBRACE])
  qed
qed


lemma put_frame [simp]:
  "ji_root (put kvs ji p) = ji_root ji" "ji_buf (put kvs ji p) = ji_buf ji" "ji_indexes (put kvs ji p) = ji_indexes ji"
  "ji_error (put kvs ji p) = ji_error ji" "ji_depth (put kvs ji p) = place_depth p" "ji_pos (put kvs ji p) = ji_root ji + place_pos kvs p"
  "ji_streaming (put kvs ji p) = ji_streaming ji" "ji_n (put kvs ji p) = ji_n ji"
  by (simp_all add: put_def)

lemma put_put [simp]: "put kvs (put kvs ji p) q = put kvs ji q"
  by (simp add: put_def)

lemma find_append: "List.find P (xs @ ys) = (case List.find P xs of None \<Rightarrow> List.find P ys | Some x \<Rightarrow> Some x)"
  by (induction xs) auto

text \<open>The scan to the end of the object.\<close>

lemma find_loop_fields:
  assumes "object_doc kvs ji" "key_readable kvs ji key" "i \<le> length kvs" "length kvs - i < fuel"
  defines "r \<equiv> ji_root ji" and "vi \<equiv> get_root_value_iterator ji"
  shows "find_loop fuel vi key (i < length kvs) (if i < length kvs then cursor_to ji (r + field_pos kvs i) 1 else put kvs ji Closed) =
    Some (case List.find (key_matches kvs ji key) [i..<length kvs] of
        Some j \<Rightarrow> (Inr True, put kvs ji (AtValue j)) | None \<Rightarrow> (Inr False, put kvs ji Closed))"
  using assms(3,4)
proof (induction fuel arbitrary: i)
  case (Suc fuel)
  show ?case
  proof (cases "i < length kvs")
    case False
    then show ?thesis by simp
  next
    case True
    note st = field_steps [OF assms(1) True, folded r_def vi_def]
    note read = key_read [OF assms(2) True]
    have d: "vi_depth vi = 1" by (simp add: vi_def get_root_value_iterator_def)
    have "[i..<length kvs] = i # [Suc i..<length kvs]" using True by (rule upt_conv_Cons)
    then show ?thesis using Suc.IH [of "Suc i"] Suc.prems True st read d
      by (simp add: assume_that_def split: option.splits)
  qed
qed simp

lemma value_end_less: "i < j \<Longrightarrow> j < length kvs \<Longrightarrow> value_end kvs i < value_end kvs j"
proof (induction j)
  case (Suc j)
  then have "value_end kvs j < value_end kvs (Suc j)" using field_pos_Suc [of j kvs] by (simp add: value_end_def)
  then show ?case using Suc by (cases "i = j") auto
qed simp

text \<open>The scan from the first field up to the one where the search began.\<close>

lemma wrap_loop_fields:
  assumes "object_doc kvs ji" "key_readable kvs ji key" "i \<le> s" "s < length kvs" "s - i < fuel"
  defines "r \<equiv> ji_root ji" and "vi \<equiv> get_root_value_iterator ji"
  shows "wrap_loop fuel vi key (r + value_end kvs s) True (cursor_to ji (r + field_pos kvs i) 1) =
    Some (case List.find (key_matches kvs ji key) [i..<Suc s] of
        Some j \<Rightarrow> (Inr True, put kvs ji (AtValue j)) | None \<Rightarrow> (Inr False, put kvs ji (AfterValue s)))"
  using assms(3,5)
proof (induction fuel arbitrary: i)
  case (Suc fuel)
  have i: "i < length kvs" using Suc.prems assms(4) by simp
  note st = field_steps [OF assms(1) i, folded r_def vi_def]
  note read = key_read [OF assms(2) i]
  have d: "vi_depth vi = 1" by (simp add: vi_def get_root_value_iterator_def)
  have u: "[i..<Suc s] = i # [Suc i..<Suc s]" using Suc.prems by (simp add: upt_conv_Cons)
  show ?case
  proof (cases "i = s")
    case True
    then show ?thesis using st read d by (simp add: assume_that_def r_def)
  next
    case False
    then have "value_end kvs i \<noteq> value_end kvs s" "Suc i < length kvs" "Suc i \<le> s"
      using value_end_less [of i s kvs] Suc.prems assms(4) by auto
    then show ?thesis using Suc.IH [of "Suc i"] Suc.prems False st read d unfolding u
      by (simp add: assume_that_def r_def split: option.splits)
  qed
qed simp


section \<open>Lookups\<close>

text \<open>The order in which the fields are tried from a place.\<close>

fun search_order :: "nat \<Rightarrow> place \<Rightarrow> nat list" where
  "search_order m (AtValue s) = [Suc s..<m] @ [0..<Suc s]"
| "search_order m (AfterValue s) = [Suc s..<m] @ [0..<Suc s]"
| "search_order m p = [0..<m]"

text \<open>The place after a search without a match.\<close>

fun missed :: "place \<Rightarrow> place" where
  "missed (AtValue s) = AfterValue s"
| "missed (AfterValue s) = AfterValue s"
| "missed p = Closed"

definition proper :: "(u8 \<times> jval) list \<Rightarrow> place \<Rightarrow> bool" where
  "proper kvs p \<longleftrightarrow> (case p of AtValue i \<Rightarrow> i < length kvs | AfterValue i \<Rightarrow> i < length kvs | AtFirst \<Rightarrow> kvs \<noteq> [] | _ \<Rightarrow> True)"

lemma char_at_bound: "char_at ji p = Some c \<Longrightarrow> p < length (ji_indexes ji)"
  by (auto simp: char_at_def token_peek_def load_def bind_eq_Some_conv split: if_splits)

lemma field_pos_ge: "i \<le> length kvs \<Longrightarrow> i < field_pos kvs i"
proof (induction i)
  case (Suc i)
  then show ?case using field_pos_Suc [of i kvs] by (simp add: value_end_def)
qed simp

lemma enough_fuel:
  assumes "object_doc kvs ji"
  shows "length kvs < Suc (length (ji_indexes ji))"
proof (cases "kvs = []")
  case False
  then have "char_at ji (ji_root ji + value_end kvs (length kvs - 1)) \<noteq> None"
    using fields_of(5) [OF assms, of "length kvs - 1"] by simp
  then have "value_end kvs (length kvs - 1) < length (ji_indexes ji)" using char_at_bound by fastforce
  moreover have "length kvs - 1 < field_pos kvs (length kvs - 1)" by (rule field_pos_ge) simp
  ultimately show ?thesis using False by (simp add: value_end_def)
qed simp

text \<open>The first field of an object, and an empty object.\<close>

lemma started_object_at:
  assumes "object_doc kvs ji"
  defines "vi \<equiv> get_root_value_iterator ji"
  shows "started_object vi (cursor_to ji (ji_root ji + 1) 1) =
    Some (Inr (0 < length kvs), if 0 < length kvs then put kvs ji AtFirst else put kvs ji Closed)"
proof (cases "kvs = []")
  case True
  then have "tokens_at ji (ji_root ji) [LBRACE, RBRACE]" using assms(1) unfolding object_doc_def by simp
  then have "char_at ji (ji_root ji + 1) = Some RBRACE" by (simp add: tokens_at_Cons)
  then show ?thesis using True
    by (auto simp: started_object_def assert_at_container_start_def end_container_def ascend_to_def cursor_simps vi_def put_def
        object_end_def)
next
  case False
  then have "char_at ji (ji_root ji + 1) = Some 0x22" using fields_of(1) [OF assms(1), of 0] by simp
  then show ?thesis using False
    by (auto simp: started_object_def assert_at_container_start_def cursor_simps vi_def put_def intro!: exI [of _ "0x22 :: u8"])
qed

lemma reset_object_at:
  assumes "object_doc kvs ji"
  defines "vi \<equiv> get_root_value_iterator ji"
  shows "reset_object vi (put kvs ji p) =
    Some (Inr (0 < length kvs), if 0 < length kvs then cursor_to ji (ji_root ji + field_pos kvs 0) 1 else put kvs ji Closed)"
proof -
  have "ji_error ji = SUCCESS" using assms(1) unfolding object_doc_def by blast
  then show ?thesis using started_object_at [OF assms(1)]
    by (simp add: reset_object_def vi_def put_def get_root_value_iterator_def)
qed

lemma object_end_ge: "2 \<le> object_end kvs"
  by (simp add: object_end_def)

lemma not_first:
  assumes "proper kvs p" "p \<noteq> AtRoot"
  shows "at_first_field (get_root_value_iterator ji) (put kvs ji p) = Some (p = AtFirst)"
proof -
  have "1 < place_pos kvs p" if "p \<noteq> AtFirst"
    using that assms(2) object_end_ge [of kvs] by (cases p) (auto simp: value_end_def field_pos_def)
  then show ?thesis by (cases "p = AtFirst") (auto simp: at_first_field_def assume_that_def get_root_value_iterator_def)
qed

lemma find_begin_at:
  assumes "object_doc kvs ji" "proper kvs p" "p \<noteq> AtRoot"
  defines "vi \<equiv> get_root_value_iterator ji" and "m \<equiv> length kvs"
  shows "p = AtFirst \<or> p = Closed \<Longrightarrow> \<exists>q. find_begin vi (put kvs ji p) = Some (Inr (True, q, 0 < m),
      if 0 < m then cursor_to ji (ji_root ji + field_pos kvs 0) 1 else put kvs ji Closed)"
    "p = AtValue s \<or> p = AfterValue s \<Longrightarrow> find_begin vi (put kvs ji p) = Some (Inr (False, ji_root ji + value_end kvs s, Suc s < m),
      if Suc s < m then cursor_to ji (ji_root ji + field_pos kvs (Suc s)) 1 else put kvs ji Closed)"
proof -
  note first = not_first [OF assms(2,3), of ji, folded vi_def]
  have d: "vi_depth vi = 1" by (simp add: vi_def get_root_value_iterator_def)
  show "\<exists>q. find_begin vi (put kvs ji p) = Some (Inr (True, q, 0 < m),
      if 0 < m then cursor_to ji (ji_root ji + field_pos kvs 0) 1 else put kvs ji Closed)" if "p = AtFirst \<or> p = Closed"
    using that
  proof
    assume "p = AtFirst"
    then show ?thesis using first assms(2) by (auto simp: find_begin_def proper_def m_def put_def)
  next
    assume "p = Closed"
    then show ?thesis using first d reset_object_at [OF assms(1), of Closed]
      by (simp add: find_begin_def is_open_def vi_def m_def)
  qed
  show "find_begin vi (put kvs ji p) = Some (Inr (False, ji_root ji + value_end kvs s, Suc s < m),
      if Suc s < m then cursor_to ji (ji_root ji + field_pos kvs (Suc s)) 1 else put kvs ji Closed)" if "p = AtValue s \<or> p = AfterValue s"
  proof -
    have s: "s < length kvs" using that assms(2) by (auto simp: proper_def)
    note st = field_steps [OF assms(1) s, folded vi_def]
    show ?thesis using that first d st by (auto simp: find_begin_def is_open_def m_def)
  qed
qed


text \<open>A search finds the first match in the search order of the place, and leaves the cursor at its value; without a
  match the cursor is behind the object, or where it was.\<close>

lemma find_field_unordered_raw_at:
  assumes doc: "object_doc kvs ji" and key: "key_readable kvs ji key" and p: "proper kvs p" "p \<noteq> AtRoot"
  defines "vi \<equiv> get_root_value_iterator ji"
  shows "find_field_unordered_raw vi key (put kvs ji p) =
    Some (case List.find (key_matches kvs ji key) (search_order (length kvs) p) of
        Some j \<Rightarrow> (Inr True, put kvs ji (AtValue j)) | None \<Rightarrow> (Inr False, put kvs ji (missed p)))"
proof -
  let ?m = "length kvs" and ?fuel = "Suc (length (ji_indexes ji))"
  have fuel: "?m - i < ?fuel" for i using enough_fuel [OF doc] by simp
  note loop = find_loop_fields [OF doc key _ fuel, folded vi_def]
  have frame: "ji_indexes (if b then cursor_to ji q 1 else put kvs ji Closed) = ji_indexes ji" for b q by simp
  consider "p = AtFirst \<or> p = Closed" | s where "p = AtValue s \<or> p = AfterValue s" using p(2) by (cases p) auto
  then show ?thesis
  proof cases
    case 1
    obtain q where b: "find_begin vi (put kvs ji p) = Some (Inr (True, q, 0 < ?m),
      if 0 < ?m then cursor_to ji (ji_root ji + field_pos kvs 0) 1 else put kvs ji Closed)"
      using find_begin_at(1) [OF doc p 1] unfolding vi_def by blast
    have "search_order ?m p = [0..<?m]" "missed p = Closed" using 1 by auto
    then show ?thesis unfolding find_field_unordered_raw_def b
      by (simp only: Option.bind.simps prod.case sum.case frame loop [of 0, OF le0])
        (simp split: option.splits)
  next
    case 2
    have s: "s < ?m" using 2 p(1) by (auto simp: proper_def)
    note b = find_begin_at(2) [OF doc p 2, folded vi_def]
    have o: "search_order ?m p = [Suc s..<?m] @ [0..<Suc s]" "missed p = AfterValue s" using 2 by auto
    have w: "wrap_loop ?fuel vi key (ji_root ji + value_end kvs s) True (cursor_to ji (ji_root ji + field_pos kvs 0) 1) =
      Some (case List.find (key_matches kvs ji key) [0..<Suc s] of
        Some j \<Rightarrow> (Inr True, put kvs ji (AtValue j)) | None \<Rightarrow> (Inr False, put kvs ji (AfterValue s)))"
      unfolding vi_def by (rule wrap_loop_fields [OF doc key _ s]) (use s fuel [of 0] in simp_all)
    have m: "0 < ?m" using s by linarith
    show ?thesis unfolding find_field_unordered_raw_def b o find_append
      using loop [of "Suc s"] reset_object_at [OF doc, folded vi_def] s w m
      by (simp add: frame split: option.splits del: upt_Suc find_loop.simps wrap_loop.simps field_pos_0)
  qed
qed


section \<open>Documents\<close>

text \<open>The check of the last token that a document outside of a stream makes.\<close>

definition root_complete :: "(u8 \<times> jval) list \<Rightarrow> json_iterator \<Rightarrow> bool" where
  "root_complete kvs ji \<longleftrightarrow> ji_streaming ji \<or>
    ji_n ji = ji_root ji + object_end kvs \<and> char_at ji (ji_n ji) \<notin> {None, Some RBRACE}"

lemma last_token:
  assumes "tokens_at ji p cs" "cs \<noteq> []"
  shows "char_at ji (p + length cs - 1) = Some (last cs)"
proof -
  have "char_at ji (p + (length cs - 1)) = Some (cs ! (length cs - 1))"
    using assms by (simp add: tokens_at_def del: One_nat_def)
  moreover have "p + (length cs - 1) = p + length cs - 1" using assms(2) by (cases cs) auto
  ultimately show ?thesis using last_conv_nth [OF assms(2)] by metis
qed

lemma check_root_object_complete:
  assumes "object_doc kvs ji" "root_complete kvs ji"
  shows "check_root_object (cursor_to ji p d) = Some (SUCCESS, cursor_to ji p d)"
proof (cases "ji_streaming ji")
  case False
  then have r: "ji_n ji = ji_root ji + object_end kvs" "char_at ji (ji_n ji) \<notin> {None, Some RBRACE}"
    using assms(2) unfolding root_complete_def by blast+
  have "tokens_at ji (ji_root ji) (toks (Obj kvs))" using assms(1) unfolding object_doc_def by blast
  then have "char_at ji (ji_n ji - 1) = Some RBRACE"
    using last_token [of ji "ji_root ji" "toks (Obj kvs)"] unfolding r(1) object_end_def by simp
  moreover have "0 < ji_n ji" using r(1) object_end_ge [of kvs] by simp
  moreover have "ji_alive ji" using assms(1) unfolding object_doc_def by blast
  ultimately show ?thesis using False r(2)
    by (auto simp: check_root_object_def last_position_def assume_that_def end_position_def)
qed (simp add: check_root_object_def)

definition start_place :: "(u8 \<times> jval) list \<Rightarrow> place \<Rightarrow> place" where
  "start_place kvs p = (if p = AtRoot then if kvs = [] then Closed else AtFirst else p)"

lemma start_or_resume_object_at:
  assumes "object_doc kvs ji" "root_complete kvs ji" "proper kvs p"
  shows "start_or_resume_object (put kvs ji p) = Some (Inr (get_root_value_iterator ji), put kvs ji (start_place kvs p))"
proof (cases "p = AtRoot")
  case True
  let ?vi = "get_root_value_iterator ji"
  have "tokens_at ji (ji_root ji) (LBRACE # tl (toks (Obj kvs)))" using assms(1) unfolding object_doc_def by simp
  then have c: "char_at ji (ji_root ji) = Some LBRACE" by (simp add: tokens_at_Cons)
  obtain off where off: "return_current_and_advance (put kvs ji AtRoot) = Some (off, cursor_to ji (ji_root ji + 1) 1)"
    by (rule advance_token [of "put kvs ji AtRoot" LBRACE]) (use c in \<open>simp_all add: put_def\<close>)
  have "start_container ?vi LBRACE (put kvs ji AtRoot) = Some (SUCCESS, cursor_to ji (ji_root ji + 1) 1)"
    using c off by (simp add: start_container_def is_at_start_def assert_at_start_def assume_that_def get_root_value_iterator_def put_def)
  then have "start_root_object ?vi (put kvs ji AtRoot) =
      Some (Inr (0 < length kvs), if 0 < length kvs then put kvs ji AtFirst else put kvs ji Closed)"
    using started_object_at [OF assms(1)] check_root_object_complete [OF assms(1,2)]
    by (simp add: start_root_object_def started_root_object_def)
  moreover have "get_root_value_iterator (put kvs ji q) = ?vi" for q by (simp add: get_root_value_iterator_def)
  ultimately show ?thesis using True
    by (auto simp: start_or_resume_object_def at_root_def start_place_def)
next
  case False
  then have "0 < place_pos kvs p" using object_end_ge [of kvs] by (cases p) (auto simp: field_pos_def value_end_def)
  then show ?thesis using False by (simp add: start_or_resume_object_def at_root_def start_place_def get_root_value_iterator_def)
qed

definition field_ref :: "(u8 \<times> jval) list \<Rightarrow> json_iterator \<Rightarrow> nat \<Rightarrow> value_iterator" where
  "field_ref kvs ji j = \<lparr>vi_depth = 2, vi_start = ji_root ji + field_pos kvs j + 2\<rparr>"

lemma document_field_at:
  assumes "object_doc kvs ji" "root_complete kvs ji" "key_readable kvs ji key" "proper kvs p"
  shows "document_field (put kvs ji p) key =
    Some (case List.find (key_matches kvs ji key) (search_order (length kvs) (start_place kvs p)) of
        Some j \<Rightarrow> (Inr (field_ref kvs ji j), put kvs ji (AtValue j))
      | None \<Rightarrow> (Inl NO_SUCH_FIELD, put kvs ji (missed (start_place kvs p))))"
proof -
  have p: "proper kvs (start_place kvs p)" "start_place kvs p \<noteq> AtRoot"
    using assms(4) by (auto simp: proper_def start_place_def)
  have c: "child (get_root_value_iterator ji) (put kvs ji (AtValue j)) = Some (field_ref kvs ji j)" for j
    by (simp add: child_def assert_at_child_def assume_that_def get_root_value_iterator_def field_ref_def add.assoc)
  show ?thesis
    unfolding document_field_def start_or_resume_object_at [OF assms(1,2,4)]
    by (simp add: object_find_field_unordered_def find_field_unordered_raw_at [OF assms(1,3) p] c split: option.splits)
qed

text \<open>The value of a field: the offset of its first token in the text.\<close>

definition value_at :: "(u8 \<times> jval) list \<Rightarrow> json_iterator \<Rightarrow> nat \<Rightarrow> nat" where
  "value_at kvs ji j = the (token_peek ji (ji_root ji + field_pos kvs j + 2))"

lemma value_token:
  assumes "object_doc kvs ji" "j < length kvs"
  shows "token_peek ji (ji_root ji + field_pos kvs j + 2) = Some (value_at kvs ji j)"
    "load (ji_buf ji) (value_at kvs ji j) = Some (hd (toks (snd (kvs ! j))))"
proof -
  note f = fields_of [OF assms]
  obtain c cs where c: "toks (snd (kvs ! j)) = c # cs" using toks_nonempty [OF f(4)] by (cases "toks (snd (kvs ! j))") auto
  then have "char_at ji (ji_root ji + field_pos kvs j + 2) = Some c" using f(3) by (simp add: tokens_at_Cons)
  then show "token_peek ji (ji_root ji + field_pos kvs j + 2) = Some (value_at kvs ji j)"
    "load (ji_buf ji) (value_at kvs ji j) = Some (hd (toks (snd (kvs ! j))))"
    using c by (auto simp: char_at_def value_at_def bind_eq_Some_conv)
qed

text \<open>Reading a scalar leaves the cursor behind it.\<close>

lemma scalar_first:
  assumes "wf_jval v" "hd (toks v) \<noteq> LBRACE" "hd (toks v) \<noteq> LBRACKET"
  shows "length (toks v) = 1"
  using assms by (cases v) auto

lemma advance_at:
  assumes "object_doc kvs ji" "j < length kvs"
    and "hd (toks (snd (kvs ! j))) \<noteq> LBRACE" "hd (toks (snd (kvs ! j))) \<noteq> LBRACKET"
  shows "advance_scalar (field_ref kvs ji j) (put kvs ji (AtValue j)) = Some (put kvs ji (AfterValue j))"
    "advance_non_root_scalar (field_ref kvs ji j) (put kvs ji (AtValue j)) = Some (put kvs ji (AfterValue j))"
proof -
  have "length (toks (snd (kvs ! j))) = 1" using scalar_first assms(3,4) fields_of(4) [OF assms(1,2)] by blast
  then have "ji_root ji + value_end kvs j = ji_root ji + field_pos kvs j + 2 + 1" by (simp add: value_end_def)
  then show "advance_scalar (field_ref kvs ji j) (put kvs ji (AtValue j)) = Some (put kvs ji (AfterValue j))"
    "advance_non_root_scalar (field_ref kvs ji j) (put kvs ji (AtValue j)) = Some (put kvs ji (AfterValue j))"
    using value_token(1) [OF assms(1,2)]
    by (simp_all add: advance_scalar_def advance_non_root_scalar_def is_at_start_def assert_at_non_root_start_def assert_at_start_def assume_that_def
        field_ref_def return_current_and_advance_def put_def ascend_to_def INT32_MAX_def add.assoc)
qed

lemma peek_at:
  assumes "object_doc kvs ji" "j < length kvs"
  shows "peek_scalar (field_ref kvs ji j) (put kvs ji (AtValue j)) = Some (value_at kvs ji j)"
    "peek_non_root_scalar (field_ref kvs ji j) (put kvs ji (AtValue j)) = Some (value_at kvs ji j)"
  using value_token(1) [OF assms]
  by (simp_all add: peek_scalar_def peek_non_root_scalar_def is_at_start_def assert_at_non_root_start_def assert_at_start_def assume_that_def
      field_ref_def put_def add.assoc)

fun after_reading :: "nat \<Rightarrow> ('a :: type) simdjson_result \<Rightarrow> place" where
  "after_reading j (Inl e) = AtValue j"
| "after_reading j (Inr v) = AfterValue j"

lemma parse_unsigned_digit:
  assumes "parse_unsigned src s = Some (Inr v)"
  shows "\<exists>c. load src s = Some c \<and> c \<noteq> LBRACE \<and> c \<noteq> LBRACKET"
proof -
  obtain p i where p: "digits_loop src s 0 = Some (p, i)" "p \<noteq> s"
    using assms by (auto simp: parse_unsigned_def bind_eq_Some_conv Let_def split: if_splits)
  have "\<not> (LBRACE - 0x30 \<le> (9 :: u8))" "\<not> (LBRACKET - 0x30 \<le> (9 :: u8))" by simp_all
  then show ?thesis using p
    by (subst (asm) digits_loop.simps) (auto simp: load_def parse_digit_def split: if_splits option.splits)
qed

lemma get_uint64_at:
  assumes "object_doc kvs ji" "j < length kvs" "parse_unsigned (ji_buf ji) (value_at kvs ji j) = Some res"
  shows "get_uint64 (field_ref kvs ji j) (put kvs ji (AtValue j)) = Some (res, put kvs ji (after_reading j res))"
proof (cases res)
  case (Inr v)
  then have "hd (toks (snd (kvs ! j))) \<noteq> LBRACE" "hd (toks (snd (kvs ! j))) \<noteq> LBRACKET"
    using parse_unsigned_digit assms(3) value_token(2) [OF assms(1,2)] by fastforce+
  then show ?thesis using Inr assms(3) peek_at(2) [OF assms(1,2)] advance_at(2) [OF assms(1,2)]
    by (simp add: get_uint64_def)
qed (use assms(3) peek_at(2) [OF assms(1,2)] in \<open>simp add: get_uint64_def\<close>)

lemma get_raw_json_string_at:
  assumes "object_doc kvs ji" "j < length kvs"
  shows "get_raw_json_string (field_ref kvs ji j) (put kvs ji (AtValue j)) =
    Some (if hd (toks (snd (kvs ! j))) = 0x22 then (Inr (value_at kvs ji j + 1), put kvs ji (AfterValue j))
      else (Inl INCORRECT_TYPE, put kvs ji (AtValue j)))"
  using peek_at(1) [OF assms] advance_at(1) [OF assms] value_token(2) [OF assms]
  by (simp add: get_raw_json_string_def)

section \<open>Sequences of lookups\<close>

lemma find_found: "List.find P xs = Some x \<Longrightarrow> x \<in> set xs \<and> P x"
  by (induction xs) (auto split: if_splits)

lemma find_unique:
  assumes "set xs = set ys" "\<And>i j. i \<in> set ys \<Longrightarrow> j \<in> set ys \<Longrightarrow> P i \<Longrightarrow> P j \<Longrightarrow> i = j"
  shows "List.find P xs = List.find P ys"
proof (cases "List.find P xs"; cases "List.find P ys")
  fix i j assume "List.find P xs = Some i" "List.find P ys = Some j"
  then show ?thesis using find_found assms by metis
qed (use assms(1) find_found find_None_iff in \<open>metis+\<close>)

lemma set_search_order: "proper kvs p \<Longrightarrow> set (search_order (length kvs) p) = {0..<length kvs}"
  by (cases p) (auto simp: proper_def)

text \<open>What the text says: the field with the key, and its value read as a number or as a string.\<close>

fun request_key :: "request \<Rightarrow> u8 list" where
  "request_key (AsUint64 key) = key"
| "request_key (AsString key) = key"

definition field_of :: "(u8 \<times> jval) list \<Rightarrow> json_iterator \<Rightarrow> u8 list \<Rightarrow> nat option" where
  "field_of kvs ji key = List.find (key_matches kvs ji key) [0..<length kvs]"

fun value_ref :: "u8 list \<Rightarrow> nat \<Rightarrow> request \<Rightarrow> answer" where
  "value_ref buf off (AsUint64 key) = map_sum id Inl (the (parse_unsigned buf off))"
| "value_ref buf off (AsString key) =
    (if load buf off \<noteq> Some 0x22 then Inl INCORRECT_TYPE
     else case unescape Reject (drop (off + 1) buf) of
       Some (Some out, n) \<Rightarrow> Inr (Inr out) | _ \<Rightarrow> Inl STRING_ERROR)"

definition answer_ref :: "(u8 \<times> jval) list \<Rightarrow> json_iterator \<Rightarrow> request \<Rightarrow> answer" where
  "answer_ref kvs ji q =
    (case field_of kvs ji (request_key q) of
       None \<Rightarrow> Inl NO_SUCH_FIELD | Some j \<Rightarrow> value_ref (ji_buf ji) (value_at kvs ji j) q)"

text \<open>The value can be read: the number has an end, the string has one with padding behind it.\<close>

fun value_readable :: "u8 list \<Rightarrow> nat \<Rightarrow> request \<Rightarrow> bool" where
  "value_readable buf off (AsUint64 key) \<longleftrightarrow> parse_unsigned buf off \<noteq> None"
| "value_readable buf off (AsString key) \<longleftrightarrow> load buf off = Some 0x22 \<longrightarrow>
    (case unescape Reject (drop (off + 1) buf) of None \<Rightarrow> False | Some (res, n) \<Rightarrow> off + 1 + n + 32 \<le> length buf)"

text \<open>The bytes that a request may take in the string buffer.\<close>

fun value_room :: "u8 list \<Rightarrow> nat \<Rightarrow> request \<Rightarrow> nat" where
  "value_room buf off (AsUint64 key) = 0"
| "value_room buf off (AsString key) = (if load buf off \<noteq> Some 0x22 then 0 else case unescape Reject (drop (off + 1) buf) of None \<Rightarrow> 0 | Some (res, n) \<Rightarrow> n)"

definition request_room :: "(u8 \<times> jval) list \<Rightarrow> json_iterator \<Rightarrow> request \<Rightarrow> nat" where
  "request_room kvs ji q = (case field_of kvs ji (request_key q) of None \<Rightarrow> 0 | Some j \<Rightarrow> value_room (ji_buf ji) (value_at kvs ji j) q)"

definition request_ok :: "(u8 \<times> jval) list \<Rightarrow> json_iterator \<Rightarrow> request \<Rightarrow> bool" where
  "request_ok kvs ji q \<longleftrightarrow> key_readable kvs ji (request_key q) \<and>
    (\<forall>i < length kvs. \<forall>j < length kvs. key_matches kvs ji (request_key q) i \<and> key_matches kvs ji (request_key q) j \<longrightarrow> i = j) \<and>
    (\<forall>j < length kvs. key_matches kvs ji (request_key q) j \<longrightarrow> value_readable (ji_buf ji) (value_at kvs ji j) q)"

text \<open>Unescaping does not make a text longer.\<close>

lemma unescape_length:
  "unescape m xs = Some (Some out, n) \<Longrightarrow> length out \<le> n"
proof (induction m xs arbitrary: out n rule: unescape.induct)
  case (2 m c r)
  have cp: "length (codepoint_to_utf8 u) \<le> 6" for u by (simp add: codepoint_to_utf8_def Let_def)
  have pre: "\<exists>t k. r' = Some (Some t, k) \<and> out = x @ t \<and> n = i + k" if "prepend x i r' = Some (Some out, n)" for x i r'
    using that by (auto simp: prepend_def)
  consider "c = 0x22" | "c \<noteq> 0x22" "c \<noteq> 0x5C" | cp i where "c = 0x5C" "r \<noteq> []" "hd r = 0x75" "unicode_ref m (c # r) = Some (cp, i)"
    | "c = 0x5C" "r \<noteq> []" "hd r \<noteq> 0x75" "escape_map ! unat (hd r) \<noteq> 0"
    using "2.prems" by (auto split: if_splits option.splits)
  then show ?case
  proof cases
    case 1
    then show ?thesis using "2.prems" by simp
  next
    case 2
    then obtain t k where "unescape m r = Some (Some t, k)" "out = [c] @ t" "n = 1 + k" using "2.prems" pre by fastforce
    then show ?thesis using "2.IH"(1) 2 by simp
  next
    case (3 u i)
    then obtain t k where t: "unescape m (drop i (c # r)) = Some (Some t, k)" "out = codepoint_to_utf8 u @ t" "n = i + k"
      using "2.prems" pre by fastforce
    have "length t \<le> k" by (rule "2.IH"(2)) (use 3 t in auto)
    then show ?thesis using t cp [of u] unicode_ref_consumed [OF 3(4)] by auto
  next
    case 4
    then obtain t k where t: "unescape m (tl r) = Some (Some t, k)" "out = [escape_map ! unat (hd r)] @ t" "n = 2 + k"
      using "2.prems" pre by fastforce
    have "length t \<le> k" by (rule "2.IH"(3)) (use 4 t in auto)
    then show ?thesis using t by simp
  qed
qed simp

lemma lookup_at:
  assumes "object_doc kvs ji" "root_complete kvs ji" "proper kvs p" "request_ok kvs ji q"
  shows "document_field (put kvs ji p) (request_key q) =
    Some (case field_of kvs ji (request_key q) of
        Some j \<Rightarrow> (Inr (field_ref kvs ji j), put kvs ji (AtValue j))
      | None \<Rightarrow> (Inl NO_SUCH_FIELD, put kvs ji (missed (start_place kvs p))))"
proof -
  have k: "key_readable kvs ji (request_key q)" using assms(4) by (simp add: request_ok_def)
  have "proper kvs (start_place kvs p)" using assms(3) by (auto simp: proper_def start_place_def)
  then have "List.find (key_matches kvs ji (request_key q)) (search_order (length kvs) (start_place kvs p)) =
      field_of kvs ji (request_key q)"
    unfolding field_of_def by (intro find_unique) (use assms(4) in \<open>auto simp: set_search_order request_ok_def\<close>)
  then show ?thesis using document_field_at [OF assms(1,2) k assms(3)] by simp
qed

text \<open>One string: it lies in the free part of the buffer.\<close>

lemma get_string_at:
  assumes "object_doc kvs ji" "j < length kvs" "value_readable (ji_buf ji) (value_at kvs ji j) (AsString key)"
    and "d + value_room (ji_buf ji) (value_at kvs ji j) (AsString key) + 32 \<le> length mem"
  shows "\<exists>res p mem' d'. get_string (field_ref kvs ji j) False (put kvs ji (AtValue j)) (mem, d) = Some (res, put kvs ji p, mem', d') \<and>
    map_sum id (\<lambda>(d, n). Inr (take n (drop d mem'))) res = value_ref (ji_buf ji) (value_at kvs ji j) (AsString key) \<and>
    p \<in> {AtValue j, AfterValue j} \<and> length mem' = length mem \<and>
    d' \<le> d + value_room (ji_buf ji) (value_at kvs ji j) (AsString key) \<and> (\<forall>e. res = Inl e \<longrightarrow> d' = d)"
proof (cases "hd (toks (snd (kvs ! j))) = 0x22")
  case False
  then show ?thesis using get_raw_json_string_at [OF assms(1,2)] value_token(2) [OF assms(1,2)]
    by (auto simp: get_string_def)
next
  case True
  let ?off = "value_at kvs ji j"
  have l: "load (ji_buf ji) ?off = Some 0x22" using value_token(2) [OF assms(1,2)] True by simp
  then obtain res n where u: "unescape Reject (drop (?off + 1) (ji_buf ji)) = Some (res, n)" "?off + 1 + n + 32 \<le> length (ji_buf ji)"
    using assms(3) by (auto split: option.splits)
  have "unescape (if False then Replace else Reject) (drop (?off + 1) (ji_buf ji)) = Some (res, n)" using u(1) by simp
  have room: "value_room (ji_buf ji) ?off (AsString key) = n" using u(1) l by simp
  obtain mem' where m: "parse_string (ji_buf ji) (?off + 1) mem d False = Some (map_option (\<lambda>out. d + length out) res, mem')"
    "length mem' = length mem" "\<forall>out. res = Some out \<longrightarrow> take (length out) (drop d mem') = out"
    using parse_string_outcome [where allow_replacement = False and d = d and mem = mem, OF _ u(2)] u(1) assms(4) room by auto
  show ?thesis
  proof (cases res)
    case None
    then show ?thesis using get_raw_json_string_at [OF assms(1,2)] m u l True
      by (auto simp: get_string_def parser_unescape_def)
  next
    case (Some out)
    then have "length out \<le> n" using unescape_length u(1) by blast
    then show ?thesis using get_raw_json_string_at [OF assms(1,2)] m u l True Some
      by (auto simp: get_string_def parser_unescape_def)
  qed
qed

lemma document_request_at:
  assumes "object_doc kvs ji" "root_complete kvs ji" "proper kvs p" "request_ok kvs ji q"
    and "d + request_room kvs ji q + 32 \<le> length mem"
  shows "\<exists>p' mem' d'. document_request (put kvs ji p, mem, d) q = Some (answer_ref kvs ji q, put kvs ji p', mem', d') \<and>
    proper kvs p' \<and> length mem' = length mem \<and> d' \<le> d + request_room kvs ji q \<and> (\<forall>e. answer_ref kvs ji q = Inl e \<longrightarrow> d' = d)"
proof -
  note l = lookup_at [OF assms(1-4)]
  show ?thesis
  proof (cases "field_of kvs ji (request_key q)")
    case None
    then have "proper kvs (missed (start_place kvs p))"
      using assms(3) by (cases p) (auto simp: proper_def start_place_def)
    then show ?thesis using l None
      by (cases q) (auto simp: document_uint64_def document_string_def answer_ref_def)
  next
    case (Some j)
    then have j: "j < length kvs" "key_matches kvs ji (request_key q) j" using find_found [of _ "[0..<length kvs]" j] by (auto simp: field_of_def)
    then have r: "value_readable (ji_buf ji) (value_at kvs ji j) q" using assms(4) unfolding request_ok_def by blast
    have pr: "proper kvs p" if "p \<in> {AtValue j, AfterValue j}" for p using that j(1) by (auto simp: proper_def)
    show ?thesis
    proof (cases q)
      case (AsUint64 key)
      then obtain res where res: "parse_unsigned (ji_buf ji) (value_at kvs ji j) = Some res" using r by auto
      have "proper kvs (after_reading j res)" using j(1) by (cases res) (auto simp: proper_def)
      then show ?thesis using l Some AsUint64 get_uint64_at [OF assms(1) j(1) res] res
        by (auto simp: document_uint64_def answer_ref_def)
    next
      case (AsString key)
      have "d + value_room (ji_buf ji) (value_at kvs ji j) (AsString key) + 32 \<le> length mem"
        using assms(5) Some AsString by (simp add: request_room_def)
      then obtain res p' mem' d' where g: "get_string (field_ref kvs ji j) False (put kvs ji (AtValue j)) (mem, d) = Some (res, put kvs ji p', mem', d')"
        "map_sum id (\<lambda>(d, n). Inr (take n (drop d mem'))) res = value_ref (ji_buf ji) (value_at kvs ji j) (AsString key)"
        "p' \<in> {AtValue j, AfterValue j}" "length mem' = length mem" "d' \<le> d + value_room (ji_buf ji) (value_at kvs ji j) (AsString key)"
        "\<forall>e. res = Inl e \<longrightarrow> d' = d"
        using get_string_at [OF assms(1) j(1) r [unfolded AsString]] by metis
      have a: "answer_ref kvs ji q = map_sum id (\<lambda>(d, n). Inr (take n (drop d mem'))) res"
        unfolding g(2) using Some AsString by (simp add: answer_ref_def)
      have "document_request (put kvs ji p, mem, d) q = Some (answer_ref kvs ji q, put kvs ji p', mem', d')"
        unfolding a using l Some AsString g(1) by (simp add: document_string_def)
      moreover have "d' = d" if "answer_ref kvs ji q = Inl e" for e using that g(6) unfolding a by (cases res) auto
      moreover have "d' \<le> d + request_room kvs ji q" using g(5) Some AsString by (simp add: request_room_def)
      ultimately show ?thesis using pr [OF g(3)] g(4) by blast
    qed
  qed
qed

text \<open>C19: a sequence of requests \<open>doc[key].get_uint64()\<close> and \<open>doc[key].get_string()\<close> on the tokens of an object answers each
  request with the value of the field that has the key, as the text has it, or with \<open>NO_SUCH_FIELD\<close>: whatever the order of the
  requests, whatever place the cursor was left at, and however often a key is asked for again. The keys asked for are
  unambiguous, and the string buffer has room for the literals that are read.\<close>

theorem document_requests_correct:
  assumes "object_doc kvs ji" and "root_complete kvs ji" and "proper kvs p" and "\<forall>q \<in> set qs. request_ok kvs ji q"
    and "d + sum_list (map (request_room kvs ji) qs) + 32 \<le> length mem"
  shows "\<exists>p' mem' d'. document_requests (put kvs ji p, mem, d) qs = Some (map (answer_ref kvs ji) qs, put kvs ji p', mem', d') \<and> proper kvs p'"
  using assms(3-)
proof (induction qs arbitrary: p mem d)
  case (Cons q qs)
  obtain p' mem' d' where s: "document_request (put kvs ji p, mem, d) q = Some (answer_ref kvs ji q, put kvs ji p', mem', d')"
    "proper kvs p'" "length mem' = length mem" "d' \<le> d + request_room kvs ji q"
    using document_request_at [OF assms(1,2) Cons.prems(1), of q d mem] Cons.prems(2,3) by auto
  have "d' + sum_list (map (request_room kvs ji) qs) + 32 \<le> length mem'" using s(3,4) Cons.prems(3) by simp
  then show ?case using Cons.IH [OF s(2)] Cons.prems(2) s(1) by fastforce
qed auto

text \<open>Asking for the text of the document first, as the exporter does, leaves the cursor behind the object.\<close>

lemma raw_json_at:
  assumes "object_doc kvs ji" "token_peek ji (ji_root ji) = Some start" "token_peek ji (ji_root ji + object_end kvs) = Some behind"
  shows "raw_json (put kvs ji AtRoot) = Some (Inr (start, behind - start), put kvs ji Closed)"
proof -
  have t: "wf_jval (Obj kvs)" "ji_alive ji" "tokens_at ji (ji_root ji) (toks (Obj kvs))" "0 + int (ji_n ji) < INT32_MAX"
    using assms(1) unfolding object_doc_def by (blast, blast, blast, linarith)
  have "char_at ji (ji_root ji) = Some LBRACE" using t(3) by (simp add: tokens_at_Cons)
  moreover have "ji_skip_child (put kvs ji AtRoot) 0 = Some (SUCCESS, put kvs ji Closed)"
    using skip_container [OF t, of LBRACE] by (simp add: put_def object_end_def)
  ultimately have "document_consume (put kvs ji AtRoot) = Some (SUCCESS, put kvs ji Closed)"
    by (simp add: document_consume_def is_scalar_def put_def)
  moreover have "token_peek (put kvs ji p) = token_peek ji" for p by (simp add: put_def)
  ultimately show ?thesis using assms(2,3) by (simp add: raw_json_def)
qed

text \<open>The document \<open>{"status":200,"id":"ab"}\<close> with its nine tokens.\<close>

definition example_buf :: "u8 list" where
  "example_buf = [0x7B, 0x22, 0x73, 0x74, 0x61, 0x74, 0x75, 0x73, 0x22, 0x3A, 0x32, 0x30, 0x30, 0x2C,
     0x22, 0x69, 0x64, 0x22, 0x3A, 0x22, 0x61, 0x62, 0x22, 0x7D] @ replicate 64 0"

definition example_doc :: json_iterator where
  "example_doc = \<lparr>ji_buf = example_buf, ji_indexes = [0, 1, 9, 10, 13, 14, 18, 19, 23, 24, 24, 0], ji_n = 9, ji_pos = 0,
     ji_depth = 1, ji_error = SUCCESS, ji_root = 0, ji_streaming = False, ji_alive = True\<rparr>"

definition example_fields :: "(u8 \<times> jval) list" where
  "example_fields = [(0x22, Scalar 0x32), (0x22, Scalar 0x22)]"

definition example_requests :: "request list" where
  "example_requests = [AsString [0x69, 0x64], AsUint64 [0x6C], AsUint64 [0x73, 0x74, 0x61, 0x74, 0x75, 0x73], AsUint64 [0x69, 0x64]]"

lemma example_tokens: "tokens_at example_doc 0 (toks (Obj example_fields))"
  by (simp add: example_fields_def tokens_at_Cons) (simp add: tokens_at_def example_doc_def char_at_def token_peek_def load_def example_buf_def)

lemma example_doc_ok: "object_doc example_fields example_doc"
  using example_tokens unfolding object_doc_def by (auto simp: example_doc_def example_fields_def op_char_def INT32_MAX_def)

lemma example_complete: "root_complete example_fields example_doc"
  by (simp add: root_complete_def object_end_def example_fields_def example_doc_def char_at_def token_peek_def load_def example_buf_def)
lemmas example_defs = example_fields_def example_doc_def token_peek_def load_def field_pos_def

lemma example_at: "key_at example_fields example_doc 0 = 2" "key_at example_fields example_doc (Suc 0) = 15"
  "value_at example_fields example_doc 0 = 10" "value_at example_fields example_doc (Suc 0) = 19"
  by (simp_all add: key_at_def value_at_def example_defs)

lemma example_length: "length example_fields = 2" "ji_buf example_doc = example_buf"
  by (simp_all add: example_fields_def example_doc_def)

lemma example_matches: "key_matches example_fields example_doc [0x69, 0x64] i \<longleftrightarrow> i = Suc 0"
  "key_matches example_fields example_doc [0x6C] i \<longleftrightarrow> False"
  "key_matches example_fields example_doc [0x73, 0x74, 0x61, 0x74, 0x75, 0x73] i \<longleftrightarrow> i = 0" if "i < 2" for i
  using that by (auto simp: less_2_cases_iff key_matches_def example_at example_length example_buf_def)

lemma example_values:
  "unescape Reject (drop 20 example_buf) = Some (Some [0x61, 0x62], 2)" "parse_unsigned example_buf 10 = Some (Inr 200)"
  "parse_unsigned example_buf 19 = Some (Inl INCORRECT_TYPE)" "load example_buf 19 = Some 0x22" "length example_buf = 88"
  by code_simp+

lemma example_requests_ok: "\<forall>q \<in> set example_requests. request_ok example_fields example_doc q"
  by (auto simp: example_requests_def request_ok_def key_readable_def example_matches example_length example_values example_at less_2_cases_iff)

lemma example_field_of: "field_of example_fields example_doc [0x69, 0x64] = Some (Suc 0)"
  "field_of example_fields example_doc [0x6C] = None"
  "field_of example_fields example_doc [0x73, 0x74, 0x61, 0x74, 0x75, 0x73] = Some 0"
  by (simp_all add: field_of_def example_length example_matches upt_rec)

lemma example_room: "sum_list (map (request_room example_fields example_doc) example_requests) = 2"
  by (simp add: example_requests_def request_room_def example_field_of example_at example_length example_values)

lemma example_answers: "map (answer_ref example_fields example_doc) example_requests =
    [Inr (Inr [0x61, 0x62]), Inl NO_SUCH_FIELD, Inr (Inl 200), Inl INCORRECT_TYPE]"
  by (simp add: example_requests_def answer_ref_def example_field_of example_at example_length example_values)

lemma example_start: "put example_fields example_doc AtRoot = example_doc"
  by (simp add: put_def example_doc_def)

theorem document_requests_correct_witness:
  "\<exists>s. document_requests (example_doc, replicate 128 0, 0) example_requests =
    Some ([Inr (Inr [0x61, 0x62]), Inl NO_SUCH_FIELD, Inr (Inl 200), Inl INCORRECT_TYPE], s)"
  using document_requests_correct [OF example_doc_ok example_complete _ example_requests_ok, of AtRoot 0 "replicate 128 0"]
  unfolding example_start example_room example_answers by (auto simp: proper_def)

end
