(* ===== verification/Simd_Windows.thy ===== *)
theory Simd_Windows
  imports Simd_Lookups
begin

text \<open>
  The windows of a document stream: texts of documents one after the other, with whitespace between them, and what stage 1
  makes of a window that such a text is cut into. \<open>window_documents\<close> says that the indexes of the complete documents
  remain and where the next window begins, \<open>window_empty\<close> that a window of whitespace is reported as empty.
\<close>

section \<open>Texts one after the other\<close>

text \<open>A text that ends between tokens: the lexer reads on as from the beginning.\<close>

abbreviation all_ws :: "u8 list \<Rightarrow> bool" where "all_ws ws \<equiv> \<forall>b \<in> set ws. is_ws b"

definition ends_between :: "u8 list \<Rightarrow> bool" where
  "ends_between xs \<longleftrightarrow> lex_at Between xs (length xs) = Between"

lemma lex_at_after: "ends_between xs \<Longrightarrow> lex_at Between (xs @ ys) (length xs + i) = lex_at Between ys i"
  by (simp add: ends_between_def lex_at_append_right)

lemma starts_at_after: "ends_between xs \<Longrightarrow> starts_at (xs @ ys) (length xs + i) = starts_at ys i"
  by (simp add: starts_at_def lex_at_after)

lemma ends_between_append: "ends_between xs \<Longrightarrow> ends_between (xs @ ys) = ends_between ys"
  by (simp add: ends_between_def lex_at_append_right)

lemma token_starts_after:
  assumes "ends_between xs"
  shows "token_starts (xs @ ys) (length xs + n) = token_starts xs (length xs) @ map (\<lambda>i. length xs + i) (token_starts ys n)"
  using token_starts_add [of "xs @ ys" "length xs" n] token_starts_append [of "length xs" xs ys] starts_at_after [OF assms]
  by (simp add: token_starts_def)

lemma structural_chars_append:
  assumes "ends_between xs"
  shows "structural_chars (xs @ ys) = structural_chars xs @ structural_chars ys"
proof -
  have "i < length xs" if "i \<in> set (token_starts xs (length xs))" for i using token_starts_bound(2) that by blast
  then show ?thesis using token_starts_after [OF assms, of ys "length ys"]
    by (simp add: structural_chars_def nth_append)
qed

lemma unclosed_append: "ends_between xs \<Longrightarrow> unclosed (xs @ ys) = unclosed ys"
  by (simp add: unclosed_def lex_at_after)

lemma ex_less_add: "(\<exists>i < m + n. P i) \<longleftrightarrow> (\<exists>i < m. P i) \<or> (\<exists>i < n. P (m + i))" for m n :: nat
proof
  assume "\<exists>i < m + n. P i"
  then obtain i where i: "i < m + n" "P i" by blast
  show "(\<exists>i < m. P i) \<or> (\<exists>i < n. P (m + i))"
  proof (cases "i < m")
    case False
    then have "i - m < n" "P (m + (i - m))" using i by simp_all
    then show ?thesis by blast
  qed (use i in blast)
qed (meson nat_add_left_cancel_less trans_less_add1)

lemma has_control_append:
  assumes "ends_between xs"
  shows "has_control (xs @ ys) \<longleftrightarrow> has_control xs \<or> has_control ys"
proof -
  have "unescaped_at (xs @ ys) (length xs + i) = unescaped_at ys i" for i
    using lex_at_after [OF assms, of ys "Suc i"] by (simp add: unescaped_at_def)
  then show ?thesis
    unfolding has_control_def length_append ex_less_add by (auto simp: unescaped_at_append)
qed

lemma has_control_prefix: "has_control xs \<Longrightarrow> has_control (xs @ ys)"
  unfolding has_control_def length_append ex_less_add by (auto simp: unescaped_at_append)

text \<open>Without a token start the lexer stays where it is.\<close>

lemma no_starts:
  assumes "structural_chars ys = []" "n \<le> length ys"
  shows "lex_at Between ys n = Between" "all_ws (take n ys)"
proof -
  have s: "\<not> starts_at ys i" if "i < length ys" for i
    using assms(1) that by (auto simp: structural_chars_def token_starts_def filter_empty_conv)
  have "lex_at Between ys n = Between \<and> all_ws (take n ys)"
    using assms(2)
  proof (induction n)
    case (Suc n)
    then have "is_ws (ys ! n)" using s [of n] by (simp add: starts_at_def)
    then show ?case using Suc by (auto simp: lex_at_Suc take_Suc_conv_app_nth is_ws_def)
  qed simp
  then show "lex_at Between ys n = Between" "all_ws (take n ys)" by blast+
qed

lemma closed_chars_append: "ends_between xs \<Longrightarrow> closed_chars (xs @ ys) = structural_chars xs @ closed_chars ys"
proof -
  have "\<not> unclosed ys" if "structural_chars ys = []" using no_starts(1) [OF that, of "length ys"] by (simp add: unclosed_def)
  then show "ends_between xs \<Longrightarrow> closed_chars (xs @ ys) = structural_chars xs @ closed_chars ys"
    by (auto simp: closed_chars_def unclosed_append structural_chars_append butlast_append)
qed

text \<open>Whitespace.\<close>

lemma ws_lex: "all_ws ws \<Longrightarrow> foldl lex_step Between ws = Between"
  by (induction ws) (auto simp: is_ws_def)

lemma ws_text:
  assumes "all_ws ws"
  shows "ends_between ws" "token_starts ws (length ws) = []" "\<not> has_control ws" "\<not> unclosed ws" "\<forall>b \<in> set ws. b < 0x80"
proof -
  have l: "lex_at Between ws i = Between" for i
    using assms ws_lex [of "take i ws"] by (auto simp: lex_at_def dest: in_set_takeD)
  show "ends_between ws" "\<not> has_control ws" "\<not> unclosed ws"
    using l by (simp_all add: ends_between_def has_control_def unescaped_at_def unclosed_def)
  show "token_starts ws (length ws) = []" using l assms by (auto simp: token_starts_def filter_empty_conv starts_at_def)
  show "\<forall>b \<in> set ws. b < 0x80" using assms by (auto simp: is_ws_def)
qed

lemma ws_chars: "all_ws ws \<Longrightarrow> structural_chars ws = []" "all_ws ws \<Longrightarrow> closed_chars ws = []"
  using ws_text by (simp_all add: structural_chars_def closed_chars_def)

text \<open>Well-formed texts one after the other.\<close>

lemma utf8_valid_append: "utf8_valid xs \<Longrightarrow> utf8_valid (xs @ ys) = utf8_valid ys"
  by (induction xs rule: utf8_valid.induct) (auto split: if_splits list.splits)

lemma utf8_valid_ascii: "\<forall>b \<in> set xs. b < 0x80 \<Longrightarrow> utf8_valid xs"
  by (induction xs) auto


section \<open>Texts of documents\<close>

definition doc_text :: "(u8 \<times> jval) list \<Rightarrow> u8 list \<Rightarrow> bool" where
  "doc_text kvs d \<longleftrightarrow> structural_chars d = toks (Obj kvs) \<and> wf_jval (Obj kvs) \<and> (\<forall>kv \<in> set kvs. fst kv = 0x22) \<and>
    hd d = LBRACE \<and> last d = RBRACE \<and> \<not> unclosed d \<and> \<not> has_control d \<and> utf8_valid d"

lemma doc_nonempty: "doc_text kvs d \<Longrightarrow> d \<noteq> []"
  by (auto simp: doc_text_def structural_chars_def token_starts_def)

lemma lex_last:
  assumes "d \<noteq> []"
  shows "lex_at Between d (length d) = lex_step (lex_at Between d (length d - 1)) (last d)"
  using lex_at_Suc [of "length d - 1" d Between] assms by (simp add: last_conv_nth)

lemma doc_last:
  assumes "doc_text kvs d"
  shows "ends_between d" "starts_at d (length d - 1)"
proof -
  let ?s = "lex_at Between d (length d - 1)"
  have l: "lex_at Between d (length d) = lex_step ?s RBRACE" and u: "\<not> in_string_state (lex_step ?s RBRACE)"
    using assms doc_nonempty [OF assms] lex_last [of d] by (auto simp: doc_text_def unclosed_def)
  have op: "marked_op RBRACE" "\<not> is_ws RBRACE" by (simp_all add: marked_op_def is_op_def is_ws_def)
  show "ends_between d" using l u op by (cases ?s) (auto simp: ends_between_def split: if_splits)
  have "d ! (length d - 1) = RBRACE" using assms doc_nonempty [OF assms] by (simp add: doc_text_def last_conv_nth)
  then show "starts_at d (length d - 1)" using u op by (cases ?s) (auto simp: starts_at_def split: if_splits)
qed

text \<open>The part of a document in front of a cut: its tokens are a proper beginning of the document's.\<close>

lemma structural_chars_prefix:
  "structural_chars xs = take (length (structural_chars xs)) (structural_chars (xs @ ys))"
proof -
  have "token_starts (xs @ ys) (length xs + length ys) = token_starts xs (length xs) @
      map (\<lambda>i. length xs + i) (filter (\<lambda>i. starts_at (xs @ ys) (length xs + i)) [0..<length ys])"
    using token_starts_add [of "xs @ ys" "length xs" "length ys"] token_starts_append [of "length xs" xs ys] by simp
  moreover have "map ((!) (xs @ ys)) (token_starts xs (length xs)) = map ((!) xs) (token_starts xs (length xs))"
    using token_starts_bound(2) by (auto simp: nth_append)
  ultimately show ?thesis by (simp add: structural_chars_def)
qed

lemma doc_prefix:
  assumes "doc_text kvs (xs @ ys)" "ys \<noteq> []"
  shows "\<exists>k < length (toks (Obj kvs)). closed_chars xs = take k (toks (Obj kvs))"
proof -
  let ?d = "xs @ ys"
  have c: "structural_chars ?d = toks (Obj kvs)" using assms(1) by (simp add: doc_text_def)
  have st: "starts_at ?d (length ?d - 1)" by (rule doc_last(2) [OF assms(1)])
  let ?f = "filter (\<lambda>i. starts_at ?d (length xs + i)) [0..<length ys]"
  have "length xs + (length ys - 1) = length ?d - 1" "length ys - 1 < length ys" using assms(2) by (cases ys, auto)+
  then have "length ys - 1 \<in> set ?f" using st by (simp del: length_append)
  then have "0 < length ?f" by (metis length_pos_if_in_set)
  then have "length (token_starts xs (length xs)) < length (token_starts ?d (length ?d))"
    using token_starts_add [of ?d "length xs" "length ys"] token_starts_append [of "length xs" xs ys] by simp
  then have l: "length (structural_chars xs) < length (toks (Obj kvs))" unfolding c [symmetric] by (simp add: structural_chars_def)
  have p: "structural_chars xs = take (length (structural_chars xs)) (toks (Obj kvs))"
    using structural_chars_prefix [of xs ys] unfolding c .
  show ?thesis
  proof (cases "unclosed xs")
    case True
    then have "closed_chars xs = butlast (take (length (structural_chars xs)) (toks (Obj kvs)))"
      unfolding closed_chars_def using p by metis
    then show ?thesis using l by (intro exI [of _ "length (structural_chars xs) - 1"]) (simp add: butlast_take)
  qed (unfold closed_chars_def, use l p in \<open>metis\<close>)
qed

section \<open>Documents with whitespace between them\<close>

text \<open>A document with the whitespace in front of it.\<close>

type_synonym segment = "u8 list \<times> (u8 \<times> jval) list \<times> u8 list"

fun seg_text :: "segment \<Rightarrow> u8 list" where "seg_text (ws, kvs, d) = ws @ d"
fun seg_value :: "segment \<Rightarrow> jval" where "seg_value (ws, kvs, d) = Obj kvs"
fun seg_ok :: "segment \<Rightarrow> bool" where "seg_ok (ws, kvs, d) \<longleftrightarrow> all_ws ws \<and> doc_text kvs d"

definition body :: "segment list \<Rightarrow> u8 list" where "body segs = concat (map seg_text segs)"

lemma body_simps [simp]: "body [] = []" "body (s # segs) = seg_text s @ body segs" "body (xs @ ys) = body xs @ body ys"
  by (simp_all add: body_def)

lemma seg_facts:
  assumes "seg_ok s"
  shows "ends_between (seg_text s)" "structural_chars (seg_text s) = toks (seg_value s)" "\<not> unclosed (seg_text s)"
    "\<not> has_control (seg_text s)" "utf8_valid (seg_text s)" "wf_jval (seg_value s)" "seg_text s \<noteq> []" "last (seg_text s) = RBRACE"
proof -
  obtain ws kvs d where s: "s = (ws, kvs, d)" by (metis surj_pair)
  have ok: "all_ws ws" "doc_text kvs d" using assms s by simp_all
  note w = ws_text [OF ok(1)] ws_chars [OF ok(1)] utf8_valid_ascii [OF ws_text(5) [OF ok(1)]]
  note d = doc_last(1) [OF ok(2)] doc_nonempty [OF ok(2)] ok(2) [unfolded doc_text_def]
  show "ends_between (seg_text s)" "structural_chars (seg_text s) = toks (seg_value s)" "\<not> unclosed (seg_text s)"
    "\<not> has_control (seg_text s)" "utf8_valid (seg_text s)" "wf_jval (seg_value s)" "seg_text s \<noteq> []" "last (seg_text s) = RBRACE"
    using w d s by (simp_all add: ends_between_append structural_chars_append unclosed_append has_control_append utf8_valid_append del: toks.simps wf_jval.simps)
qed

lemma body_facts:
  assumes "\<forall>s \<in> set segs. seg_ok s"
  shows "ends_between (body segs)" "structural_chars (body segs) = concat (map toks (map seg_value segs))" "\<not> has_control (body segs)"
    "utf8_valid (body segs)"
  using assms
proof (induction segs)
  case Nil
  { case 1 then show ?case by (simp add: ends_between_def) next
    case 2 then show ?case by (simp add: structural_chars_def token_starts_def) next
    case 3 then show ?case by (simp add: has_control_def) next
    case 4 then show ?case by simp }
next
  case (Cons s segs)
  have "seg_ok s" if "\<forall>x \<in> set (s # segs). seg_ok x" using that by simp
  note f = seg_facts [OF this]
  { case 1 then show ?case using f(1) Cons.IH(1) by (simp add: ends_between_append) next
    case 2 then show ?case using f(1,2) Cons.IH(2) by (simp add: structural_chars_append) next
    case 3 then show ?case using f(1,4) Cons.IH(3) by (simp add: has_control_append) next
    case 4 then show ?case using f(5) Cons.IH(4) by (simp add: utf8_valid_append) }
qed

text \<open>Where a cut falls: into a segment or into the whitespace at the end.\<close>

lemma cut_body:
  assumes "t \<le> length (body segs @ trail)"
  obtains m r r' where "m \<le> length segs" "take t (body segs @ trail) = body (take m segs) @ r"
    "m < length segs \<Longrightarrow> seg_text (segs ! m) = r @ r' \<and> r' \<noteq> []" "m = length segs \<Longrightarrow> trail = r @ r'"
  using assms
proof (induction segs arbitrary: t thesis)
  case Nil
  show ?case by (rule Nil.prems(1) [of 0 "take t trail" "drop t trail"]) simp_all
next
  case (Cons s segs)
  show ?case
  proof (cases "t < length (seg_text s)")
    case True
    show ?thesis by (rule Cons.prems(1) [of 0 "take t (seg_text s)" "drop t (seg_text s)"]) (use True in simp_all)
  next
    case False
    let ?u = "t - length (seg_text s)"
    have "?u \<le> length (body segs @ trail)" using Cons.prems(2) False by simp
    then obtain m r r' where m: "m \<le> length segs" "take ?u (body segs @ trail) = body (take m segs) @ r"
      "m < length segs \<Longrightarrow> seg_text (segs ! m) = r @ r' \<and> r' \<noteq> []" "m = length segs \<Longrightarrow> trail = r @ r'"
      using Cons.IH by metis
    show ?thesis by (rule Cons.prems(1) [of "Suc m" r r']) (use m False in simp_all)
  qed
qed

text \<open>A cut at the end of a well-formed text is kept.\<close>

lemma pending_last:
  assumes "bs \<noteq> [] \<and> 0xC0 \<le> bs ! (length bs - 1) \<or> 2 \<le> length bs \<and> 0xE0 \<le> bs ! (length bs - 2) \<or>
    3 \<le> length bs \<and> 0xF0 \<le> bs ! (length bs - 3)"
  shows "pending_after 0 0 0 bs"
proof (cases "3 \<le> length bs")
  case True
  then show ?thesis using assms by (auto simp: pending_after_context context_after_long pending_def)
next
  case False
  then have "length bs = 0 \<or> length bs = Suc 0 \<or> length bs = Suc (Suc 0)" by arith
  then consider "bs = []" | a where "bs = [a]" | a b where "bs = [a, b]" unfolding length_Suc_conv by auto
  then show ?thesis using assms by cases (auto simp: pending_def byte_order)
qed

lemma trim_keeps:
  assumes "utf8_valid (take e xs)" "e \<le> len" "len \<le> length xs"
  shows "e \<le> trim_partial_utf8 xs len"
proof (rule ccontr)
  assume "\<not> e \<le> trim_partial_utf8 xs len"
  then have t: "trim_partial_utf8 xs len < e" by simp
  have np: "\<not> pending 0 0 0" by (simp add: pending_def byte_order)
  have v: "\<not> pending_after 0 0 0 (take e xs)" using accepts_valid [OF np] assms(1) unfolding accepts_def by blast
  have l: "length (take e xs) = e" using assms(2,3) by simp
  have up: "0xE0 \<le> b \<Longrightarrow> 0xC0 \<le> b" "0xF0 \<le> b \<Longrightarrow> 0xE0 \<le> b" "0xF0 \<le> b \<Longrightarrow> 0xC0 \<le> b" for b :: u8 by (auto simp: byte_order)
  let ?t = "trim_partial_utf8 xs len"
  consider "?t = len - 1" "0 < len" "0xC0 \<le> xs ! (len - 1)"
    | "?t = len - 2" "1 < len" "0xE0 \<le> xs ! (len - 2)"
    | "?t = len - 3" "2 < len" "0xF0 \<le> xs ! (len - 3)"
    using t assms(2) unfolding trim_partial_utf8_def by (simp split: if_split_asm)
  then have "e = ?t + 1 \<and> 0xC0 \<le> xs ! ?t \<or> e = ?t + 2 \<and> 0xE0 \<le> xs ! ?t \<or> e = ?t + 3 \<and> 0xF0 \<le> xs ! ?t"
  proof cases
    case 1
    then show ?thesis using t assms(2) by auto
  next
    case 2
    then have "e = ?t + 1 \<or> e = ?t + 2" using t assms(2) by arith
    then show ?thesis using 2 up by metis
  next
    case 3
    then have "e = ?t + 1 \<or> e = ?t + 2 \<or> e = ?t + 3" using t assms(2) by arith
    then show ?thesis using 3 up by metis
  qed
  then have "pending_after 0 0 0 (take e xs)"
    using l by (intro pending_last) auto
  then show False using v by blast
qed


section \<open>A window of a text of documents\<close>

text \<open>The documents that a window leaves to the next ones: the same ones, with less whitespace in front of the first.\<close>

definition leaves :: "segment list \<Rightarrow> segment list \<Rightarrow> bool" where
  "leaves segs segs' \<longleftrightarrow> (\<forall>s \<in> set segs'. seg_ok s) \<and> (segs = [] \<and> segs' = [] \<or>
    (\<exists>ws ws' kvs d rest. segs = (ws @ ws', kvs, d) # rest \<and> segs' = (ws', kvs, d) # rest))"

lemma leaves_drop:
  assumes "\<forall>s \<in> set segs. seg_ok s" "m < length segs" "segs ! m = (ws @ ws', kvs, d)"
  shows "leaves (drop m segs) ((ws', kvs, d) # drop (Suc m) segs)"
proof -
  have "drop m segs = (ws @ ws', kvs, d) # drop (Suc m) segs" using assms(2,3) by (simp add: Cons_nth_drop_Suc [symmetric])
  moreover have "seg_ok (ws @ ws', kvs, d)" using assms nth_mem by metis
  ultimately show ?thesis using assms(1) by (auto simp: leaves_def dest: in_set_dropD)
qed

lemma leaves_none: "leaves [] []"
  by (simp add: leaves_def)

text \<open>What is left behind the documents of a window that ends inside of segment \<open>m\<close>, or of the whitespace at the end.\<close>

lemma next_window:
  assumes ok: "\<forall>s \<in> set segs. seg_ok s" "all_ws trail" and m: "m \<le> length segs"
    and cut: "take t (body segs @ trail) = body (take m segs) @ r" "t \<le> length (body segs @ trail)"
      "m < length segs \<Longrightarrow> seg_text (segs ! m) = r @ r' \<and> r' \<noteq> []" "m = length segs \<Longrightarrow> trail = r @ r'"
  defines "bs \<equiv> body (take m segs) @ r" and "D \<equiv> length (concat (map toks (map seg_value (take m segs))))"
  defines "T \<equiv> token_starts bs (length bs)"
  defines "nxt \<equiv> (if D < length T then T ! D else t)"
  shows "\<exists>segs' trail'. leaves (drop m segs) segs' \<and> all_ws trail' \<and> length trail' \<le> length trail \<and>
    drop nxt (body segs @ trail) = body segs' @ trail' \<and> nxt \<le> length (body segs @ trail) \<and> length (body (take m segs)) \<le> nxt \<and>
    (segs' \<noteq> [] \<longrightarrow> nxt + length (body segs') = length (body segs))"
proof -
  let ?pre = "body (take m segs)"
  have pre: "\<forall>s \<in> set (take m segs). seg_ok s" using ok(1) by (auto dest: in_set_takeD)
  note b = body_facts [OF pre]
  have tb: "length bs = t" using cut(1,2) unfolding bs_def by (metis length_take min.absorb2)
  have T: "T = token_starts ?pre (length ?pre) @ map (\<lambda>i. length ?pre + i) (token_starts r (length r))"
    using token_starts_after [OF b(1), of r "length r"] by (simp add: T_def bs_def)
  have lD: "length (token_starts ?pre (length ?pre)) = D"
    using arg_cong [OF b(2), of length] by (simp add: structural_chars_def D_def comp_def)
  have body: "body segs = ?pre @ body (drop m segs)" by (metis append_take_drop_id body_simps(3))
  show ?thesis
  proof (cases "m < length segs")
    case False
    then have all: "m = length segs" "trail = r @ r'" using m cut(4) by simp_all
    then have "token_starts r (length r) = []" using ws_text(2) ok(2) by simp
    then have "nxt = t" using T lD by (simp add: nxt_def)
    moreover have "t = length ?pre + length r" using tb by (simp add: bs_def)
    moreover have "body segs @ trail = ?pre @ r @ r'" using all by simp
    moreover have "all_ws r'" using all(2) ok(2) by simp
    ultimately show ?thesis using all by (intro exI [of _ "[]"] exI [of _ r']) (simp add: leaves_none)
  next
    case True
    obtain ws kvs d where s: "segs ! m = (ws, kvs, d)" by (metis surj_pair)
    have sok: "all_ws ws" "doc_text kvs d" using ok(1) nth_mem [OF True] s by (metis seg_ok.simps)+
    have r: "ws @ d = r @ r'" "r' \<noteq> []" using cut(3) [OF True] s by simp_all
    have ds: "drop m segs = (ws, kvs, d) # drop (Suc m) segs" using True s by (simp add: Cons_nth_drop_Suc [symmetric])
    have whole: "body segs @ trail = ?pre @ ws @ d @ body (drop (Suc m) segs) @ trail" by (simp add: body ds)
    show ?thesis
    proof (cases "length r \<le> length ws")
      case True
      then obtain ws' where ws: "ws = r @ ws'" using arg_cong [OF r(1), of "take (length r)"] by (metis append_take_drop_id append_Nil2 append_eq_conv_conj diff_is_0_eq take0 take_append)
      then have "token_starts r (length r) = []" using ws_text(2) sok(1) by simp
      then have n: "nxt = t" "t = length ?pre + length r" using T lD tb by (simp_all add: nxt_def bs_def)
      show ?thesis
        using leaves_drop [OF ok(1) \<open>m < length segs\<close> s [unfolded ws]] ok(2) whole ws n
        by (intro exI [of _ "(ws', kvs, d) # drop (Suc m) segs"] exI [of _ trail]) auto
    next
      case False
      then have "r = ws @ take (length r - length ws) d" "d = take (length r - length ws) d @ r'" "take (length r - length ws) d \<noteq> []"
        using arg_cong [OF r(1), of "take (length r)"] arg_cong [OF r(1), of "drop (length r)"]
          append_take_drop_id [of "length r - length ws" d] doc_nonempty [OF sok(2)] by simp_all
      then obtain d' where d': "r = ws @ d'" "d' \<noteq> []" "d = d' @ r'" by metis
      have "hd d' = LBRACE" using d' sok(2) doc_nonempty [OF sok(2)] by (simp add: doc_text_def)
      then have st: "starts_at d' 0" using d'(2) by (simp add: starts_at_def hd_conv_nth [symmetric] is_ws_def)
      have "token_starts d' (length d') = 0 # tl (token_starts d' (length d'))"
        using st d'(2) by (simp add: token_starts_def upt_conv_Cons del: upt_Suc)
      then have "token_starts r (length r) = length ws # map (\<lambda>i. length ws + i) (tl (token_starts d' (length d')))"
        using token_starts_after [OF ws_text(1) [OF sok(1)], of d' "length d'"] ws_text(2) [OF sok(1)] d'(1) by (simp, metis add.right_neutral list.simps(9))
      then have n: "nxt = length ?pre + length ws" using T lD by (simp add: nxt_def nth_append)
      have "leaves (drop m segs) (([], kvs, d) # drop (Suc m) segs)"
        using leaves_drop [OF ok(1) \<open>m < length segs\<close>, of ws "[]"] s by simp
      then show ?thesis using ok(2) whole n
        by (intro exI [of _ "([], kvs, d) # drop (Suc m) segs"] exI [of _ trail]) auto
    qed
  qed
qed

lemma trim_cong: "len \<le> L \<Longrightarrow> trim_partial_utf8 (take L buf) len = trim_partial_utf8 buf len"
  by (simp add: trim_partial_utf8_def)

lemma cut_prefix_fits:
  assumes "\<forall>s \<in> set segs. seg_ok s" "segs \<noteq> []" "length (seg_text (hd segs)) \<le> len" "len \<le> length buf"
    "take (length (body segs @ trail)) buf = body segs @ trail"
  shows "length (seg_text (hd segs)) \<le> trim_partial_utf8 buf len"
proof (rule trim_keeps [OF _ assms(3,4)])
  obtain s ss where s: "segs = s # ss" using assms(2) by (cases segs) auto
  have "take (length (seg_text s)) buf = take (length (seg_text s)) (take (length (body segs @ trail)) buf)"
    using s by (simp add: min.absorb1)
  also have "\<dots> = seg_text s" unfolding assms(5) using s by simp
  finally show "utf8_valid (take (length (seg_text (hd segs))) buf)" using assms(1) s seg_facts(5) [of s] by simp
qed

text \<open>Stage 1 on a window into which the first document fits: the indexes of all complete documents, and the start of the
  next window.\<close>

lemma window_documents:
  assumes ok: "\<forall>s \<in> set segs. seg_ok s" "all_ws trail" "segs \<noteq> []"
    and fit: "length (seg_text (hd segs)) \<le> len" "len \<le> length (body segs @ trail)"
    and buf: "take (length (body segs @ trail)) buf = body segs @ trail" "length (body segs @ trail) \<le> length buf"
    and ready: "parser_ready p" "len \<le> dp_capacity p"
    and mode: "partial = streaming_partial \<or> partial = streaming_final \<and> len = length (body segs @ trail)"
  obtains p' m segs' trail' nxt where "stage1 p buf len partial = Some (SUCCESS, p')" "parser_ready p'" "dp_capacity p' = dp_capacity p"
    "0 < m" "m \<le> length segs" "unat (n_structural_indexes p') = length (concat (map toks (map seg_value (take m segs))))"
    "take (unat (n_structural_indexes p')) (structural_indexes p') =
      map of_nat (token_starts (body (take m segs)) (length (body (take m segs))))"
    "unat (n_structural_indexes p') + 1 < length (structural_indexes p')"
    "structural_indexes p' ! unat (n_structural_indexes p') = of_nat nxt" "nxt \<le> len" "length (body (take m segs)) \<le> nxt"
    "leaves (drop m segs) segs'" "all_ws trail'" "length trail' \<le> length trail" "drop nxt (body segs @ trail) = body segs' @ trail'"
    "segs' \<noteq> [] \<longrightarrow> nxt + length (body segs') = length (body segs)"
proof -
  let ?W = "body segs @ trail" and ?t = "trim_partial_utf8 buf len"
  have whole: "utf8_valid ?W" "\<not> has_control ?W"
    using body_facts [OF ok(1)] ws_text [OF ok(2)] utf8_valid_ascii [OF ws_text(5) [OF ok(2)]]
    by (simp_all add: utf8_valid_append has_control_append)
  have lb: "len \<le> length buf" using fit(2) buf(2) by simp
  have t: "length (seg_text (hd segs)) \<le> ?t" "?t \<le> len" "?t \<le> length ?W"
    using cut_prefix_fits [OF ok(1,3) fit(1) lb buf(1)] trim_bounds(1) [of buf len] fit(2) by simp_all
  have "seg_text (hd segs) \<noteq> []" using ok(1,3) seg_facts(7) [of "hd segs"] by simp
  then have pos: "0 < ?t" using t(1) by (cases "seg_text (hd segs)") simp_all
  have tk: "take ?t buf = take ?t ?W" using t(3) by (metis buf(1) min.absorb1 take_take)
  have "trim_partial_utf8 ?W len = ?t" using trim_cong [OF fit(2), of buf] buf(1) by simp
  then have valid: "utf8_valid (take ?t buf)" using trim_partial_utf8_valid [OF whole(1) fit(2)] tk by simp
  have ctrl: "\<not> has_control (take ?t buf)"
    using whole(2) has_control_prefix [of "take ?t ?W" "drop ?t ?W"] tk by (metis append_take_drop_id)
  have fin: "?t = length ?W" if "partial = streaming_final"
  proof -
    have "len = length ?W" using that mode by auto
    moreover have "len \<le> ?t" by (rule trim_keeps) (use whole(1) buf lb \<open>len = length ?W\<close> in simp_all)
    ultimately show ?thesis using t(2) by simp
  qed
  obtain m r r' where m: "m \<le> length segs" "take ?t ?W = body (take m segs) @ r"
    "m < length segs \<Longrightarrow> seg_text (segs ! m) = r @ r' \<and> r' \<noteq> []" "m = length segs \<Longrightarrow> trail = r @ r'"
    using cut_body [OF t(3)] by metis
  have pre: "\<forall>s \<in> set (take m segs). seg_ok s" using ok(1) by (auto dest: in_set_takeD)
  note b = body_facts [OF pre]
  have lr: "length (body (take m segs)) + length r = ?t" using arg_cong [OF m(2), of length] t(3) by (simp add: min.absorb2)
  have m0: "0 < m"
  proof (rule ccontr)
    assume "\<not> 0 < m"
    then have "seg_text (hd segs) = r @ r' \<and> r' \<noteq> []" using m(3) ok(3) by (simp add: hd_conv_nth)
    then have "length r < length (seg_text (hd segs))" by (cases r') auto
    then show False using lr t(1) \<open>\<not> 0 < m\<close> by simp
  qed
  have "\<exists>k v. wf_jval v \<and> k < length (toks v) \<and> closed_chars r = take k (toks v)"
  proof (cases "m < length segs")
    case False
    then have "closed_chars r = []" using m(1,4) ok(2) ws_chars(2) [of r] by simp
    then show ?thesis by (intro exI [of _ 0] exI [of _ "Scalar 0x30"]) (simp add: op_char_def)
  next
    case True
    obtain ws kvs d where s: "segs ! m = (ws, kvs, d)" by (metis surj_pair)
    have sok: "all_ws ws" "doc_text kvs d" using ok(1) nth_mem [OF True] s by (metis seg_ok.simps)+
    have r: "ws @ d = r @ r'" "r' \<noteq> []" using m(3) [OF True] s by simp_all
    have wf: "wf_jval (Obj kvs)" using sok(2) unfolding doc_text_def by blast
    show ?thesis
    proof (cases "length r \<le> length ws")
      case True
      then have "r = take (length r) ws" using arg_cong [OF r(1), of "take (length r)"] by simp
      then have "all_ws r" using sok(1) by (metis in_set_takeD)
      then show ?thesis using ws_chars(2) [of r] wf by (intro exI [of _ 0] exI [of _ "Obj kvs"]) simp
    next
      case False
      then have "r = ws @ take (length r - length ws) d" "d = take (length r - length ws) d @ r'"
        using arg_cong [OF r(1), of "take (length r)"] arg_cong [OF r(1), of "drop (length r)"] append_take_drop_id [of "length r - length ws" d]
        by simp_all
      then obtain d' where d': "r = ws @ d'" "d = d' @ r'" by metis
      obtain k where "k < length (toks (Obj kvs))" "closed_chars d' = take k (toks (Obj kvs))"
        using doc_prefix [of kvs d' r'] sok(2) d'(2) r(2) by auto
      then show ?thesis using wf closed_chars_append [OF ws_text(1) [OF sok(1)], of d'] ws_chars(1) [OF sok(1)] d'(1)
        by (intro exI [of _ k] exI [of _ "Obj kvs"]) simp
    qed
  qed
  then obtain k v where v: "wf_jval v" "k < length (toks v)" "closed_chars r = take k (toks v)" by blast
  let ?docs = "map seg_value (take m segs)"
  let ?D = "length (concat (map toks ?docs))"
  have cc: "closed_chars (take ?t buf) = concat (map toks ?docs) @ take k (toks v)"
    unfolding tk m(2) closed_chars_append [OF b(1)] b(2) v(3) by simp
  have docs: "?docs \<noteq> []" "\<forall>d \<in> set ?docs. wf_jval d" using m0 ok(3) pre seg_facts(6) by auto
  have md: "partial \<noteq> regular" using mode by auto
  obtain p' where p': "stage1 p buf len partial = Some (SUCCESS, p')" "unat (n_structural_indexes p') = ?D"
    "take ?D (structural_indexes p') = map of_nat (take ?D (token_starts (take ?t buf) ?t))"
    "parser_ready p'" "dp_capacity p' = dp_capacity p" "?D + 1 < length (structural_indexes p')"
    "structural_indexes p' ! ?D = (if partial \<noteq> streaming_final \<and> ?D < length (token_starts (take ?t buf) ?t)
      then of_nat (token_starts (take ?t buf) ?t ! ?D) else of_nat ?t)"
    using stage1_window [OF ready(1) _ ready(2) lb md refl pos ctrl valid cc docs v(1,2)] pos t(2) by auto
  let ?bs = "body (take m segs) @ r"
  let ?T = "token_starts ?bs (length ?bs)"
  have bs: "take ?t buf = ?bs" "length ?bs = ?t" using tk m(2) lr by simp_all
  have lD: "length (token_starts (body (take m segs)) (length (body (take m segs)))) = ?D"
    using arg_cong [OF b(2), of length] by (simp add: structural_chars_def)
  have "?T = token_starts (body (take m segs)) (length (body (take m segs))) @
      map (\<lambda>i. length (body (take m segs)) + i) (token_starts r (length r))"
    using token_starts_after [OF b(1), of r "length r"] by simp
  then have T: "take ?D ?T = token_starts (body (take m segs)) (length (body (take m segs)))" using lD by simp
  have TT: "token_starts (take ?t buf) ?t = ?T" by (simp only: bs)
  define nxt where "nxt = (if ?D < length ?T then ?T ! ?D else ?t)"
  obtain segs' trail' where n: "leaves (drop m segs) segs'" "all_ws trail'" "length trail' \<le> length trail"
    "drop nxt ?W = body segs' @ trail'" "length (body (take m segs)) \<le> nxt"
    "segs' \<noteq> [] \<longrightarrow> nxt + length (body segs') = length (body segs)"
    using next_window [OF ok(1,2) m(1,2) t(3) m(3,4)] unfolding nxt_def by blast
  have nt: "nxt \<le> ?t" using token_starts_bound(2) [of "?T ! ?D" ?bs "length ?bs"] bs(2) by (auto simp: nxt_def)
  have "nxt = ?t" if "partial = streaming_final"
  proof -
    have "m = length segs"
    proof (rule ccontr)
      assume "m \<noteq> length segs"
      then have lt: "m < length segs" using m(1) by simp
      have "body segs = body (take m segs) @ seg_text (segs ! m) @ body (drop (Suc m) segs)"
        by (metis append_take_drop_id body_simps(2,3) Cons_nth_drop_Suc [OF lt])
      then have "length (body (take m segs)) + length (seg_text (segs ! m)) \<le> length ?W" by simp
      moreover have "length r < length (seg_text (segs ! m))" using m(3) [OF lt] by (cases r') auto
      ultimately show False using lr fin [OF that] by simp
    qed
    then have "token_starts r (length r) = []" using m(4) ok(2) ws_text(2) [of r] by simp
    then have "length ?T = ?D" using \<open>?T = _\<close> lD by simp
    then show ?thesis by (simp add: nxt_def)
  qed
  then have "structural_indexes p' ! ?D = of_nat nxt" using p'(7) unfolding TT by (auto simp: nxt_def)
  then show thesis
    using p'(1-6) m0 m(1) n nt t(2) T unfolding TT by (intro that [of p' m nxt segs' trail']) simp_all
qed

lemma window_empty:
  assumes ws: "all_ws trail" "trail \<noteq> []" and buf: "take (length trail) buf = trail" "length trail \<le> length buf"
    and ready: "parser_ready p" "length trail \<le> dp_capacity p" and mode: "is_streaming partial"
  obtains p' where "stage1 p buf (length trail) partial = Some (EMPTY, p')" "parser_ready p'" "dp_capacity p' = dp_capacity p"
    "n_structural_indexes p' = 0" "structural_indexes p' \<noteq> []" "structural_indexes p' ! 0 = of_nat (length trail)"
proof -
  let ?p = "p\<lparr>dp_buf := buf, dp_len := length trail\<rparr>"
  have "length trail \<le> trim_partial_utf8 buf (length trail)"
    by (rule trim_keeps) (use buf utf8_valid_ascii [OF ws_text(5) [OF ws(1)]] in simp_all)
  then have t: "trim_partial_utf8 buf (length trail) = length trail" using trim_bounds(1) [of buf "length trail"] by simp
  have r: "parser_ready ?p" "length trail \<le> dp_capacity ?p" using ready by (simp_all add: parser_ready_def)
  have l: "0 < length trail" using ws(2) by simp
  obtain m where m: "length m = length (structural_indexes p)"
    "indexed trail (?p\<lparr>structural_indexes := m, n_structural_indexes := 0, next_structural_index := 0\<rparr>)"
    "stage1 p buf (length trail) partial =
      Some (EMPTY, ?p\<lparr>structural_indexes := m, n_structural_indexes := 0, next_structural_index := 0\<rparr>)"
    using indexer_index_spec [OF r(1) l r(2) buf(2), of "length trail" partial] t l ws_text [OF ws(1)] buf(1) mode
    by (auto simp: stage1_def is_streaming_def Let_def)
  have "take 3 m = [of_nat (length trail), of_nat (length trail), 0]" using m(2) ws_text(2) [OF ws(1)] by (simp add: indexed_def Let_def)
  then have "m \<noteq> []" "m ! 0 = of_nat (length trail)" by (cases m, simp_all)+
  then show thesis using that [OF m(3)] m(1) ready(1) by (simp add: parser_ready_def)
qed

end
