(* ===== verification/Simd_Stream.thy ===== *)
theory Simd_Stream
  imports Simd_Lookups External_Interfaces
begin

text \<open>
  The document stream of \<^verbatim>\<open>simdjson\<close> (\<^verbatim>\<open>document_stream-inl.h\<close>) and the loops over it of the query ingester and the exporter.
  The stream cuts the text into batches, runs stage 1 on each, and moves one document after the other to the front of its
  iterator. With a thread the next batch is indexed in the background, by a second parser that is swapped in when the
  batch is needed: \<open>worker_step\<close> is the round of that thread, and waiting for it means that the round has been made.
\<close>

section \<open>Construction\<close>

record document_stream =
  ds_parser :: dom_parser_implementation
  ds_buf :: "u8 list"
  ds_len :: nat
  ds_batch_size :: nat
  ds_comma_separated :: bool
  ds_iter :: json_iterator
  ds_error :: error_code
  ds_batch_start :: nat
  ds_doc_index :: nat
  ds_use_thread :: bool
  ds_thread_error :: error_code
  ds_thread_parser :: dom_parser_implementation
  ds_work :: "nat option"

definition MINIMAL_BATCH_SIZE :: nat where "MINIMAL_BATCH_SIZE = 32"
definition DEFAULT_BATCH_SIZE :: nat where "DEFAULT_BATCH_SIZE = 1000000"

text \<open>An iterator without a parser, and the one at the beginning of a window.\<close>

definition no_iterator :: json_iterator where
  "no_iterator = \<lparr>ji_buf = [], ji_indexes = [], ji_n = 0, ji_pos = 0, ji_depth = 0, ji_error = SUCCESS, ji_root = 0,
     ji_streaming = False, ji_alive = False\<rparr>"

definition json_iterator_new :: "u8 list \<Rightarrow> dom_parser_implementation \<Rightarrow> json_iterator" where
  "json_iterator_new buf p = \<lparr>ji_buf = buf, ji_indexes = structural_indexes p, ji_n = unat (n_structural_indexes p), ji_pos = 0,
     ji_depth = 1, ji_error = SUCCESS, ji_root = 0, ji_streaming = False, ji_alive = True\<rparr>"

definition document_stream_new ::
  "bool \<Rightarrow> dom_parser_implementation \<Rightarrow> dom_parser_implementation \<Rightarrow> u8 list \<Rightarrow> nat \<Rightarrow> nat \<Rightarrow> bool \<Rightarrow> document_stream" where
  "document_stream_new threaded parser thread_parser buf len batch_size comma_separated =
    \<lparr>ds_parser = parser, ds_buf = buf, ds_len = len,
     ds_batch_size = (if batch_size \<le> MINIMAL_BATCH_SIZE then MINIMAL_BATCH_SIZE else batch_size),
     ds_comma_separated = comma_separated, ds_iter = no_iterator, ds_error = SUCCESS, ds_batch_start = 0, ds_doc_index = 0,
     ds_use_thread = threaded, ds_thread_error = UNINITIALIZED, ds_thread_parser = thread_parser, ds_work = None\<rparr>"

text \<open>A byte order mark in front of the text is skipped.\<close>

definition bom :: "u8 list" where "bom = [0xEF, 0xBB, 0xBF]"

definition bom_length :: "u8 list \<Rightarrow> nat \<Rightarrow> nat" where
  "bom_length buf len = (if len \<ge> 3 \<and> take 3 buf = bom then 3 else 0)"

definition iterate_many ::
  "bool \<Rightarrow> dom_parser_implementation \<Rightarrow> dom_parser_implementation \<Rightarrow> u8 list \<Rightarrow> nat \<Rightarrow> nat \<Rightarrow> bool \<Rightarrow> document_stream" where
  "iterate_many threaded parser thread_parser buf len batch_size comma_separated =
    (let batch_size = (if batch_size < MINIMAL_BATCH_SIZE then MINIMAL_BATCH_SIZE else batch_size);
         skip = bom_length buf len;
         buf = drop skip buf;
         len = len - skip;
         batch_size = (if comma_separated \<and> batch_size < len then len else batch_size)
     in document_stream_new threaded parser thread_parser buf len batch_size comma_separated)"

text \<open>\<open>allocate\<close> of a parser. The string buffer is left out: it is there whenever the capacity is not zero.\<close>

definition parser_allocate ::
  "(nat \<Rightarrow> u32 list option) \<Rightarrow> nat \<Rightarrow> dom_parser_implementation \<Rightarrow> error_code \<times> dom_parser_implementation" where
  "parser_allocate alloc new_capacity p =
    (if new_capacity > SIMDJSON_MAXSIZE_BYTES then (CAPACITY, p)
     else if new_capacity = dp_capacity p then (SUCCESS, p)
     else set_capacity alloc new_capacity p)"

section \<open>Batches\<close>

definition next_batch_start :: "document_stream \<Rightarrow> nat option" where
  "next_batch_start ds = do {
     i \<leftarrow> load (structural_indexes (ds_parser ds)) (unat (n_structural_indexes (ds_parser ds)));
     Some (ds_batch_start ds + unat i) }"

definition run_stage1 :: "document_stream \<Rightarrow> dom_parser_implementation \<Rightarrow> nat \<Rightarrow> (error_code \<times> dom_parser_implementation) option" where
  "run_stage1 ds p batch_start =
    (let remaining = ds_len ds - batch_start
     in if remaining \<le> ds_batch_size ds then stage1 p (drop batch_start (ds_buf ds)) remaining streaming_final
        else stage1 p (drop batch_start (ds_buf ds)) (ds_batch_size ds) streaming_partial)"

definition run_stage1_main :: "document_stream \<Rightarrow> document_stream option" where
  "run_stage1_main ds = do {
     (e, p) \<leftarrow> run_stage1 ds (ds_parser ds) (ds_batch_start ds);
     Some (ds\<lparr>ds_error := e, ds_parser := p\<rparr>) }"

text \<open>The thread: a round of its loop, starting it on the next batch, and taking over its result.\<close>

definition worker_step :: "document_stream \<Rightarrow> document_stream option" where
  "worker_step ds =
    (case ds_work ds of
       None \<Rightarrow> Some ds
     | Some start \<Rightarrow> do {
         (e, p) \<leftarrow> run_stage1 ds (ds_thread_parser ds) start;
         Some (ds\<lparr>ds_thread_error := e, ds_thread_parser := p, ds_work := None\<rparr>) })"

definition start_stage1_thread :: "document_stream \<Rightarrow> document_stream option" where
  "start_stage1_thread ds = do {
     start \<leftarrow> next_batch_start ds;
     Some (ds\<lparr>ds_thread_error := UNINITIALIZED, ds_work := Some start\<rparr>) }"

definition load_from_stage1_thread :: "document_stream \<Rightarrow> document_stream option" where
  "load_from_stage1_thread ds = do {
     ds \<leftarrow> worker_step ds;
     let ds = ds\<lparr>ds_thread_parser := ds_parser ds, ds_parser := ds_thread_parser ds, ds_error := ds_thread_error ds\<rparr>;
     if ds_error ds \<noteq> SUCCESS then Some ds
     else do {
       start \<leftarrow> next_batch_start ds;
       if start < ds_len ds then start_stage1_thread ds else Some ds } }"

text \<open>The iterator is anchored at the beginning of the window again.\<close>

definition anchor :: "document_stream \<Rightarrow> document_stream" where
  "anchor ds = ds\<lparr>ds_iter := (json_iterator_new (drop (ds_batch_start ds) (ds_buf ds)) (ds_parser ds))\<lparr>ji_streaming := True\<rparr>\<rparr>"

section \<open>From document to document\<close>

text \<open>The loop of \<open>start\<close> over empty batches; the Boolean says that the text is over.\<close>

partial_function (option) start_loop :: "document_stream \<Rightarrow> (bool \<times> document_stream) option" where
  "start_loop ds =
    (if ds_error ds = EMPTY
     then do {
       start \<leftarrow> next_batch_start ds;
       let ds = ds\<lparr>ds_batch_start := start\<rparr>;
       if start \<ge> ds_len ds then Some (True, ds)
       else do { ds \<leftarrow> run_stage1_main ds; start_loop ds } }
     else Some (False, ds))"

definition ds_start :: "(nat \<Rightarrow> u32 list option) \<Rightarrow> document_stream \<Rightarrow> document_stream option" where
  "ds_start alloc ds =
    (if ds_error ds \<noteq> SUCCESS then Some ds
     else let (e, p) = parser_allocate alloc (ds_batch_size ds) (ds_parser ds); ds = ds\<lparr>ds_error := e, ds_parser := p\<rparr>
          in if e \<noteq> SUCCESS then Some ds
             else do {
               ds \<leftarrow> run_stage1_main (ds\<lparr>ds_batch_start := 0\<rparr>);
               (over, ds) \<leftarrow> start_loop ds;
               if over \<or> ds_error ds \<noteq> SUCCESS then Some ds
               else do {
                 let ds = anchor (ds\<lparr>ds_doc_index := ds_batch_start ds\<rparr>);
                 if \<not> ds_use_thread ds then Some ds
                 else do {
                   start \<leftarrow> next_batch_start ds;
                   if start < ds_len ds then
                     (let (e, p) = parser_allocate alloc (ds_batch_size ds) (ds_thread_parser ds);
                          ds = ds\<lparr>ds_error := e, ds_thread_parser := p\<rparr>
                      in if e \<noteq> SUCCESS then Some ds else start_stage1_thread ds)
                   else Some ds } } })"

definition consume_character :: "json_iterator \<Rightarrow> u8 \<Rightarrow> (error_code \<times> json_iterator) option" where
  "consume_character ji c = do {
     b \<leftarrow> char_at ji (ji_pos ji);
     if b = c then do { (off, ji) \<leftarrow> return_current_and_advance ji; Some (SUCCESS, ji) } else Some (TAPE_ERROR, ji) }"

definition next_document :: "document_stream \<Rightarrow> document_stream option" where
  "next_document ds = do {
     (e, ji) \<leftarrow> ji_skip_child (ds_iter ds) 0;
     let ds = ds\<lparr>ds_error := e, ds_iter := ji\<rparr>;
     if e \<noteq> SUCCESS then Some ds
     else do {
       let ji = ji\<lparr>ji_depth := 1\<rparr>;
       (ignored, ji) \<leftarrow> (if ds_comma_separated ds then consume_character ji COMMA else Some (SUCCESS, ji));
       Some (ds\<lparr>ds_iter := ji\<lparr>ji_root := ji_pos ji\<rparr>\<rparr>) } }"

text \<open>The loop of \<open>next\<close> that loads another batch, if there is one.\<close>

partial_function (option) load_loop :: "document_stream \<Rightarrow> document_stream option" where
  "load_loop ds =
    (if ds_error ds = EMPTY
     then do {
       start \<leftarrow> next_batch_start ds;
       let ds = ds\<lparr>ds_batch_start := start\<rparr>;
       if start \<ge> ds_len ds then Some ds
       else do {
         ds \<leftarrow> (if ds_use_thread ds then load_from_stage1_thread ds else run_stage1_main ds);
         let ds = anchor ds;
         load_loop (if ds_error ds \<noteq> SUCCESS then ds else ds\<lparr>ds_doc_index := ds_batch_start ds\<rparr>) } }
     else Some ds)"

definition ds_next :: "document_stream \<Rightarrow> document_stream option" where
  "ds_next ds =
    (if ds_error ds \<noteq> SUCCESS then Some ds
     else do {
       ds \<leftarrow> next_document ds;
       if ds_error ds \<noteq> SUCCESS then Some ds
       else do {
         let cur_struct_index = ji_root (ds_iter ds);
         i \<leftarrow> load (structural_indexes (ds_parser ds)) cur_struct_index;
         let ds = ds\<lparr>ds_doc_index := ds_batch_start ds + unat i\<rparr>;
         if cur_struct_index \<ge> unat (n_structural_indexes (ds_parser ds)) then load_loop (ds\<lparr>ds_error := EMPTY\<rparr>)
         else Some ds } })"

text \<open>\<open>operator++\<close>: the stream and whether the iterator is at its end.\<close>

definition ds_increment :: "document_stream \<Rightarrow> bool \<Rightarrow> (document_stream \<times> bool) option" where
  "ds_increment ds finished = do {
     let finished = (finished \<or> ds_error ds \<noteq> SUCCESS);
     ds \<leftarrow> ds_next ds;
     Some (ds, finished \<or> ds_error ds = EMPTY) }"

section \<open>Loops over the documents\<close>

text \<open>\<open>for (auto doc_res : docs)\<close>: \<open>body start doc\<close> reads a document, whose window starts at \<open>start\<close>; a document that
  comes with an error is skipped.\<close>

partial_function (option) stream_items_from ::
  "(nat \<Rightarrow> json_iterator \<Rightarrow> (log_doc \<times> json_iterator) option) \<Rightarrow> document_stream \<Rightarrow> bool \<Rightarrow> stream_item list option" where
  "stream_items_from body ds finished =
    (if finished then Some []
     else do {
       (item, ds) \<leftarrow> (if ds_error ds \<noteq> SUCCESS then Some (DocError, ds)
                     else do { (d, ji) \<leftarrow> body (ds_batch_start ds) (ds_iter ds); Some (Doc d, ds\<lparr>ds_iter := ji\<rparr>) });
       (ds, finished) \<leftarrow> ds_increment ds finished;
       items \<leftarrow> stream_items_from body ds finished;
       Some (item # items) })"

definition stream_items ::
  "(nat \<Rightarrow> json_iterator \<Rightarrow> (log_doc \<times> json_iterator) option) \<Rightarrow> (nat \<Rightarrow> u32 list option) \<Rightarrow> document_stream \<Rightarrow> stream_item list option" where
  "stream_items body alloc ds = do { ds \<leftarrow> ds_start alloc ds; stream_items_from body ds (ds_error ds = EMPTY) }"

text \<open>The bodies of the two loops: the query ingester reads the two numbers, the exporter asks for the text first, whose
  place it counts from the beginning of the file, with the \<open>skipped\<close> bytes of a byte order mark.\<close>

definition ascii :: "string \<Rightarrow> u8 list" where "ascii s = map of_char s"

definition numbers_of :: "json_iterator \<Rightarrow> ((u64 option \<times> u64 option) \<times> json_iterator) option" where
  "numbers_of ji = do {
     (status_res, ji) \<leftarrow> document_uint64 ji (ascii ''status'');
     (latency_res, ji) \<leftarrow> document_uint64 ji (ascii ''latency'');
     Some ((case status_res of Inl e \<Rightarrow> None | Inr v \<Rightarrow> Some v, case latency_res of Inl e \<Rightarrow> None | Inr v \<Rightarrow> Some v), ji) }"

definition query_body :: "nat \<Rightarrow> json_iterator \<Rightarrow> (log_doc \<times> json_iterator) option" where
  "query_body start ji = do {
     ((s, l), ji) \<leftarrow> numbers_of ji;
     Some (\<lparr>raw_offset = None, status_field = s, latency_field = l\<rparr>, ji) }"

definition export_body :: "nat \<Rightarrow> nat \<Rightarrow> json_iterator \<Rightarrow> (log_doc \<times> json_iterator) option" where
  "export_body skipped start ji = do {
     (raw_res, ji) \<leftarrow> raw_json ji;
     ((s, l), ji) \<leftarrow> numbers_of ji;
     Some (\<lparr>raw_offset = (case raw_res of Inl e \<Rightarrow> None | Inr (off, n) \<Rightarrow> if n = 0 then None else Some (of_nat (skipped + start + off))),
            status_field = s, latency_field = l\<rparr>, ji) }"

text \<open>The streams of \<open>run_query\<close> and of \<open>convert_json_to_agb\<close> over a file of \<open>len\<close> bytes in the padded buffer \<open>buf\<close>.\<close>

definition query_stream ::
  "(nat \<Rightarrow> u32 list option) \<Rightarrow> bool \<Rightarrow> dom_parser_implementation \<Rightarrow> dom_parser_implementation \<Rightarrow> u8 list \<Rightarrow> nat \<Rightarrow> stream_item list option" where
  "query_stream alloc threaded parser thread_parser buf len =
    stream_items query_body alloc (iterate_many threaded parser thread_parser buf len DEFAULT_BATCH_SIZE False)"

definition export_stream ::
  "(nat \<Rightarrow> u32 list option) \<Rightarrow> bool \<Rightarrow> dom_parser_implementation \<Rightarrow> dom_parser_implementation \<Rightarrow> u8 list \<Rightarrow> nat \<Rightarrow> stream_item list option" where
  "export_stream alloc threaded parser thread_parser buf len =
    stream_items (export_body (bom_length buf len)) alloc (iterate_many threaded parser thread_parser buf len DEFAULT_BATCH_SIZE False)"

end
