(* ===== verification/Simd_Texts.thy ===== *)
theory Simd_Texts
  imports Simd_Windows Simd_Stream
begin

text \<open>
  What the loops over a document stream read of a document: \<open>number_field\<close> is the number in the text of the document,
  \<open>exhibits\<close> says that an iterator shows that text, and the locale \<open>document_reader\<close> is the contract between the
  stream and a loop body, which the bodies of the query ingester and of the exporter meet.
\<close>

section \<open>Leaving a document\<close>

lemma comma_sep_split:
  "i < length ts \<Longrightarrow> comma_sep ts = concat (map (\<lambda>t. t @ [COMMA]) (take i ts)) @ comma_sep (drop i ts)"
proof (induction ts arbitrary: i rule: comma_sep.induct)
  case (3 t u ts)
  then show ?case by (cases i) auto
qed auto

lemma object_take:
  assumes "i < length kvs"
  shows "take (field_pos kvs i) (toks (Obj kvs)) = LBRACE # concat (map (\<lambda>kv. field_toks kv @ [COMMA]) (take i kvs))"
    "take (value_end kvs i) (toks (Obj kvs)) = take (field_pos kvs i) (toks (Obj kvs)) @ field_toks (kvs ! i)"
    "length (take (field_pos kvs i) (toks (Obj kvs))) = field_pos kvs i"
proof -
  let ?pre = "concat (map (\<lambda>kv. field_toks kv @ [COMMA]) (take i kvs))"
  have c: "comma_sep (map field_toks kvs) = ?pre @ comma_sep (map field_toks (drop i kvs))"
    using comma_sep_split [of i "map field_toks kvs"] assms by (simp add: take_map drop_map comp_def)
  have p: "field_pos kvs i = Suc (length ?pre)" by (simp add: field_pos_def length_concat comp_def)
  have d: "drop i kvs = kvs ! i # drop (Suc i) kvs" using assms by (simp add: Cons_nth_drop_Suc)
  obtain rest where r: "comma_sep (map field_toks (drop i kvs)) = field_toks (kvs ! i) @ rest"
    unfolding d by (cases "drop (Suc i) kvs") auto
  show "take (field_pos kvs i) (toks (Obj kvs)) = LBRACE # ?pre" unfolding p by (simp add: c)
  then show "length (take (field_pos kvs i) (toks (Obj kvs))) = field_pos kvs i" unfolding p by (simp del: toks.simps)
  show "take (value_end kvs i) (toks (Obj kvs)) = take (field_pos kvs i) (toks (Obj kvs)) @ field_toks (kvs ! i)"
    unfolding value_end_def p by (simp add: c r)
qed

lemma depth_append: "depth (xs @ ys) = depth xs + depth ys"
  by (induction xs) auto

lemma balanced_depth: "balanced xs \<Longrightarrow> depth xs = 0"
  by (simp add: balanced_def depth_def)

lemma field_depths:
  assumes "wf_jval (Obj kvs)" "\<forall>kv \<in> set kvs. fst kv = 0x22" "i < length kvs"
  shows "depth (take (field_pos kvs i) (toks (Obj kvs))) = 1" "depth (take (value_end kvs i) (toks (Obj kvs))) = 1"
    "depth (take (field_pos kvs i + 2) (toks (Obj kvs))) = 1"
proof -
  have f: "depth (field_toks kv) = 0" if "kv \<in> set kvs" for kv
    using assms(1,2) that balanced_depth [OF balanced_toks, of "snd kv"] by simp
  have z: "depth (concat (map (\<lambda>kv. field_toks kv @ [COMMA]) kvs')) = 0" if "set kvs' \<subseteq> set kvs" for kvs'
    using that by (induction kvs') (use f in \<open>auto simp: depth_append\<close>)
  show 1: "depth (take (field_pos kvs i) (toks (Obj kvs))) = 1"
    using z [OF set_take_subset [of i kvs]] unfolding object_take(1) [OF assms(3)] by simp
  then show "depth (take (value_end kvs i) (toks (Obj kvs))) = 1"
    unfolding object_take(2) [OF assms(3)] depth_append using f assms(3) by simp
  have "take (field_pos kvs i + 2) (toks (Obj kvs)) = take (field_pos kvs i + 2) (take (value_end kvs i) (toks (Obj kvs)))"
    by (simp add: value_end_def min_def)
  also have "\<dots> = take (field_pos kvs i) (toks (Obj kvs)) @ [fst (kvs ! i), COLON]"
    unfolding object_take(2) [OF assms(3)] take_append object_take(3) [OF assms(3)] by (simp add: numeral_2_eq_2)
  finally show "depth (take (field_pos kvs i + 2) (toks (Obj kvs))) = 1" using 1 assms(2,3) by (simp add: depth_append)
qed

lemma value_end_bound:
  assumes "i < length kvs"
  shows "value_end kvs i < object_end kvs"
proof -
  have "value_end kvs i \<le> value_end kvs (length kvs - 1)"
    using value_end_less [of i "length kvs - 1" kvs] assms by (cases "i = length kvs - 1") (auto intro: less_imp_le)
  moreover have "kvs \<noteq> []" using assms by auto
  ultimately show ?thesis using object_end_last [of kvs] by simp
qed

text \<open>The loop runs to the end of the object from everywhere inside.\<close>

lemma skip_loop_inside:
  assumes doc: "object_doc kvs ji" and j: "0 < j" "j < length (toks (Obj kvs))"
  shows "skip_loop 0 (cursor_to ji (ji_root ji + j) (depth (take j (toks (Obj kvs))))) = Some (SUCCESS, put kvs ji Closed)"
proof -
  let ?ts = "toks (Obj kvs)"
  have wf: "wf_jval (Obj kvs)" and tk: "tokens_at ji (ji_root ji) ?ts" and alive: "ji_alive ji" and max: "int (ji_n ji) + 2 < INT32_MAX"
    using doc unfolding object_doc_def by blast+
  have ts: "?ts = LBRACE # tl ?ts" by simp
  note d = container_depths [OF wf ts]
  have pos: "0 < depth (take i ?ts)" if "0 < i" "i < length ?ts" for i
  proof -
    obtain k where k: "i = Suc k" using \<open>0 < i\<close> by (cases i) auto
    then have "0 < 1 + depth (take k (tl ?ts))" using d(2) [of k] that(2) by simp
    then show ?thesis using k by simp
  qed
  have tj: "tokens_at ji (ji_root ji + j) (drop j ?ts)"
    using tk tokens_at_append [of ji "ji_root ji" "take j ?ts" "drop j ?ts"] j(2) by (simp del: toks.simps)
  have add: "depth (take j ?ts) + depth (take k (drop j ?ts)) = depth (take (j + k) ?ts)" for k
    by (simp only: take_add depth_append)
  have "skip_loop 0 (cursor_to ji (ji_root ji + j) (depth (take j ?ts))) =
      Some (SUCCESS, cursor_to ji (ji_root ji + j + length (drop j ?ts)) 0)"
  proof (rule skip_loop_tokens [OF tj alive])
    show "0 < depth (take j ?ts)" by (rule pos [OF j])
    have "depth (take j ?ts) + depth (drop j ?ts) = depth ?ts" by (metis append_take_drop_id depth_append)
    then show "depth (take j ?ts) + depth (drop j ?ts) = 0" using balanced_depth [OF balanced_toks [OF wf]] by simp
    fix k assume k: "k < length (drop j ?ts)"
    show "0 < depth (take j ?ts) + depth (take k (drop j ?ts))" unfolding add using k j by (intro pos) simp_all
    have "length ?ts \<le> ji_n ji" using tk by (simp add: tokens_at_def)
    then have "depth (take (j + k) ?ts) \<le> int (ji_n ji)" using depth_le_length [of "take (j + k) ?ts"] by simp
    then show "depth (take j ?ts) + depth (take k (drop j ?ts)) < INT32_MAX" unfolding add using max by simp
  qed
  then show ?thesis using j(2) by (simp add: put_def object_end_def del: toks.simps)
qed

lemma skip_document:
  assumes doc: "object_doc kvs ji" and p: "proper kvs p"
  shows "ji_skip_child (put kvs ji p) 0 = Some (SUCCESS, put kvs ji Closed)"
proof -
  let ?ts = "toks (Obj kvs)"
  have wf: "wf_jval (Obj kvs)" and tk: "tokens_at ji (ji_root ji) ?ts" and alive: "ji_alive ji" and max: "int (ji_n ji) + 2 < INT32_MAX"
    and q: "\<forall>kv \<in> set kvs. fst kv = 0x22"
    using doc unfolding object_doc_def by blast+
  note loop = skip_loop_inside [OF doc]
  have step: "\<exists>off. return_current_and_advance (cursor_to ji x d) = Some (off, cursor_to ji (x + 1) d) \<and> load (ji_buf ji) off = Some c"
    if c: "char_at ji x = Some c" for x d c
    by (rule advance_token [of "cursor_to ji x d" c]) (use c in auto)
  have nth: "char_at ji (ji_root ji + j) = Some (?ts ! j)" if "j < length ?ts" for j using tk that by (simp add: tokens_at_def)
  show ?thesis
  proof (cases p)
    case AtRoot
    then show ?thesis using skip_container [OF wf alive tk, of 0 LBRACE] max by (simp add: put_def object_end_def)
  next
    case AtFirst
    then have m: "0 < length kvs" using p by (simp add: proper_def)
    have three: "field_pos kvs 0 + 2 = 3" by simp
    note f = fields_of [OF doc m]
    have k: "char_at ji (ji_root ji + 1) = Some 0x22" "char_at ji (ji_root ji + 2) = Some COLON" using f(1,2) by simp_all
    obtain o1 o2 where "return_current_and_advance (put kvs ji AtFirst) = Some (o1, cursor_to ji (ji_root ji + 2) 1)"
      "load (ji_buf ji) o1 = Some 0x22" "return_current_and_advance (cursor_to ji (ji_root ji + 2) 1) = Some (o2, cursor_to ji (ji_root ji + 3) 1)"
      using step [OF k(1), of 1] step [OF k(2), of 1] by (auto simp: put_def)
    moreover have "3 < length ?ts" using value_end_bound [OF m] f(6) by (simp add: object_end_def)
    then have "skip_loop 0 (cursor_to ji (ji_root ji + 3) 1) = Some (SUCCESS, put kvs ji Closed)"
      using loop [of 3] field_depths(3) [OF wf q m, unfolded three] by (simp only: zero_less_numeral)
    ultimately show ?thesis using AtFirst k(2) by (simp add: ji_skip_child_def)
  next
    case (AtValue i)
    then have i: "i < length kvs" using p by (simp add: proper_def)
    note f = fields_of [OF doc i]
    let ?j = "field_pos kvs i + 2"
    obtain c cs where v: "toks (snd (kvs ! i)) = c # cs" using toks_nonempty [OF f(4)] by (cases "toks (snd (kvs ! i))") auto
    have c: "char_at ji (ji_root ji + ?j) = Some c" using f(3) v by (simp add: tokens_at_Cons add.assoc)
    have len: "?j + 1 \<le> value_end kvs i" "value_end kvs i < length ?ts"
      using v value_end_bound [OF i] by (simp_all add: value_end_def object_end_def)
    obtain off where off: "return_current_and_advance (put kvs ji (AtValue i)) = Some (off, cursor_to ji (ji_root ji + (?j + 1)) 2)"
      "load (ji_buf ji) off = Some c" using step [OF c, of 2] by (auto simp: put_def)
    have tj: "take (?j + 1) ?ts = take ?j ?ts @ [c]"
      using nth [of ?j] c len by (simp add: take_Suc_conv_app_nth del: toks.simps)
    show ?thesis
    proof (cases "c = LBRACKET \<or> c = LBRACE")
      case True
      then have "depth (take (?j + 1) ?ts) = 2" using field_depths(3) [OF wf q i] unfolding tj by (auto simp: depth_append)
      then have "skip_loop 0 (cursor_to ji (ji_root ji + (?j + 1)) 2) = Some (SUCCESS, put kvs ji Closed)"
        using loop [of "?j + 1"] len by simp
      then show ?thesis using AtValue True off by (auto simp: ji_skip_child_def)
    next
      case False
      then obtain a where a: "snd (kvs ! i) = Scalar a" using v by (cases "snd (kvs ! i)") auto
      then have ac: "cs = []" "\<not> op_char c" using v f(4) by auto
      then have ve: "value_end kvs i = ?j + 1" using v by (simp add: value_end_def)
      then have "skip_loop 0 (cursor_to ji (ji_root ji + (?j + 1)) 1) = Some (SUCCESS, put kvs ji Closed)"
        using loop [of "?j + 1"] field_depths(2) [OF wf q i] len by simp
      moreover have "\<exists>e. char_at ji (ji_root ji + (?j + 1)) = Some e \<and> e \<noteq> COLON" using f(5) ve by simp
      ultimately show ?thesis using AtValue ac off by (auto simp: ji_skip_child_def op_char_def)
    qed
  next
    case (AfterValue i)
    then have i: "i < length kvs" using p by (simp add: proper_def)
    note f = fields_of [OF doc i]
    obtain off where off: "return_current_and_advance (put kvs ji (AfterValue i)) = Some (off, cursor_to ji (ji_root ji + value_end kvs i + 1) 1)"
      "load (ji_buf ji) off = Some (if Suc i < length kvs then COMMA else RBRACE)" using step [OF f(5), of 1] by (auto simp: put_def)
    show ?thesis
    proof (cases "Suc i < length kvs")
      case True
      have "field_pos kvs (Suc i) < length ?ts"
        using value_end_bound [OF True] by (simp add: value_end_def object_end_def)
      then have "skip_loop 0 (cursor_to ji (ji_root ji + value_end kvs i + 1) 1) = Some (SUCCESS, put kvs ji Closed)"
        using loop [of "field_pos kvs (Suc i)"] field_depths(1) [OF wf q True] field_pos_Suc [OF i] by (simp add: add.assoc)
      then show ?thesis using AfterValue True off by (simp add: ji_skip_child_def)
    next
      case False
      then have "object_end kvs = value_end kvs i + 1" using object_end_last [of kvs] i by (metis Suc_lessI diff_Suc_1 length_0_conv less_nat_zero_code)
      then show ?thesis using AfterValue False off by (simp add: ji_skip_child_def put_def add.assoc)
    qed
  next
    case Closed
    then show ?thesis by (simp add: ji_skip_child_def put_def)
  qed
qed

section \<open>Reading a document\<close>

text \<open>The iterator shows the document \<open>d\<close>: its tokens are the ones of \<open>d\<close>, at the offset \<open>off\<close> of the window.\<close>

definition exhibits :: "u8 list \<Rightarrow> (u8 \<times> jval) list \<Rightarrow> nat \<Rightarrow> json_iterator \<Rightarrow> bool" where
  "exhibits d kvs off ji \<longleftrightarrow> object_doc kvs ji \<and> root_complete kvs ji \<and> take (length d) (drop off (ji_buf ji)) = d \<and>
    off + length d + SIMDJSON_PADDING \<le> length (ji_buf ji) \<and>
    (\<forall>k < length (toks (Obj kvs)). token_peek ji (ji_root ji + k) = Some (off + token_starts d (length d) ! k)) \<and>
    (\<exists>behind \<ge> off + length d. token_peek ji (ji_root ji + object_end kvs) = Some behind)"

text \<open>What the text of a document says: the value of the field with a key, as a number.\<close>

definition raw_key :: "u8 list \<Rightarrow> nat \<Rightarrow> u8 list" where
  "raw_key d q = takeWhile (\<lambda>b. b \<noteq> 0x22) (drop (q + 1) d)"

definition text_fields :: "(u8 \<times> jval) list \<Rightarrow> u8 list \<Rightarrow> (u8 list \<times> nat) list" where
  "text_fields kvs d = (let T = token_starts d (length d)
     in map (\<lambda>i. (raw_key d (T ! field_pos kvs i), T ! (field_pos kvs i + 2))) [0..<length kvs])"

definition number_field :: "(u8 \<times> jval) list \<Rightarrow> u8 list \<Rightarrow> string \<Rightarrow> u64 option" where
  "number_field kvs d key = do {
     q \<leftarrow> map_of (text_fields kvs d) (ascii key);
     res \<leftarrow> parse_unsigned d q;
     (case res of Inl e \<Rightarrow> None | Inr v \<Rightarrow> Some v) }"

lemma doc_tokens:
  assumes "doc_text kvs d"
  shows "length (token_starts d (length d)) = length (toks (Obj kvs))"
    "k < length (toks (Obj kvs)) \<Longrightarrow> d ! (token_starts d (length d) ! k) = toks (Obj kvs) ! k"
    "k < length (toks (Obj kvs)) \<Longrightarrow> token_starts d (length d) ! k < length d"
    "k < length (toks (Obj kvs)) \<Longrightarrow> starts_at d (token_starts d (length d) ! k)"
proof -
  have c: "map ((!) d) (token_starts d (length d)) = toks (Obj kvs)" using assms by (simp add: doc_text_def structural_chars_def)
  show l: "length (token_starts d (length d)) = length (toks (Obj kvs))" using arg_cong [OF c, of length] by simp
  show "d ! (token_starts d (length d) ! k) = toks (Obj kvs) ! k" if "k < length (toks (Obj kvs))"
    using arg_cong [OF c, of "\<lambda>xs. xs ! k"] that l by simp
  show "token_starts d (length d) ! k < length d" "starts_at d (token_starts d (length d) ! k)" if "k < length (toks (Obj kvs))"
    using nth_mem [of k "token_starts d (length d)"] that l by (auto simp: token_starts_def)
qed

text \<open>A string that has begun ends with a quote.\<close>

lemma string_goes_on:
  assumes "in_string_state s" "0x22 \<notin> set xs"
  shows "in_string_state (foldl lex_step s xs)"
  using assms
proof (induction xs arbitrary: s)
  case (Cons x xs)
  then have "in_string_state (lex_step s x)" by (cases s) auto
  then show ?case using Cons by simp
qed simp

lemma closing_quote:
  assumes "starts_at d q" "d ! q = 0x22" "q < length d" "\<not> unclosed d"
  shows "0x22 \<in> set (drop (q + 1) d)"
proof (rule ccontr)
  assume n: "0x22 \<notin> set (drop (q + 1) d)"
  have "lex_at Between d q = Between" using assms(1,2) by (cases "lex_at Between d q") (auto simp: starts_at_def marked_op_def is_op_def)
  then have "lex_at Between d (Suc q) = InString False" using lex_at_Suc [OF assms(3), of Between] assms(2) by simp
  moreover have "lex_at Between d (length d) = foldl lex_step (lex_at Between d (Suc q)) (drop (Suc q) d)"
    unfolding lex_at_def by (metis append_take_drop_id foldl_append take_all order_refl)
  ultimately have "unclosed d" using string_goes_on [of "InString False" "drop (Suc q) d"] n by (simp add: unclosed_def)
  then show False using assms(4) by simp
qed

lemma first_quote:
  assumes "0x22 \<in> set xs" "0x22 \<notin> set key"
  shows "take (length key + 1) (xs @ post) = key @ [0x22] \<longleftrightarrow> takeWhile (\<lambda>b. b \<noteq> (0x22 :: u8)) xs = key"
proof -
  obtain ys zs where x: "xs = ys @ 0x22 # zs" "0x22 \<notin> set ys" using split_list_first [OF assms(1)] by blast
  have tw: "takeWhile (\<lambda>b. b \<noteq> 0x22) (us @ 0x22 # vs) = us" if "0x22 \<notin> set us" for us vs :: "u8 list"
    using that by (subst takeWhile_append2) auto
  have t: "takeWhile (\<lambda>b. b \<noteq> 0x22) xs = ys" unfolding x(1) by (rule tw [OF x(2)])
  have "take (length key + 1) (ys @ 0x22 # zs @ post) = key @ [0x22] \<longleftrightarrow> ys = key"
  proof
    assume a: "take (length key + 1) (ys @ 0x22 # zs @ post) = key @ [0x22]"
    obtain r where "ys @ 0x22 # zs @ post = (key @ [0x22]) @ r" using a by (metis append_take_drop_id)
    then have "ys @ 0x22 # (zs @ post) = key @ 0x22 # r" by simp
    then show "ys = key" using arg_cong [of _ _ "takeWhile (\<lambda>b. b \<noteq> 0x22)"] tw [OF x(2)] tw [OF assms(2)] by metis
  qed simp
  then show ?thesis using t x(1) by simp
qed

text \<open>Numbers do not depend on what surrounds the text in which they end.\<close>

lemma digits_loop_surrounded:
  "digits_loop d p i = Some (p', i') \<Longrightarrow> p' < length d \<and> digits_loop (pre @ d @ post) (length pre + p) i = Some (length pre + p', i')"
proof (induction d p i rule: digits_loop.induct)
  case (1 d p i)
  then have p: "p < length d" by (subst (asm) digits_loop.simps) (simp split: if_splits)
  have e: "(pre @ d @ post) ! (length pre + p) = d ! p" "length pre + p < length (pre @ d @ post)" using p by (simp_all add: nth_append)
  show ?case
  proof (cases "parse_digit (d ! p) i")
    case None
    then show ?thesis using 1(2) p e by (subst digits_loop.simps) (simp add: digits_loop.simps [of d p i])
  next
    case (Some j)
    then have "digits_loop d (p + 1) j = Some (p', i')" using 1(2) p by (simp add: digits_loop.simps [of d p i])
    then show ?thesis using 1(1) [OF p Some] Some p e by (subst digits_loop.simps) simp
  qed
qed

lemma parse_unsigned_surrounded:
  assumes "parse_unsigned d q = Some res"
  shows "parse_unsigned (pre @ d @ post) (length pre + q) = Some res"
proof -
  obtain p i where l: "digits_loop d q 0 = Some (p, i)" using assms by (auto simp: parse_unsigned_def bind_eq_Some_conv)
  note s = digits_loop_surrounded [OF this]
  have "q < length d" using l by (subst (asm) digits_loop.simps) (simp split: if_splits)
  then have n: "(pre @ d @ post) ! (length pre + q) = d ! q" "(pre @ d @ post) ! (length pre + p) = d ! p" using s by (simp_all add: nth_append)
  have m: "length pre + p - (length pre + q) = p - q" by simp
  show ?thesis using assms unfolding parse_unsigned_def l conjunct2 [OF s] Option.bind.simps prod.case n m .
qed

lemma digits_loop_ends:
  "p \<le> e \<Longrightarrow> e < length d \<Longrightarrow> \<not> is_digit (d ! e) \<Longrightarrow> digits_loop d p i \<noteq> None"
proof (induction d p i rule: digits_loop.induct)
  case (1 d p i)
  show ?case
  proof (cases "parse_digit (d ! p) i")
    case (Some j)
    then have "p \<noteq> e" using 1(4) by (auto simp: parse_digit_correct)
    then show ?thesis using 1 Some by (subst digits_loop.simps) simp
  qed (use 1 in \<open>subst digits_loop.simps, simp\<close>)
qed

lemma map_of_find: "map_of (map (\<lambda>i. (f i, g i)) xs) k = map_option g (List.find (\<lambda>i. f i = k) xs)"
  by (induction xs) auto

lemma exhibited_tokens:
  assumes "exhibits d kvs off ji" "doc_text kvs d" "k < length (toks (Obj kvs))"
  shows "token_peek ji (ji_root ji + k) = Some (off + token_starts d (length d) ! k)"
  using assms unfolding exhibits_def by blast

lemma exhibited_buf:
  assumes "exhibits d kvs off ji"
  obtains pre post where "ji_buf ji = pre @ d @ post" "length pre = off" "SIMDJSON_PADDING \<le> length post"
proof -
  have e: "take (length d) (drop off (ji_buf ji)) = d" "off + length d + SIMDJSON_PADDING \<le> length (ji_buf ji)"
    using assms by (simp_all add: exhibits_def)
  have "ji_buf ji = take off (ji_buf ji) @ d @ drop (length d) (drop off (ji_buf ji))"
    by (metis append_take_drop_id e(1))
  then show thesis by (rule that) (use e(2) in simp_all)
qed

lemma field_token_bounds:
  assumes "i < length kvs"
  shows "field_pos kvs i + 2 < length (toks (Obj kvs))" "field_pos kvs i < length (toks (Obj kvs))"
  using value_end_bound [OF assms] by (simp_all add: value_end_def object_end_def)

text \<open>Key and value of a field, in the window and in the text of the document.\<close>

lemma exhibited_field:
  assumes ex: "exhibits d kvs off ji" and dt: "doc_text kvs d" and i: "i < length kvs"
  shows "value_at kvs ji i = off + snd (text_fields kvs d ! i)" "snd (text_fields kvs d ! i) < length d"
    "0x22 \<notin> set key \<Longrightarrow> key_matches kvs ji key i \<longleftrightarrow> fst (text_fields kvs d ! i) = key"
    "length key < SIMDJSON_PADDING \<Longrightarrow> key_at kvs ji i + length key < length (ji_buf ji)"
proof -
  let ?T = "token_starts d (length d)" and ?q = "token_starts d (length d) ! field_pos kvs i"
  note b = field_token_bounds [OF i]
  have doc: "object_doc kvs ji" using ex by (simp add: exhibits_def)
  have ka: "key_at kvs ji i = off + ?q + 1" using exhibited_tokens [OF ex dt b(2)] by (simp add: key_at_def)
  have q: "?q < length d" by (rule doc_tokens(3) [OF dt b(2)])
  show "value_at kvs ji i = off + snd (text_fields kvs d ! i)"
    using exhibited_tokens [OF ex dt b(1)] i by (simp add: value_at_def text_fields_def Let_def add.assoc)
  show "snd (text_fields kvs d ! i) < length d" using doc_tokens(3) [OF dt b(1)] i by (simp add: text_fields_def Let_def)
  obtain pre post where buf: "ji_buf ji = pre @ d @ post" "length pre = off" "SIMDJSON_PADDING \<le> length post"
    by (rule exhibited_buf [OF ex])
  show "length key < SIMDJSON_PADDING \<Longrightarrow> key_at kvs ji i + length key < length (ji_buf ji)"
    unfolding ka buf(1) using q buf(2,3) by simp
  have "char_at ji (ji_root ji + field_pos kvs i) = Some (d ! ?q)"
    using exhibited_tokens [OF ex dt b(2)] q buf by (simp add: char_at_def load_def nth_append)
  then have "d ! ?q = 0x22" using fields_of(1) [OF doc i] by simp
  moreover have "\<not> unclosed d" using dt by (simp add: doc_text_def)
  ultimately have "0x22 \<in> set (drop (?q + 1) d)" using closing_quote [OF doc_tokens(4) [OF dt b(2)] _ q] by blast
  moreover have "drop (off + ?q + 1) (ji_buf ji) = drop (?q + 1) d @ post" using q by (simp add: buf(1) buf(2) [symmetric])
  ultimately show "0x22 \<notin> set key \<Longrightarrow> key_matches kvs ji key i \<longleftrightarrow> fst (text_fields kvs d ! i) = key"
    unfolding key_matches_def ka using first_quote [of "drop (?q + 1) d" key post] i
    by (simp add: text_fields_def Let_def raw_key_def)
qed

lemma number_ends:
  assumes "doc_text kvs d" "q < length d"
  shows "parse_unsigned d q \<noteq> None"
proof -
  have "d ! (length d - 1) = RBRACE" using assms doc_nonempty [OF assms(1)] by (simp add: doc_text_def last_conv_nth)
  then have "digits_loop d q 0 \<noteq> None" using assms(2) by (intro digits_loop_ends [of q "length d - 1"]) (auto simp: is_digit_def)
  then show ?thesis by (auto simp: parse_unsigned_def Let_def)
qed

text \<open>No key occurs twice.\<close>

definition unambiguous :: "(u8 \<times> jval) list \<Rightarrow> u8 list \<Rightarrow> string \<Rightarrow> bool" where
  "unambiguous kvs d key \<longleftrightarrow> (\<forall>i < length kvs. \<forall>j < length kvs.
     fst (text_fields kvs d ! i) = ascii key \<and> fst (text_fields kvs d ! j) = ascii key \<longrightarrow> i = j)"

definition plain_key :: "string \<Rightarrow> bool" where
  "plain_key key \<longleftrightarrow> 0x22 \<notin> set (ascii key) \<and> length key < SIMDJSON_PADDING"

text \<open>The key of a request and the field it finds.\<close>

lemma exhibited_key:
  assumes ex: "exhibits d kvs off ji" and dt: "doc_text kvs d" and key: "plain_key key" "unambiguous kvs d key"
  shows "key_readable kvs ji (ascii key)"
    "\<And>i j. i < length kvs \<Longrightarrow> j < length kvs \<Longrightarrow> key_matches kvs ji (ascii key) i \<Longrightarrow> key_matches kvs ji (ascii key) j \<Longrightarrow> i = j"
    "map_of (text_fields kvs d) (ascii key) = map_option (\<lambda>j. snd (text_fields kvs d ! j)) (field_of kvs ji (ascii key))"
proof -
  have plain: "0x22 \<notin> set (ascii key)" "length (ascii key) < SIMDJSON_PADDING" using key(1) by (simp_all add: plain_key_def ascii_def)
  note f = exhibited_field [OF ex dt]
  have m: "key_matches kvs ji (ascii key) j \<longleftrightarrow> fst (text_fields kvs d ! j) = ascii key" if "j < length kvs" for j
    using f(3) [OF that plain(1)] .
  show "key_readable kvs ji (ascii key)" using f(4) [OF _ plain(2)] by (simp add: key_readable_def)
  show "i = j" if "i < length kvs" "j < length kvs" "key_matches kvs ji (ascii key) i" "key_matches kvs ji (ascii key) j" for i j
    using that m key(2) by (auto simp: unambiguous_def)
  have fo: "field_of kvs ji (ascii key) = List.find (\<lambda>j. fst (text_fields kvs d ! j) = ascii key) [0..<length kvs]"
    unfolding field_of_def by (rule find_cong) (use m in auto)
  have tf: "text_fields kvs d = map (\<lambda>i. (fst (text_fields kvs d ! i), snd (text_fields kvs d ! i))) [0..<length kvs]"
    by (rule nth_equalityI) (simp_all add: text_fields_def Let_def)
  show "map_of (text_fields kvs d) (ascii key) = map_option (\<lambda>j. snd (text_fields kvs d ! j)) (field_of kvs ji (ascii key))"
    unfolding fo by (subst tf, rule map_of_find)
qed

lemma document_uint64_at:
  assumes ex: "exhibits d kvs off ji" and dt: "doc_text kvs d" and key: "plain_key key" "unambiguous kvs d key" and p: "proper kvs p"
  shows "\<exists>res p'. document_uint64 (put kvs ji p) (ascii key) = Some (res, put kvs ji p') \<and> proper kvs p' \<and>
    number_field kvs d key = (case res of Inl e \<Rightarrow> None | Inr v \<Rightarrow> Some v)"
proof -
  have doc: "object_doc kvs ji" "root_complete kvs ji" using ex by (simp_all add: exhibits_def root_complete_def)
  obtain pre post where buf: "ji_buf ji = pre @ d @ post" "length pre = off" by (rule exhibited_buf [OF ex])
  note f = exhibited_field [OF ex dt] and k = exhibited_key [OF ex dt key]
  have val: "parse_unsigned (ji_buf ji) (value_at kvs ji j) = parse_unsigned d (snd (text_fields kvs d ! j))" if jl: "j < length kvs" for j
  proof -
    obtain res where "parse_unsigned d (snd (text_fields kvs d ! j)) = Some res" using number_ends [OF dt f(2) [OF jl]] by blast
    then show ?thesis using parse_unsigned_surrounded [of d _ res pre post] f(1) [OF jl] buf by simp
  qed
  have ok: "request_ok kvs ji (AsUint64 (ascii key))"
    using k(1,2) val number_ends [OF dt f(2)] by (auto simp: request_ok_def)
  note l = lookup_at [OF doc p ok, unfolded request_key.simps]
  show ?thesis
  proof (cases "field_of kvs ji (ascii key)")
    case None
    have "proper kvs (missed (start_place kvs p))" using p by (cases p) (auto simp: proper_def start_place_def)
    then show ?thesis using l None k(3) by (auto simp: document_uint64_def number_field_def)
  next
    case (Some j)
    then have j: "j < length kvs" using find_found [of _ "[0..<length kvs]" j] by (auto simp: field_of_def)
    obtain res where res: "parse_unsigned d (snd (text_fields kvs d ! j)) = Some res" using number_ends [OF dt f(2) [OF j]] by blast
    then have "get_uint64 (field_ref kvs ji j) (put kvs ji (AtValue j)) = Some (res, put kvs ji (after_reading j res))"
      using get_uint64_at [OF doc(1) j] val [OF j] by simp
    moreover have "proper kvs (after_reading j res)" using j by (cases res) (auto simp: proper_def)
    ultimately show ?thesis using l Some k(3) res by (auto simp: document_uint64_def number_field_def)
  qed
qed

lemma distinct_unambiguous: "distinct (map fst (text_fields kvs d)) \<Longrightarrow> unambiguous kvs d key"
  by (simp add: unambiguous_def distinct_conv_nth text_fields_def Let_def) metis

text \<open>The length of a byte order mark in front of a text that does not begin with another one.\<close>

lemma bom_length_mark:
  assumes "hd (x @ pad) \<noteq> 0xEF" "mark = [] \<or> mark = bom"
  shows "bom_length (mark @ x @ pad) (length (mark @ x)) = length mark"
proof (cases "mark = []")
  case True
  have "hd (take 3 (x @ pad)) = hd (x @ pad)" by (cases "x @ pad") simp_all
  then have "take 3 (x @ pad) \<noteq> bom" using assms(1) by (auto simp: bom_def)
  then show ?thesis using True by (simp add: bom_length_def)
qed (use assms(2) in \<open>simp add: bom_length_def bom_def\<close>)

section \<open>The two readers of documents\<close>

definition log_doc_of :: "u64 option \<Rightarrow> (u8 \<times> jval) list \<Rightarrow> u8 list \<Rightarrow> log_doc" where
  "log_doc_of off kvs d = \<lparr>raw_offset = off, status_field = number_field kvs d ''status'', latency_field = number_field kvs d ''latency''\<rparr>"

definition log_keys_unambiguous :: "(u8 \<times> jval) list \<Rightarrow> u8 list \<Rightarrow> bool" where
  "log_keys_unambiguous kvs d \<longleftrightarrow> unambiguous kvs d ''status'' \<and> unambiguous kvs d ''latency''"

lemma plain_keys: "plain_key ''status''" "plain_key ''latency''"
  by (simp_all add: plain_key_def ascii_def SIMDJSON_PADDING_def)

lemma numbers_of_at:
  assumes "exhibits d kvs off ji" "doc_text kvs d" "log_keys_unambiguous kvs d" "proper kvs p"
  shows "\<exists>p'. numbers_of (put kvs ji p) = Some ((number_field kvs d ''status'', number_field kvs d ''latency''), put kvs ji p') \<and> proper kvs p'"
proof -
  obtain s p1 where s: "document_uint64 (put kvs ji p) (ascii ''status'') = Some (s, put kvs ji p1)" "proper kvs p1"
    "number_field kvs d ''status'' = (case s of Inl e \<Rightarrow> None | Inr v \<Rightarrow> Some v)"
    using document_uint64_at [OF assms(1,2) plain_keys(1) _ assms(4)] assms(3) unfolding log_keys_unambiguous_def by blast
  obtain l p2 where "document_uint64 (put kvs ji p1) (ascii ''latency'') = Some (l, put kvs ji p2)" "proper kvs p2"
    "number_field kvs d ''latency'' = (case l of Inl e \<Rightarrow> None | Inr v \<Rightarrow> Some v)"
    using document_uint64_at [OF assms(1,2) plain_keys(2) _ s(2)] assms(3) unfolding log_keys_unambiguous_def by blast
  then show ?thesis using s by (auto simp: numbers_of_def)
qed

text \<open>The contract between the stream and a loop body: on the first position of a document the body gives what the text of the
  document says, and leaves the cursor at a proper place.\<close>

locale document_reader =
  fixes reader :: "nat \<Rightarrow> json_iterator \<Rightarrow> (log_doc \<times> json_iterator) option"
    and says :: "nat \<Rightarrow> (u8 \<times> jval) list \<Rightarrow> u8 list \<Rightarrow> log_doc"
  assumes reads: "exhibits d kvs off ji \<Longrightarrow> doc_text kvs d \<Longrightarrow> log_keys_unambiguous kvs d \<Longrightarrow>
    \<exists>p. reader start (put kvs ji AtRoot) = Some (says (start + off) kvs d, put kvs ji p) \<and> proper kvs p"

interpretation query_reader: document_reader query_body "\<lambda>off. log_doc_of None"
proof
  fix d kvs off ji start
  assume a: "exhibits d kvs off ji" "doc_text kvs d" "log_keys_unambiguous kvs d"
  have "proper kvs AtRoot" by (simp add: proper_def)
  from numbers_of_at [OF a this]
  show "\<exists>p. query_body start (put kvs ji AtRoot) = Some (log_doc_of None kvs d, put kvs ji p) \<and> proper kvs p"
    by (auto simp: query_body_def log_doc_of_def)
qed

interpretation export_reader: document_reader "export_body skipped" "\<lambda>off. log_doc_of (Some (of_nat (skipped + off)))" for skipped
proof
  fix d kvs off ji start
  assume a: "exhibits d kvs off ji" "doc_text kvs d" "log_keys_unambiguous kvs d"
  have doc: "object_doc kvs ji" using a(1) by (simp add: exhibits_def)
  have "starts_at d 0" "0 < length d" using a(2) doc_nonempty [OF a(2)] by (simp_all add: doc_text_def starts_at_def hd_conv_nth is_ws_def)
  then have "token_starts d (length d) ! 0 = 0" by (simp add: token_starts_def upt_conv_Cons)
  then have "token_peek ji (ji_root ji) = Some off" using exhibited_tokens [OF a(1,2), of 0] by simp
  moreover obtain behind where "token_peek ji (ji_root ji + object_end kvs) = Some behind" "off + length d \<le> behind"
    using a(1) by (auto simp: exhibits_def)
  moreover have "off < behind" using \<open>off + length d \<le> behind\<close> \<open>0 < length d\<close> by linarith
  ultimately have "\<exists>n > 0. raw_json (put kvs ji AtRoot) = Some (Inr (off, n), put kvs ji Closed)"
    using raw_json_at [OF doc] by (intro exI [of _ "behind - off"]) simp
  moreover have "proper kvs Closed" by (simp add: proper_def)
  from numbers_of_at [OF a this] obtain p where
    "numbers_of (put kvs ji Closed) = Some ((number_field kvs d ''status'', number_field kvs d ''latency''), put kvs ji p)" "proper kvs p"
    by blast
  ultimately show "\<exists>p. export_body skipped start (put kvs ji AtRoot) = Some (log_doc_of (Some (of_nat (skipped + (start + off)))) kvs d, put kvs ji p) \<and> proper kvs p"
    by (auto simp: export_body_def log_doc_of_def add.assoc)
qed

end
