(* ===== verification/Simd_Delivery.thy ===== *)
theory Simd_Delivery
  imports Simd_Texts
begin

text \<open>
  The stream over a text of JSON objects with whitespace between them: \<open>batch_exhibits\<close> says that a batch that stage 1 has
  indexed shows its documents, \<open>run_window\<close> what the next window begins with, \<open>serving\<close> is the invariant of the stream
  between two rounds of a loop, with the task of the thread, and \<open>stream_delivers\<close>, proved for every loop body that meets
  the contract \<open>document_reader\<close>, says that the loop gets all documents in their order. \<open>worker_any_time\<close> says that it
  does not matter when the thread does its work.
\<close>

section \<open>The documents of a batch\<close>

text \<open>The token with which document \<open>i\<close> begins, its place in the window, and the iterator that stands there.\<close>

definition tokpos :: "segment list \<Rightarrow> nat \<Rightarrow> nat" where
  "tokpos segs i = length (concat (map toks (map seg_value (take i segs))))"

definition doc_at :: "segment list \<Rightarrow> nat \<Rightarrow> nat" where
  "doc_at segs i = length (body (take i segs)) + length (fst (segs ! i))"

definition shown :: "u8 list \<Rightarrow> dom_parser_implementation \<Rightarrow> segment list \<Rightarrow> nat \<Rightarrow> json_iterator" where
  "shown buf p segs i = (json_iterator_new buf p)\<lparr>ji_streaming := True, ji_root := tokpos segs i\<rparr>"

text \<open>Stage 1 has indexed the first \<open>m\<close> documents; the next window begins at \<open>nxt\<close>.\<close>

definition batch_ready :: "dom_parser_implementation \<Rightarrow> segment list \<Rightarrow> nat \<Rightarrow> nat \<Rightarrow> bool" where
  "batch_ready p segs m nxt \<longleftrightarrow> 0 < m \<and> m \<le> length segs \<and> unat (n_structural_indexes p) = tokpos segs m \<and>
     take (tokpos segs m) (structural_indexes p) = map of_nat (token_starts (body (take m segs)) (length (body (take m segs)))) \<and>
     tokpos segs m < length (structural_indexes p) \<and> structural_indexes p ! tokpos segs m = of_nat nxt \<and>
     length (body (take m segs)) \<le> nxt"

lemma seg_nth:
  assumes "\<forall>s \<in> set segs. seg_ok s" "i < length segs" "segs ! i = (ws, kvs, d)"
  shows "all_ws ws" "doc_text kvs d"
proof -
  have "seg_ok (segs ! i)" using assms(1,2) by simp
  then show "all_ws ws" "doc_text kvs d" by (simp_all add: assms(3))
qed

lemma tokpos_Suc: "i < length segs \<Longrightarrow> tokpos segs (Suc i) = tokpos segs i + length (toks (seg_value (segs ! i)))"
  by (simp add: tokpos_def take_Suc_conv_app_nth)

lemma tokpos_mono: "i \<le> j \<Longrightarrow> tokpos segs i \<le> tokpos segs j"
proof (induction rule: inc_induct)
  case (step n)
  then show ?case using tokpos_Suc [of n segs] by (cases "n < length segs") (simp_all add: tokpos_def)
qed simp

lemma tokpos_starts:
  assumes "\<forall>s \<in> set segs. seg_ok s"
  shows "length (token_starts (body (take i segs)) (length (body (take i segs)))) = tokpos segs i"
proof -
  have "\<forall>s \<in> set (take i segs). seg_ok s" using assms by (auto dest: in_set_takeD)
  from arg_cong [OF body_facts(2) [OF this], of length] show ?thesis by (simp add: structural_chars_def tokpos_def)
qed

definition all_starts :: "u8 list \<Rightarrow> nat list" where "all_starts bs = token_starts bs (length bs)"

lemma all_starts_append:
  "ends_between xs \<Longrightarrow> all_starts (xs @ ys) = all_starts xs @ map (\<lambda>i. length xs + i) (all_starts ys)"
  using token_starts_after [of xs ys "length ys"] by (simp add: all_starts_def)

lemma index_value: "n < 2 ^ 32 \<Longrightarrow> unat (of_nat n :: u32) = n"
  by (simp add: unat_of_nat take_bit_nat_eq_self)

text \<open>Token \<open>k\<close> of document \<open>i\<close>.\<close>

lemma batch_doc_token:
  assumes ok: "\<forall>s \<in> set segs. seg_ok s" and i: "i < m" "m \<le> length segs" "segs ! i = (ws, kvs, d)" and k: "k < length (toks (Obj kvs))"
  shows "token_starts (body (take m segs)) (length (body (take m segs))) ! (tokpos segs i + k) = doc_at segs i + token_starts d (length d) ! k"
proof -
  let ?pre = "body (take i segs)" and ?rest = "body (drop (Suc i) (take m segs))"
  have "take m segs = take i segs @ (ws, kvs, d) # drop (Suc i) (take m segs)"
    using id_take_nth_drop [of i "take m segs"] i by (simp add: min_def)
  then have b: "body (take m segs) = ?pre @ ws @ d @ ?rest" by (metis append_assoc body_simps(2,3) seg_text.simps)
  have okd: "all_ws ws" "doc_text kvs d" using seg_nth [OF ok _ i(3)] i(1,2) by simp_all
  have "\<forall>s \<in> set (take i segs). seg_ok s" using ok by (auto dest: in_set_takeD)
  then have pre: "ends_between ?pre" by (rule body_facts(1))
  have l: "length (token_starts ?pre (length ?pre)) = tokpos segs i" by (rule tokpos_starts [OF ok])
  note st = all_starts_append
  have ld: "k < length (all_starts d)" using doc_tokens(1) [OF okd(2)] k by (simp add: all_starts_def)
  have "all_starts (d @ ?rest) ! k = all_starts d ! k" "k < length (all_starts (d @ ?rest))"
    unfolding st [OF doc_last(1) [OF okd(2)]] using ld by (simp_all add: nth_append)
  moreover have w: "all_starts (ws @ d @ ?rest) = map (\<lambda>i. length ws + i) (all_starts (d @ ?rest))"
    unfolding st [OF ws_text(1) [OF okd(1)], of "d @ ?rest"] using ws_text(2) [OF okd(1)] by (simp add: all_starts_def)
  moreover have "all_starts (?pre @ ws @ d @ ?rest) ! (tokpos segs i + k) = length ?pre + all_starts (ws @ d @ ?rest) ! k"
    unfolding st [OF pre, of "ws @ d @ ?rest"] using l calculation by (simp add: nth_append all_starts_def [of ?pre])
  ultimately have "all_starts (?pre @ ws @ d @ ?rest) ! (tokpos segs i + k) = length ?pre + (length ws + all_starts d ! k)" by simp
  then show ?thesis unfolding b all_starts_def by (simp add: doc_at_def i(3))
qed

lemma shown_frame [simp]:
  "ji_buf (shown buf p segs i) = buf" "ji_indexes (shown buf p segs i) = structural_indexes p" "ji_root (shown buf p segs i) = tokpos segs i"
  "ji_n (shown buf p segs i) = unat (n_structural_indexes p)" "ji_error (shown buf p segs i) = SUCCESS" "ji_alive (shown buf p segs i)"
  "ji_streaming (shown buf p segs i)" "token_peek (shown buf p segs i) = (\<lambda>k. map_option unat (load (structural_indexes p) k))"
  by (simp_all add: shown_def json_iterator_new_def token_peek_def fun_eq_iff)

lemma batch_token:
  assumes "batch_ready p segs m nxt" "nxt < 2 ^ 32" "k < tokpos segs m" "\<forall>s \<in> set segs. seg_ok s"
  shows "map_option unat (load (structural_indexes p) k) = Some (token_starts (body (take m segs)) (length (body (take m segs))) ! k)"
    "token_starts (body (take m segs)) (length (body (take m segs))) ! k < length (body (take m segs))"
proof -
  let ?T = "token_starts (body (take m segs)) (length (body (take m segs)))"
  have k: "k < length ?T" using tokpos_starts [OF assms(4)] assms(3) by simp
  show l: "?T ! k < length (body (take m segs))" using token_starts_bound(2) [OF nth_mem [OF k]] .
  have "take (tokpos segs m) (structural_indexes p) ! k = map of_nat ?T ! k" using assms(1) by (simp add: batch_ready_def)
  then have "structural_indexes p ! k = of_nat (?T ! k)" using k assms(3) by simp
  moreover have "?T ! k < 2 ^ 32" using l assms(1,2) by (simp add: batch_ready_def)
  ultimately show "map_option unat (load (structural_indexes p) k) = Some (?T ! k)"
    using assms(1,3) by (simp add: load_def batch_ready_def index_value)
qed

lemma doc_at_end: "i < length segs \<Longrightarrow> segs ! i = (ws, kvs, d) \<Longrightarrow> doc_at segs i + length d = length (body (take (Suc i) segs))"
  by (simp add: doc_at_def take_Suc_conv_app_nth)

lemma batch_behind:
  assumes b: "batch_ready p segs m nxt" "nxt < 2 ^ 32" and ok: "\<forall>s \<in> set segs. seg_ok s" and i: "i < m" "segs ! i = (ws, kvs, d)"
  shows "\<exists>behind \<ge> doc_at segs i + length d. map_option unat (load (structural_indexes p) (tokpos segs (Suc i))) = Some behind"
proof -
  have ml: "m \<le> length segs" using b(1) by (simp add: batch_ready_def)
  have e: "doc_at segs i + length d = length (body (take (Suc i) segs))" by (rule doc_at_end) (use i ml in simp_all)
  show ?thesis
  proof (cases "Suc i = m")
    case True
    then show ?thesis using b e by (auto simp: batch_ready_def load_def index_value)
  next
    case False
    then have s: "Suc i < m" using i(1) by simp
    obtain ws' kvs' d' where n: "segs ! Suc i = (ws', kvs', d')" by (metis surj_pair)
    have pos: "0 < length (toks (Obj kvs'))" by simp
    have "tokpos segs (Suc i) < tokpos segs (Suc (Suc i))" using tokpos_Suc [of "Suc i" segs] s ml n by simp
    then have "tokpos segs (Suc i) < tokpos segs m" using tokpos_mono [of "Suc (Suc i)" m segs] s by simp
    from batch_token(1) [OF b this ok] have "map_option unat (load (structural_indexes p) (tokpos segs (Suc i))) =
        Some (doc_at segs (Suc i) + token_starts d' (length d') ! 0)" using batch_doc_token [OF ok s ml n pos] by simp
    moreover have "doc_at segs i + length d \<le> doc_at segs (Suc i)" unfolding e by (simp add: doc_at_def)
    ultimately show ?thesis using trans_le_add1 by blast
  qed
qed

lemma batch_exhibits:
  assumes b: "batch_ready p segs m nxt" "int nxt + 2 < INT32_MAX" and ok: "\<forall>s \<in> set segs. seg_ok s" and i: "i < m" "segs ! i = (ws, kvs, d)"
    and buf: "take (length (body (take m segs))) buf = body (take m segs)" "length (body (take m segs)) + SIMDJSON_PADDING \<le> length buf"
  shows "exhibits d kvs (doc_at segs i) (shown buf p segs i)" "doc_text kvs d" "tokpos segs i + object_end kvs = tokpos segs (Suc i)"
proof -
  let ?ji = "shown buf p segs i" and ?T = "token_starts d (length d)" and ?off = "doc_at segs i"
  have n: "nxt < 2 ^ 32" using b(2) by (simp add: INT32_MAX_def)
  have ml: "m \<le> length segs" using b(1) by (simp add: batch_ready_def)
  show dt: "doc_text kvs d" using seg_nth(2) [OF ok _ i(2)] i(1) ml by simp
  show oe: "tokpos segs i + object_end kvs = tokpos segs (Suc i)" using tokpos_Suc [of i segs] i ml by (simp add: object_end_def)
  have Sm: "tokpos segs (Suc i) \<le> tokpos segs m" by (rule tokpos_mono) (use i in simp)
  have e: "?off + length d = length (body (take (Suc i) segs))" by (rule doc_at_end) (use i ml in simp_all)
  have split: "body (take m segs) = body (take (Suc i) segs) @ body (drop (Suc i) (take m segs))"
  proof -
    have "take m segs = take (Suc i) segs @ drop (Suc i) (take m segs)"
      using append_take_drop_id [of "Suc i" "take m segs"] i(1) by (simp add: min_def)
    from arg_cong [OF this, of body] show ?thesis by (simp only: body_simps(3))
  qed
  have fits: "?off + length d \<le> length (body (take m segs))" using e split by simp
  have "take (length d) (drop ?off buf) = take (length d) (drop ?off (take (length (body (take m segs))) buf))"
    using fits by (simp add: drop_take min_def)
  also have "\<dots> = take (length d) (drop ?off (body (take m segs)))" by (simp only: buf(1))
  also have "\<dots> = d" unfolding split using i ml by (simp add: take_Suc_conv_app_nth doc_at_def)
  finally have td: "take (length d) (drop ?off buf) = d" .
  have tp: "token_peek ?ji (tokpos segs i + k) = Some (?off + ?T ! k)" if k: "k < length (toks (Obj kvs))" for k
    using batch_token(1) [OF b(1) n _ ok, of "tokpos segs i + k"] batch_doc_token [OF ok i(1) ml i(2) k] oe Sm k
    by (simp add: object_end_def del: toks.simps)
  have at: "char_at ?ji (tokpos segs i + k) = Some (toks (Obj kvs) ! k)" if k: "k < length (toks (Obj kvs))" for k
  proof -
    note t = doc_tokens(2,3) [OF dt k]
    have "take (length d) (drop ?off buf) ! (?T ! k) = toks (Obj kvs) ! k" unfolding td by (rule t(1))
    moreover have b: "?off + ?T ! k < length buf" using t(2) fits buf(2) by linarith
    ultimately have "buf ! (?off + ?T ! k) = toks (Obj kvs) ! k" using t(2) by (simp del: toks.simps)
    note this b
    then show ?thesis unfolding char_at_def tp [OF k] by (simp add: load_def del: toks.simps)
  qed
  have tk: "tokens_at ?ji (ji_root ?ji) (toks (Obj kvs))"
    unfolding tokens_at_def shown_frame using at oe Sm b(1) unfolding object_end_def batch_ready_def by (metis order_trans order_refl)
  have "tokpos segs m \<le> length (body (take m segs))"
    using tokpos_starts [OF ok, of m] by (simp add: token_starts_def) (metis diff_zero length_filter_le length_upt)
  then have max: "int (ji_n ?ji) + 2 < INT32_MAX" using b by (simp add: batch_ready_def)
  have "wf_jval (Obj kvs)" "\<forall>kv \<in> set kvs. fst kv = 0x22" using dt unfolding doc_text_def by blast+
  then have "object_doc kvs ?ji" using tk max unfolding object_doc_def by simp
  then show "exhibits d kvs ?off ?ji"
    unfolding exhibits_def root_complete_def using td tp fits buf(2) batch_behind [OF b(1) n ok i] oe by (simp del: toks.simps)
qed

section \<open>Windows of the stream\<close>

fun seg_clear :: "segment \<Rightarrow> bool" where "seg_clear (ws, kvs, d) \<longleftrightarrow> log_keys_unambiguous kvs d"

text \<open>From \<open>b\<close> on the text of the stream consists of these documents and the whitespace behind them, and each of them fits
  into a batch.\<close>

definition remains :: "document_stream \<Rightarrow> nat \<Rightarrow> segment list \<Rightarrow> u8 list \<Rightarrow> bool" where
  "remains ds b segs trail \<longleftrightarrow> b + length (body segs @ trail) = ds_len ds \<and>
     take (length (body segs @ trail)) (drop b (ds_buf ds)) = body segs @ trail \<and>
     (\<forall>s \<in> set segs. seg_ok s \<and> seg_clear s \<and> length (seg_text s) \<le> ds_batch_size ds) \<and>
     all_ws trail \<and> length trail \<le> ds_batch_size ds"

definition stream_ok :: "document_stream \<Rightarrow> bool" where
  "stream_ok ds \<longleftrightarrow> \<not> ds_comma_separated ds \<and> ds_len ds + SIMDJSON_PADDING \<le> length (ds_buf ds) \<and>
     int (ds_batch_size ds) + 2 < INT32_MAX"

definition fit_parser :: "document_stream \<Rightarrow> dom_parser_implementation \<Rightarrow> bool" where
  "fit_parser ds p \<longleftrightarrow> parser_ready p \<and> dp_capacity p = ds_batch_size ds"

text \<open>What the documents say, the first one at the offset \<open>b\<close>.\<close>

fun readings :: "(nat \<Rightarrow> (u8 \<times> jval) list \<Rightarrow> u8 list \<Rightarrow> log_doc) \<Rightarrow> nat \<Rightarrow> segment list \<Rightarrow> log_doc list" where
  "readings says b [] = []"
| "readings says b ((ws, kvs, d) # segs) = says (b + length ws) kvs d # readings says (b + length ws + length d) segs"

lemma readings_append: "readings says b (xs @ ys) = readings says b xs @ readings says (b + length (body xs)) ys"
  by (induction says b xs rule: readings.induct) (simp_all add: add.assoc)

lemma readings_drop:
  assumes "i < length segs" "segs ! i = (ws, kvs, d)"
  shows "readings says (b + length (body (take i segs))) (drop i segs) =
    says (b + doc_at segs i) kvs d # readings says (b + length (body (take (Suc i) segs))) (drop (Suc i) segs)"
proof -
  have "drop i segs = (ws, kvs, d) # drop (Suc i) segs" using assms by (simp add: Cons_nth_drop_Suc [symmetric])
  then show ?thesis using doc_at_end [OF assms, symmetric] assms by (simp add: doc_at_def add.assoc)
qed

lemma leaves_readings:
  assumes "leaves (drop m segs) segs'" "segs' \<noteq> [] \<longrightarrow> nxt + length (body segs') = length (body segs)"
  shows "readings says (b + nxt) segs' = readings says (b + length (body (take m segs))) (drop m segs)"
    "segs' = [] \<longleftrightarrow> drop m segs = []" "length segs' = length segs - m"
proof -
  have b: "length (body segs) = length (body (take m segs)) + length (body (drop m segs))"
    by (metis append_take_drop_id body_simps(3) length_append)
  from assms(1) consider "drop m segs = []" "segs' = []"
    | ws ws' kvs d rest where "drop m segs = (ws @ ws', kvs, d) # rest" "segs' = (ws', kvs, d) # rest"
    unfolding leaves_def by blast
  then have "readings says (b + nxt) segs' = readings says (b + length (body (take m segs))) (drop m segs) \<and>
    (segs' = [] \<longleftrightarrow> drop m segs = [])"
  proof (cases)
    case 2
    then have n: "nxt = length (body (take m segs)) + length ws" using assms(2) b by simp
    then show ?thesis using 2 by (simp add: ac_simps)
  qed simp
  then show "readings says (b + nxt) segs' = readings says (b + length (body (take m segs))) (drop m segs)"
    "segs' = [] \<longleftrightarrow> drop m segs = []" by blast+
  show "length segs' = length segs - m" using assms(1) unfolding leaves_def by (metis length_Cons length_drop)
qed

text \<open>Stage 1 on the window at \<open>b\<close>.\<close>

lemma run_window:
  assumes r: "remains ds b segs trail" and ok: "stream_ok ds" and p: "fit_parser ds p" and ne: "segs \<noteq> []"
  obtains p' m nxt segs' trail' where "run_stage1 ds p b = Some (SUCCESS, p')" "fit_parser ds p'" "batch_ready p' segs m nxt"
    "nxt \<le> ds_batch_size ds" "remains ds (b + nxt) segs' trail'" "leaves (drop m segs) segs'"
    "segs' \<noteq> [] \<longrightarrow> nxt + length (body segs') = length (body segs)"
proof -
  let ?W = "body segs @ trail" and ?buf = "drop b (ds_buf ds)"
  let ?fin = "length ?W \<le> ds_batch_size ds"
  let ?len = "if ?fin then length ?W else ds_batch_size ds" and ?mode = "if ?fin then streaming_final else streaming_partial"
  have rem: "ds_len ds - b = length ?W" "take (length ?W) ?buf = ?W" "\<forall>s \<in> set segs. seg_ok s" "all_ws trail" "length trail \<le> ds_batch_size ds"
    using r by (auto simp: remains_def)
  have hd: "length (seg_text (hd segs)) \<le> ds_batch_size ds" "length (seg_text (hd segs)) \<le> length ?W"
    using r ne by (cases segs; simp add: remains_def)+
  have lb: "length ?W \<le> length ?buf" using r ok by (auto simp: remains_def stream_ok_def)
  have pr: "parser_ready p" "dp_capacity p = ds_batch_size ds" using p by (simp_all add: fit_parser_def)
  have run: "run_stage1 ds p b = stage1 p ?buf ?len ?mode" by (cases ?fin) (simp_all only: run_stage1_def Let_def rem(1) if_True if_False)
  have l: "length (seg_text (hd segs)) \<le> ?len" "?len \<le> length ?W" "?len \<le> dp_capacity p" "?len \<le> ds_batch_size ds"
    using hd pr(2) by simp_all
  have md: "?mode = streaming_partial \<or> ?mode = streaming_final \<and> ?len = length ?W" by simp
  obtain p' m segs' trail' nxt where w: "stage1 p ?buf ?len ?mode = Some (SUCCESS, p')" "parser_ready p'" "dp_capacity p' = dp_capacity p"
    "0 < m" "m \<le> length segs" "unat (n_structural_indexes p') = length (concat (map toks (map seg_value (take m segs))))"
    "take (unat (n_structural_indexes p')) (structural_indexes p') =
      map of_nat (token_starts (body (take m segs)) (length (body (take m segs))))"
    "unat (n_structural_indexes p') + 1 < length (structural_indexes p')"
    "structural_indexes p' ! unat (n_structural_indexes p') = of_nat nxt" "nxt \<le> ?len" "length (body (take m segs)) \<le> nxt"
    "leaves (drop m segs) segs'" "all_ws trail'" "length trail' \<le> length trail" "drop nxt ?W = body segs' @ trail'"
    "segs' \<noteq> [] \<longrightarrow> nxt + length (body segs') = length (body segs)"
    by (rule window_documents [OF rem(3,4) ne l(1,2) rem(2) lb pr(1) l(3) md])
  have "batch_ready p' segs m nxt" using w(4-9,11) by (simp add: batch_ready_def tokpos_def)
  moreover have "fit_parser ds p'" using w(2,3) pr(2) by (simp add: fit_parser_def)
  moreover have nb: "nxt \<le> ds_batch_size ds" "nxt \<le> length ?W" using w(10) l by linarith+
  moreover have "remains ds (b + nxt) segs' trail'"
  proof -
    have len: "length (body segs' @ trail') = length ?W - nxt" using arg_cong [OF w(15), of length] by simp
    have "b + length ?W = ds_len ds" using r by (simp add: remains_def)
    then have "b + nxt + length (body segs' @ trail') = ds_len ds" unfolding len using nb(2) by linarith
    moreover have "take (length (body segs' @ trail')) (drop (b + nxt) (ds_buf ds)) = drop nxt (take (length ?W) ?buf)"
      unfolding len by (simp add: drop_take add.commute)
    then have "take (length (body segs' @ trail')) (drop (b + nxt) (ds_buf ds)) = body segs' @ trail'" unfolding rem(2) w(15) .
    moreover have "\<forall>s \<in> set segs'. seg_ok s \<and> seg_clear s \<and> length (seg_text s) \<le> ds_batch_size ds"
    proof -
      have "\<forall>s \<in> set (drop m segs). seg_clear s \<and> length (seg_text s) \<le> ds_batch_size ds"
        using r by (auto simp: remains_def dest: in_set_dropD)
      then show ?thesis using w(12) unfolding leaves_def by fastforce
    qed
    ultimately show ?thesis unfolding remains_def using w(13,14) rem(5) by linarith
  qed
  moreover have "run_stage1 ds p b = Some (SUCCESS, p')" unfolding run by (rule w(1))
  ultimately show thesis using w(12,16) by (intro that [of p' m nxt segs' trail']) simp_all
qed

lemma run_blank:
  assumes r: "remains ds b [] trail" "trail \<noteq> []" and ok: "stream_ok ds" and p: "fit_parser ds p"
  obtains p' where "run_stage1 ds p b = Some (EMPTY, p')" "n_structural_indexes p' = 0" "structural_indexes p' \<noteq> []"
    "b + unat (structural_indexes p' ! 0) = ds_len ds"
proof -
  have t: "b + length trail = ds_len ds" "take (length trail) (drop b (ds_buf ds)) = trail" "all_ws trail" "length trail \<le> ds_batch_size ds"
    using r by (simp_all add: remains_def)
  have l: "length trail \<le> length (drop b (ds_buf ds))" using t(1) ok by (auto simp: stream_ok_def)
  have pr: "parser_ready p" "length trail \<le> dp_capacity p" using p t(4) by (simp_all add: fit_parser_def)
  have md: "is_streaming streaming_final" by (simp add: is_streaming_def)
  obtain p' where p': "stage1 p (drop b (ds_buf ds)) (length trail) streaming_final = Some (EMPTY, p')" "parser_ready p'"
    "dp_capacity p' = dp_capacity p" "n_structural_indexes p' = 0" "structural_indexes p' \<noteq> []"
    "structural_indexes p' ! 0 = of_nat (length trail)"
    by (rule window_empty [OF t(3) r(2) t(2) l pr md])
  have "ds_len ds - b = length trail" using t(1) by simp
  then have "run_stage1 ds p b = Some (EMPTY, p')" using p'(1) t(4) by (simp add: run_stage1_def)
  moreover have "length trail < 2 ^ 32" using t(4) ok by (simp add: stream_ok_def INT32_MAX_def)
  ultimately show thesis using p'(4-6) t(1) by (intro that [of p']) (simp_all add: index_value)
qed

lemma remains_prefix:
  assumes "remains ds b segs trail"
  shows "take (length (body (take m segs))) (drop b (ds_buf ds)) = body (take m segs)"
proof -
  have s: "body segs = body (take m segs) @ body (drop m segs)" by (metis append_take_drop_id body_simps(3))
  have w: "take (length (body segs @ trail)) (drop b (ds_buf ds)) = body segs @ trail" using assms by (simp add: remains_def)
  have "take (length (body (take m segs))) (drop b (ds_buf ds)) =
      take (length (body (take m segs))) (take (length (body segs @ trail)) (drop b (ds_buf ds)))"
    unfolding s by (simp add: min.absorb1)
  then have "take (length (body (take m segs))) (drop b (ds_buf ds)) = take (length (body (take m segs))) (body segs @ trail)"
    by (simp only: w)
  then show ?thesis unfolding s by simp
qed

section \<open>A stream that serves its documents\<close>

text \<open>The thread has the next window as its task, and a parser that is large enough.\<close>

definition pending :: "document_stream \<Rightarrow> nat \<Rightarrow> bool" where
  "pending ds b \<longleftrightarrow> (ds_use_thread ds \<and> b < ds_len ds \<longrightarrow> ds_work ds = Some b \<and> fit_parser ds (ds_thread_parser ds))"

text \<open>The batch holds the first \<open>m\<close> of the documents \<open>segs\<close>; the ones left, \<open>segs'\<close>, begin at \<open>nxt\<close> in the window.\<close>

definition serving :: "document_stream \<Rightarrow> segment list \<Rightarrow> nat \<Rightarrow> nat \<Rightarrow> segment list \<Rightarrow> u8 list \<Rightarrow> bool" where
  "serving ds segs m nxt segs' trail' \<longleftrightarrow> ds_error ds = SUCCESS \<and> stream_ok ds \<and> fit_parser ds (ds_parser ds) \<and>
     batch_ready (ds_parser ds) segs m nxt \<and> nxt \<le> ds_batch_size ds \<and> (\<forall>s \<in> set segs. seg_ok s \<and> seg_clear s) \<and>
     take (length (body (take m segs))) (drop (ds_batch_start ds) (ds_buf ds)) = body (take m segs) \<and>
     remains ds (ds_batch_start ds + nxt) segs' trail' \<and> leaves (drop m segs) segs' \<and>
     (segs' \<noteq> [] \<longrightarrow> nxt + length (body segs') = length (body segs)) \<and> pending ds (ds_batch_start ds + nxt)"

abbreviation shows_doc :: "document_stream \<Rightarrow> segment list \<Rightarrow> nat \<Rightarrow> json_iterator" where
  "shows_doc ds segs i \<equiv> shown (drop (ds_batch_start ds) (ds_buf ds)) (ds_parser ds) segs i"

abbreviation fetch :: "document_stream \<Rightarrow> document_stream option" where
  "fetch ds \<equiv> (if ds_use_thread ds then load_from_stage1_thread ds else run_stage1_main ds)"

lemma batch_next:
  assumes "batch_ready p segs m nxt" "int nxt + 2 < INT32_MAX"
  shows "load (structural_indexes p) (unat (n_structural_indexes p)) = Some (of_nat nxt)" "unat (of_nat nxt :: u32) = nxt"
  using assms by (simp_all add: batch_ready_def load_def index_value INT32_MAX_def)

text \<open>The next batch is there, indexed now or by the thread.\<close>

lemma fetch_documents:
  assumes r: "remains ds b segs trail" and b: "ds_batch_start ds = b" "b < ds_len ds" and ok: "stream_ok ds" and p: "fit_parser ds (ds_parser ds)"
    and t: "pending ds b" and ne: "segs \<noteq> []"
  obtains ds' m nxt segs' trail' where "fetch ds = Some ds'" "serving ds' segs m nxt segs' trail'" "ds_batch_start ds' = b"
    "ds_use_thread ds' = ds_use_thread ds"
proof -
  have bounds: "b + nxt \<le> ds_len ds" if "remains ds (b + nxt) segs' trail'" for nxt segs' trail' using that by (simp add: remains_def)
  note pre = remains_prefix [OF r]
  have segs: "\<forall>s \<in> set segs. seg_ok s \<and> seg_clear s" using r by (auto simp: remains_def)
  show thesis
  proof (cases "ds_use_thread ds")
    case False
    obtain p' m nxt segs' trail' where w: "run_stage1 ds (ds_parser ds) b = Some (SUCCESS, p')" "fit_parser ds p'" "batch_ready p' segs m nxt"
      "nxt \<le> ds_batch_size ds" "remains ds (b + nxt) segs' trail'" "leaves (drop m segs) segs'"
      "segs' \<noteq> [] \<longrightarrow> nxt + length (body segs') = length (body segs)"
      by (rule run_window [OF r ok p ne])
    let ?ds = "ds\<lparr>ds_error := SUCCESS, ds_parser := p'\<rparr>"
    have "fetch ds = Some ?ds" using False w(1) b(1) by (simp add: run_stage1_main_def)
    moreover have "serving ?ds segs m nxt segs' trail'"
      using w(2-) ok segs pre b(1) False by (simp add: serving_def stream_ok_def fit_parser_def remains_def pending_def)
    ultimately show thesis using b(1) False by (intro that [of ?ds]) simp_all
  next
    case True
    then have work: "ds_work ds = Some b" "fit_parser ds (ds_thread_parser ds)" using t b(2) by (simp_all add: pending_def)
    obtain p' m nxt segs' trail' where w: "run_stage1 ds (ds_thread_parser ds) b = Some (SUCCESS, p')" "fit_parser ds p'"
      "batch_ready p' segs m nxt" "nxt \<le> ds_batch_size ds" "remains ds (b + nxt) segs' trail'" "leaves (drop m segs) segs'"
      "segs' \<noteq> [] \<longrightarrow> nxt + length (body segs') = length (body segs)"
      by (rule run_window [OF r ok work(2) ne])
    have n: "int nxt + 2 < INT32_MAX" using w(4) ok by (simp add: stream_ok_def)
    let ?ds1 = "ds\<lparr>ds_thread_error := SUCCESS, ds_thread_parser := ds_parser ds, ds_work := None, ds_parser := p', ds_error := SUCCESS\<rparr>"
    let ?ds = "if b + nxt < ds_len ds then ?ds1\<lparr>ds_thread_error := UNINITIALIZED, ds_work := Some (b + nxt)\<rparr> else ?ds1"
    have "worker_step ds = Some (ds\<lparr>ds_thread_error := SUCCESS, ds_thread_parser := p', ds_work := None\<rparr>)"
      using work(1) w(1) by (simp add: worker_step_def)
    then have "fetch ds = Some ?ds" using True b(1) batch_next [OF w(3) n]
      by (simp add: load_from_stage1_thread_def next_batch_start_def start_stage1_thread_def)
    moreover have "serving ?ds segs m nxt segs' trail'"
      using w(2-) ok p segs pre b(1) True by (simp add: serving_def stream_ok_def fit_parser_def remains_def pending_def)
    ultimately show thesis using b(1) True by (intro that [of ?ds]) simp_all
  qed
qed

lemma fetch_blank:
  assumes r: "remains ds b [] trail" and b: "ds_batch_start ds = b" "b < ds_len ds" and ok: "stream_ok ds" and p: "fit_parser ds (ds_parser ds)"
    and t: "pending ds b"
  obtains ds' where "fetch ds = Some ds'" "ds_error ds' = EMPTY" "next_batch_start ds' = Some (ds_len ds')"
proof -
  have ne: "trail \<noteq> []" using r b(2) by (auto simp: remains_def)
  show thesis
  proof (cases "ds_use_thread ds")
    case False
    obtain p' where w: "run_stage1 ds (ds_parser ds) b = Some (EMPTY, p')" "n_structural_indexes p' = 0" "structural_indexes p' \<noteq> []"
      "b + unat (structural_indexes p' ! 0) = ds_len ds"
      by (rule run_blank [OF r ne ok p])
    then show thesis using False b(1)
      by (intro that [of "ds\<lparr>ds_error := EMPTY, ds_parser := p'\<rparr>"]) (simp_all add: run_stage1_main_def next_batch_start_def load_def)
  next
    case True
    then have work: "ds_work ds = Some b" "fit_parser ds (ds_thread_parser ds)" using t b(2) by (simp_all add: pending_def)
    obtain p' where w: "run_stage1 ds (ds_thread_parser ds) b = Some (EMPTY, p')" "n_structural_indexes p' = 0" "structural_indexes p' \<noteq> []"
      "b + unat (structural_indexes p' ! 0) = ds_len ds"
      by (rule run_blank [OF r ne ok work(2)])
    then show thesis using True b(1) work(1)
      by (intro that [of "ds\<lparr>ds_thread_error := EMPTY, ds_thread_parser := ds_parser ds, ds_work := None, ds_parser := p', ds_error := EMPTY\<rparr>"])
        (simp_all add: load_from_stage1_thread_def worker_step_def next_batch_start_def load_def)
  qed
qed

lemma anchor_first:
  "anchor ds = ds\<lparr>ds_iter := put [] (shows_doc ds segs 0) AtRoot\<rparr>"
  by (simp add: anchor_def shown_def put_def json_iterator_new_def tokpos_def)

lemma serving_frame:
  "serving (ds\<lparr>ds_iter := ji\<rparr>) = serving ds" "serving (ds\<lparr>ds_doc_index := k\<rparr>) = serving ds"
  by (auto simp: fun_eq_iff serving_def stream_ok_def fit_parser_def remains_def pending_def)

text \<open>A document of the batch.\<close>

lemma serving_doc:
  assumes s: "serving ds segs m nxt segs' trail'" and i: "i < m" "segs ! i = (ws, kvs, d)"
  shows "exhibits d kvs (doc_at segs i) (shows_doc ds segs i)" "doc_text kvs d" "tokpos segs i + object_end kvs = tokpos segs (Suc i)"
    "log_keys_unambiguous kvs d" "i < length segs" "tokpos segs m < length (structural_indexes (ds_parser ds))"
proof -
  have b: "batch_ready (ds_parser ds) segs m nxt" "int nxt + 2 < INT32_MAX" "\<forall>s \<in> set segs. seg_ok s"
    and c: "\<forall>s \<in> set segs. seg_clear s"
    and buf: "take (length (body (take m segs))) (drop (ds_batch_start ds) (ds_buf ds)) = body (take m segs)"
    using s by (auto simp: serving_def stream_ok_def)
  have "ds_batch_start ds + nxt \<le> ds_len ds" "ds_len ds + SIMDJSON_PADDING \<le> length (ds_buf ds)"
    using s by (auto simp: serving_def remains_def stream_ok_def)
  then have "length (body (take m segs)) + SIMDJSON_PADDING \<le> length (drop (ds_batch_start ds) (ds_buf ds))"
    using b(1) by (auto simp: batch_ready_def)
  from batch_exhibits [OF b i buf this]
  show "exhibits d kvs (doc_at segs i) (shows_doc ds segs i)" "doc_text kvs d" "tokpos segs i + object_end kvs = tokpos segs (Suc i)"
    by blast+
  show "i < length segs" using b(1) i(1) by (simp add: batch_ready_def)
  then have "seg_clear (segs ! i)" using c by simp
  then show "log_keys_unambiguous kvs d" by (simp add: i(2))
  show "tokpos segs m < length (structural_indexes (ds_parser ds))" using b(1) by (simp add: batch_ready_def)
qed

lemma next_document_at:
  assumes s: "serving ds segs m nxt segs' trail'" and i: "i < m" "segs ! i = (ws, kvs, d)"
    and p: "ds_iter ds = put kvs (shows_doc ds segs i) p" "proper kvs p"
  shows "next_document ds = Some (ds\<lparr>ds_iter := put [] (shows_doc ds segs (Suc i)) AtRoot\<rparr>)"
proof -
  note d = serving_doc [OF s i]
  have e: "ds_error ds = SUCCESS" "\<not> ds_comma_separated ds" using s by (simp_all add: serving_def stream_ok_def)
  have "object_doc kvs (shows_doc ds segs i)" using d(1) by (simp add: exhibits_def)
  from skip_document [OF this p(2)] have sk: "ji_skip_child (ds_iter ds) 0 = Some (SUCCESS, put kvs (shows_doc ds segs i) Closed)"
    by (simp add: p(1))
  show ?thesis unfolding next_document_def sk using e d(3) by (simp add: put_def shown_def json_iterator_new_def)
qed

text \<open>From the last document of a batch to the first one of the next.\<close>

lemma load_next:
  assumes r: "remains ds c segs trail" and c: "next_batch_start ds = Some c" and ok: "stream_ok ds" "ds_error ds = EMPTY"
    and p: "fit_parser ds (ds_parser ds)" and t: "pending ds c"
  obtains ds' where "segs = []" "load_loop ds = Some ds'" "ds_error ds' = EMPTY"
  | ds' m nxt segs' trail' where "segs \<noteq> []" "load_loop ds = Some ds'" "serving ds' segs m nxt segs' trail'" "ds_batch_start ds' = c"
    "ds_iter ds' = put [] (shows_doc ds' segs 0) AtRoot"
proof -
  let ?ds = "ds\<lparr>ds_batch_start := c\<rparr>"
  have step: "load_loop ds = (if c \<ge> ds_len ds then Some ?ds
      else do { ds \<leftarrow> fetch ?ds; let ds = anchor ds; load_loop (if ds_error ds \<noteq> SUCCESS then ds else ds\<lparr>ds_doc_index := ds_batch_start ds\<rparr>) })"
    by (subst load_loop.simps) (simp add: ok(2) c Let_def)
  have frame: "remains ?ds c segs trail" "ds_batch_start ?ds = c" "stream_ok ?ds" "fit_parser ?ds (ds_parser ?ds)" "pending ?ds c"
    using r ok(1) p t by (simp_all add: remains_def stream_ok_def fit_parser_def pending_def)
  show thesis
  proof (cases "c < ds_len ds")
    case False
    have "c + length (body segs @ trail) = ds_len ds" "\<forall>s \<in> set segs. seg_ok s" using r by (auto simp: remains_def)
    moreover from this have "length (body segs @ trail) = 0" using False by linarith
    ultimately have "body segs = []" "\<forall>s \<in> set segs. seg_ok s" by simp_all
    then have "segs = []" using seg_facts(7) [of "hd segs"] by (cases segs) auto
    then show thesis using that(1) [of ?ds] step False ok(2) by simp
  next
    case True
    then have lt: "c < ds_len ?ds" by simp
    show thesis
    proof (cases "segs = []")
      case True
      obtain ds' where f: "fetch ?ds = Some ds'" "ds_error ds' = EMPTY" "next_batch_start ds' = Some (ds_len ds')"
        by (rule fetch_blank [OF frame(1) [unfolded True] frame(2) lt frame(3-5)])
      have a: "anchor ds' = ds'\<lparr>ds_iter := put [] (shows_doc ds' [] 0) AtRoot\<rparr>" by (rule anchor_first)
      have "load_loop (anchor ds') = Some (anchor ds'\<lparr>ds_batch_start := ds_len ds'\<rparr>)"
        using f(2,3) by (subst load_loop.simps) (simp add: a next_batch_start_def)
      then show thesis using that(1) [OF True] step lt f(1,2) by (simp add: a)
    next
      case False
      obtain ds' m nxt segs' trail' where f: "fetch ?ds = Some ds'" "serving ds' segs m nxt segs' trail'" "ds_batch_start ds' = c"
        "ds_use_thread ds' = ds_use_thread ?ds"
        by (rule fetch_documents [OF frame(1,2) lt frame(3-5) False])
      let ?ds' = "ds'\<lparr>ds_iter := put [] (shows_doc ds' segs 0) AtRoot, ds_doc_index := c\<rparr>"
      have e: "ds_error ds' = SUCCESS" using f(2) by (simp add: serving_def)
      have "load_loop ?ds' = Some ?ds'" using e by (subst load_loop.simps) simp
      then have "load_loop ds = Some ?ds'" using step lt f(1,3) e anchor_first [of ds' segs] by simp
      then show thesis using that(2) [OF False, of ?ds'] f(2,3) by (simp add: serving_frame)
    qed
  qed
qed

section \<open>All documents\<close>

context document_reader begin

lemma serve:
  assumes "serving ds segs m nxt segs' trail'" "i < m" "ds_iter ds = put [] (shows_doc ds segs i) AtRoot"
  shows "stream_items_from reader ds False =
    Some (map Doc (readings says (ds_batch_start ds + length (body (take i segs))) (drop i segs)))"
  using assms
proof (induction "length segs - i" arbitrary: ds segs m nxt segs' trail' i rule: less_induct)
  case less
  let ?b = "ds_batch_start ds"
  obtain ws kvs d where si: "segs ! i = (ws, kvs, d)" by (metis surj_pair)
  note sd = serving_doc [OF less.prems(1,2) si]
  have e: "ds_error ds = SUCCESS" using less.prems(1) by (simp add: serving_def)
  have at: "ds_iter ds = put kvs (shows_doc ds segs i) AtRoot" using less.prems(3) by (simp add: put_def)
  obtain p where rd: "reader ?b (ds_iter ds) = Some (says (?b + doc_at segs i) kvs d, put kvs (shows_doc ds segs i) p)" "proper kvs p"
    using reads [OF sd(1,2,4), of ?b] at by auto
  let ?ds = "ds\<lparr>ds_iter := put kvs (shows_doc ds segs i) p\<rparr>"
  have sv: "serving ?ds segs m nxt segs' trail'" using less.prems(1) by (simp add: serving_frame)
  let ?nd = "ds\<lparr>ds_iter := put [] (shows_doc ds segs (Suc i)) AtRoot\<rparr>"
  have nd: "next_document ?ds = Some ?nd" using next_document_at [OF sv less.prems(2) si _ rd(2)] by simp
  have all: "stream_items_from reader ds False = (do { (ds, finished) \<leftarrow> ds_increment ?ds False;
      items \<leftarrow> stream_items_from reader ds finished; Some (Doc (says (?b + doc_at segs i) kvs d) # items) })"
    by (subst stream_items_from.simps) (simp add: e rd(1))
  have rest: "readings says (?b + length (body (take i segs))) (drop i segs) =
      says (?b + doc_at segs i) kvs d # readings says (?b + length (body (take (Suc i) segs))) (drop (Suc i) segs)"
    by (rule readings_drop [OF sd(5) si])
  have tm: "tokpos segs (Suc i) \<le> tokpos segs m" by (rule tokpos_mono) (use less.prems(2) in simp)
  then have ld: "load (structural_indexes (ds_parser ds)) (tokpos segs (Suc i)) = Some (structural_indexes (ds_parser ds) ! tokpos segs (Suc i))"
    using sd(6) by (simp add: load_def)
  have n: "unat (n_structural_indexes (ds_parser ds)) = tokpos segs m" using less.prems(1) by (simp add: serving_def batch_ready_def)
  let ?i = "?nd\<lparr>ds_doc_index := ?b + unat (structural_indexes (ds_parser ds) ! tokpos segs (Suc i))\<rparr>"
  have nx: "ds_next ?ds = (if tokpos segs (Suc i) \<ge> tokpos segs m then load_loop (?i\<lparr>ds_error := EMPTY\<rparr>) else Some ?i)"
    unfolding ds_next_def using nd e ld n by (simp add: Let_def)
  show ?case
  proof (cases "Suc i < m")
    case True
    obtain ws' kvs' d' where sj: "segs ! Suc i = (ws', kvs', d')" by (metis surj_pair)
    have "Suc i < length segs" using serving_doc(5) [OF less.prems(1) True sj] .
    then have "tokpos segs (Suc i) < tokpos segs (Suc (Suc i))" using tokpos_Suc [of "Suc i" segs] sj by simp
    then have "tokpos segs (Suc i) < tokpos segs m" using tokpos_mono [of "Suc (Suc i)" m segs] True by simp
    then have "ds_increment ?ds False = Some (?i, False)" using nx e by (simp add: ds_increment_def)
    moreover have "stream_items_from reader ?i False =
        Some (map Doc (readings says (?b + length (body (take (Suc i) segs))) (drop (Suc i) segs)))"
      using less.hyps [of segs "Suc i" ?i m nxt segs' trail'] less.prems(1) True sd(5) by (simp add: serving_frame)
    ultimately show ?thesis unfolding all rest by simp
  next
    case False
    then have m: "m = Suc i" using less.prems(2) by simp
    let ?e = "?i\<lparr>ds_error := EMPTY\<rparr>"
    have s: "stream_ok ds" "fit_parser ds (ds_parser ds)" "batch_ready (ds_parser ds) segs m nxt" "int nxt + 2 < INT32_MAX"
      "remains ds (?b + nxt) segs' trail'" "leaves (drop m segs) segs'" "segs' \<noteq> [] \<longrightarrow> nxt + length (body segs') = length (body segs)"
      "pending ds (?b + nxt)"
      using less.prems(1) by (auto simp: serving_def stream_ok_def)
    note lr = leaves_readings [OF s(6,7)]
    have pre: "remains ?e (?b + nxt) segs' trail'" "next_batch_start ?e = Some (?b + nxt)" "stream_ok ?e" "ds_error ?e = EMPTY"
      "fit_parser ?e (ds_parser ?e)" "pending ?e (?b + nxt)"
      using s batch_next [OF s(3,4)] by (simp_all add: remains_def stream_ok_def fit_parser_def pending_def next_batch_start_def)
    have nx': "ds_next ?ds = load_loop ?e" using nx m by simp
    from load_next [OF pre] show ?thesis
    proof cases
      case (1 ds')
      have "ds_increment ?ds False = Some (ds', True)" using nx' 1 e by (simp add: ds_increment_def)
      moreover have "stream_items_from reader ds' True = Some []" by (subst stream_items_from.simps) simp
      moreover have "drop (Suc i) segs = []" using lr(2) 1(1) m by simp
      ultimately show ?thesis unfolding all rest by simp
    next
      case (2 ds' m' nxt' segs'' trail'')
      have e': "ds_error ds' = SUCCESS" and m': "0 < m'" using 2(3) by (simp_all add: serving_def batch_ready_def)
      have "ds_increment ?ds False = Some (ds', False)" using nx' 2(2) e e' by (simp add: ds_increment_def)
      moreover have "length segs' - 0 < length segs - i" using lr(3) m sd(5) by simp
      then have "stream_items_from reader ds' False = Some (map Doc (readings says (ds_batch_start ds') segs'))"
        using less.hyps [of segs' 0 ds' m' nxt' segs'' trail''] 2(3,5) m' by simp
      ultimately show ?thesis unfolding all rest using lr(1) [of says ?b] 2(4) m by simp
    qed
  qed
qed

end

section \<open>The first batch\<close>

text \<open>A parser that the stream can allocate.\<close>

definition usable :: "nat \<Rightarrow> dom_parser_implementation \<Rightarrow> bool" where
  "usable batch_size p \<longleftrightarrow> (dp_capacity p = batch_size \<longrightarrow> parser_ready p)"

lemma allocate_fit:
  assumes "allocates alloc" "usable (ds_batch_size ds) p" "stream_ok ds"
  obtains p' where "parser_allocate alloc (ds_batch_size ds) p = (SUCCESS, p')" "fit_parser ds p'"
proof -
  have max: "\<not> ds_batch_size ds > SIMDJSON_MAXSIZE_BYTES" using assms(3) by (simp add: stream_ok_def SIMDJSON_MAXSIZE_BYTES_def INT32_MAX_def)
  show thesis
  proof (cases "dp_capacity p = ds_batch_size ds")
    case True
    then show thesis using that [of p] max assms(2) by (simp add: parser_allocate_def usable_def fit_parser_def)
  next
    case False
    let ?c = "set_capacity alloc (ds_batch_size ds) p"
    obtain mem where "alloc (9 + SIMDJSON_ROUNDUP_64 (ds_batch_size ds)) = Some mem" using assms(1) by (auto simp: allocates_def)
    then have s: "fst ?c = SUCCESS" using max by (simp add: set_capacity_def Let_def)
    from set_capacity_ready [OF allocates_length [OF assms(1)] s] have "fit_parser ds (snd ?c)" by (simp add: fit_parser_def)
    moreover have "?c = (SUCCESS, snd ?c)" using s by (metis prod.collapse)
    ultimately show thesis using that [of "snd ?c"] max False by (simp add: parser_allocate_def)
  qed
qed

lemma start_documents:
  assumes r: "remains ds 0 segs trail" and len: "0 < ds_len ds" and ok: "stream_ok ds" and e: "ds_error ds = SUCCESS"
    and al: "allocates alloc" "usable (ds_batch_size ds) (ds_parser ds)" "usable (ds_batch_size ds) (ds_thread_parser ds)"
  obtains ds' where "segs = []" "ds_start alloc ds = Some ds'" "ds_error ds' = EMPTY"
  | ds' m nxt segs' trail' where "segs \<noteq> []" "ds_start alloc ds = Some ds'" "serving ds' segs m nxt segs' trail'" "ds_batch_start ds' = 0"
    "ds_iter ds' = put [] (shows_doc ds' segs 0) AtRoot"
proof -
  obtain p where p: "parser_allocate alloc (ds_batch_size ds) (ds_parser ds) = (SUCCESS, p)" "fit_parser ds p"
    by (rule allocate_fit [OF al(1,2) ok])
  let ?ds = "ds\<lparr>ds_error := SUCCESS, ds_parser := p, ds_batch_start := 0\<rparr>"
  have "remains ?ds 0 segs trail = remains ds 0 segs trail" by (simp add: remains_def)
  then have frame: "remains ?ds 0 segs trail" "stream_ok ?ds" "fit_parser ?ds p"
    using r ok p(2) by (simp_all add: stream_ok_def fit_parser_def)
  show thesis
  proof (cases "segs = []")
    case True
    then have "trail \<noteq> []" using r len by (auto simp: remains_def)
    then obtain p' where w: "run_stage1 ?ds p 0 = Some (EMPTY, p')" "n_structural_indexes p' = 0" "structural_indexes p' \<noteq> []"
      "0 + unat (structural_indexes p' ! 0) = ds_len ?ds"
      using run_blank [OF frame(1) [unfolded True] _ frame(2,3)] by blast
    let ?e = "?ds\<lparr>ds_error := EMPTY, ds_parser := p'\<rparr>"
    have "run_stage1_main ?ds = Some ?e" using w(1) by (simp add: run_stage1_main_def)
    moreover have "start_loop ?e = Some (True, ?e\<lparr>ds_batch_start := ds_len ds\<rparr>)"
      using w by (subst start_loop.simps) (simp add: next_batch_start_def load_def)
    ultimately show thesis using that(1) [OF True, of "?e\<lparr>ds_batch_start := ds_len ds\<rparr>"] e p(1) by (simp add: ds_start_def)
  next
    case False
    obtain p' m nxt segs' trail' where w: "run_stage1 ?ds p 0 = Some (SUCCESS, p')" "fit_parser ?ds p'" "batch_ready p' segs m nxt"
      "nxt \<le> ds_batch_size ?ds" "remains ?ds (0 + nxt) segs' trail'" "leaves (drop m segs) segs'"
      "segs' \<noteq> [] \<longrightarrow> nxt + length (body segs') = length (body segs)"
      by (rule run_window [OF frame False])
    have n: "int nxt + 2 < INT32_MAX" using w(4) ok by (simp add: stream_ok_def)
    note bn = batch_next [OF w(3) n]
    have segs: "\<forall>s \<in> set segs. seg_ok s \<and> seg_clear s" using r by (auto simp: remains_def)
    let ?e = "?ds\<lparr>ds_error := SUCCESS, ds_parser := p'\<rparr>"
    let ?a = "?e\<lparr>ds_doc_index := 0, ds_iter := put [] (shows_doc ?e segs 0) AtRoot\<rparr>"
    have run: "run_stage1_main ?ds = Some ?e" using w(1) by (simp add: run_stage1_main_def)
    have sl: "start_loop ?e = Some (False, ?e)" by (subst start_loop.simps) simp
    show thesis
    proof (cases "ds_use_thread ds \<and> nxt < ds_len ds")
      case True
      obtain tp where tp: "parser_allocate alloc (ds_batch_size ds) (ds_thread_parser ds) = (SUCCESS, tp)" "fit_parser ds tp"
        by (rule allocate_fit [OF al(1,3) ok])
      let ?f = "?a\<lparr>ds_error := SUCCESS, ds_thread_parser := tp, ds_thread_error := UNINITIALIZED, ds_work := Some nxt\<rparr>"
      have "ds_start alloc ds = Some ?f"
        unfolding ds_start_def using e p(1) run sl True bn tp(1) by (simp add: next_batch_start_def start_stage1_thread_def anchor_first [of _ segs])
      moreover have "serving ?f segs m nxt segs' trail'"
        using w(2-) ok segs remains_prefix [OF r, of m] tp(2) by (simp add: serving_def stream_ok_def fit_parser_def remains_def pending_def)
      ultimately show thesis by (intro that(2) [OF False, of ?f]) simp_all
    next
      case nothread: False
      have "ds_start alloc ds = Some ?a"
        unfolding ds_start_def using e p(1) run sl nothread bn by (simp add: next_batch_start_def anchor_first [of _ segs] Let_def)
      moreover have "serving ?a segs m nxt segs' trail'"
        using w(2-) ok segs remains_prefix [OF r, of m] nothread by (auto simp: serving_def stream_ok_def fit_parser_def remains_def pending_def)
      ultimately show thesis by (intro that(2) [OF False, of ?a]) simp_all
    qed
  qed
qed

text \<open>Texts of log documents, each of which fits into a batch.\<close>

definition log_text :: "nat \<Rightarrow> segment list \<Rightarrow> u8 list \<Rightarrow> bool" where
  "log_text batch_size segs trail \<longleftrightarrow> (\<forall>s \<in> set segs. seg_ok s \<and> seg_clear s \<and> length (seg_text s) \<le> batch_size) \<and>
     all_ws trail \<and> length trail \<le> batch_size \<and> body segs @ trail \<noteq> []"

lemma log_text_no_bom:
  assumes "log_text batch_size segs trail"
  shows "hd ((body segs @ trail) @ pad) \<noteq> 0xEF"
proof -
  have t: "is_ws (hd (body segs @ trail)) \<or> hd (body segs @ trail) = LBRACE"
  proof (cases segs)
    case Nil
    then show ?thesis using assms by (cases trail) (auto simp: log_text_def)
  next
    case (Cons s ss)
    obtain ws kvs d where s: "s = (ws, kvs, d)" by (metis surj_pair)
    then have "all_ws ws" "doc_text kvs d" using assms Cons by (simp_all add: log_text_def)
    moreover from this have "d \<noteq> []" "hd d = LBRACE" using doc_nonempty by (blast, simp add: doc_text_def)
    ultimately show ?thesis unfolding Cons s by (cases ws) simp_all
  qed
  have "hd ((body segs @ trail) @ pad) = hd (body segs @ trail)" using assms by (simp add: log_text_def hd_append)
  moreover have "\<not> is_ws 0xEF" "LBRACE \<noteq> 0xEF" by (simp_all add: is_ws_def)
  ultimately show ?thesis using t by metis
qed

lemma bom_skipped:
  assumes "log_text batch_size segs trail" "mark = [] \<or> mark = bom"
  shows "bom_length (mark @ (body segs @ trail) @ pad) (length (mark @ body segs @ trail)) = length mark"
  by (rule bom_length_mark [OF log_text_no_bom [OF assms(1)] assms(2)])

context document_reader begin

lemma stream_delivers:
  assumes t: "log_text batch_size segs trail" and m: "mark = [] \<or> mark = bom" and pad: "SIMDJSON_PADDING \<le> length pad"
    and bs: "MINIMAL_BATCH_SIZE \<le> batch_size" "int batch_size + 2 < INT32_MAX"
    and al: "allocates alloc" "usable batch_size parser" "usable batch_size thread_parser"
  shows "stream_items reader alloc (iterate_many threaded parser thread_parser (mark @ (body segs @ trail) @ pad)
      (length (mark @ body segs @ trail)) batch_size False) = Some (map Doc (readings says 0 segs))"
proof -
  let ?ds = "document_stream_new threaded parser thread_parser ((body segs @ trail) @ pad) (length (body segs @ trail)) batch_size False"
  have it: "iterate_many threaded parser thread_parser (mark @ (body segs @ trail) @ pad) (length (mark @ body segs @ trail)) batch_size False = ?ds"
    unfolding iterate_many_def bom_skipped [OF t m] Let_def using bs(1) by simp
  have b: "ds_batch_size ?ds = batch_size" using bs(1) by (simp add: document_stream_new_def)
  have "remains ?ds 0 segs trail" "stream_ok ?ds" "0 < ds_len ?ds" "ds_error ?ds = SUCCESS"
    using t pad bs by (simp_all add: remains_def stream_ok_def log_text_def document_stream_new_def)
  moreover have u: "usable (ds_batch_size ?ds) (ds_parser ?ds)" "usable (ds_batch_size ?ds) (ds_thread_parser ?ds)"
    using al(2,3) unfolding b by (simp_all add: document_stream_new_def)
  ultimately have start: "remains ?ds 0 segs trail" "0 < ds_len ?ds" "stream_ok ?ds" "ds_error ?ds = SUCCESS" by blast+
  have "stream_items reader alloc ?ds = Some (map Doc (readings says 0 segs))"
    using start_documents [OF start al(1) u]
  proof cases
    case (1 ds')
    have "stream_items_from reader ds' True = Some []" by (subst stream_items_from.simps) simp
    then show ?thesis using 1 by (simp add: stream_items_def)
  next
    case (2 ds' m' nxt segs' trail')
    have e': "ds_error ds' = SUCCESS" and m': "0 < m'" using 2(3) by (simp_all add: serving_def batch_ready_def)
    show ?thesis using serve [OF 2(3) m' 2(5)] 2(2,4) e' by (simp add: stream_items_def)
  qed
  then show ?thesis unfolding it .
qed

end

lemma readings_shift: "readings (\<lambda>off. says (k + off)) b segs = readings says (k + b) segs"
  by (induction "\<lambda>off. says (k + off)" b segs rule: readings.induct) (simp_all add: add.assoc)

section \<open>The time of the thread\<close>

text \<open>The thread reads only what the stream does not change while it works.\<close>

lemma run_stage1_frame:
  "run_stage1 (ds\<lparr>ds_iter := ji\<rparr>) = run_stage1 ds" "run_stage1 (ds\<lparr>ds_error := e\<rparr>) = run_stage1 ds"
  "run_stage1 (ds\<lparr>ds_doc_index := k\<rparr>) = run_stage1 ds" "run_stage1 (ds\<lparr>ds_batch_start := b\<rparr>) = run_stage1 ds"
  by (simp_all add: fun_eq_iff run_stage1_def Let_def)

text \<open>What the thread leaves behind when it has done its work early is what the stream would wait for.\<close>

lemma load_after_worker: "worker_step ds = Some ds' \<Longrightarrow> load_from_stage1_thread ds' = load_from_stage1_thread ds"
  by (auto simp: load_from_stage1_thread_def worker_step_def bind_eq_Some_conv split: option.splits)

definition worked :: "error_code \<Rightarrow> dom_parser_implementation \<Rightarrow> document_stream \<Rightarrow> document_stream" where
  "worked e p ds = ds\<lparr>ds_thread_error := e, ds_thread_parser := p, ds_work := None\<rparr>"

lemma worked_frame [simp]:
  "ds_error (worked e p ds) = ds_error ds" "ds_iter (worked e p ds) = ds_iter ds" "ds_len (worked e p ds) = ds_len ds"
  "ds_comma_separated (worked e p ds) = ds_comma_separated ds"
  "ds_use_thread (worked e p ds) = ds_use_thread ds" "ds_parser (worked e p ds) = ds_parser ds" "ds_work (worked e p ds) = None"
  "ds_batch_start (worked e p ds) = ds_batch_start ds" "next_batch_start (worked e p ds) = next_batch_start ds"
  "(worked e p ds)\<lparr>ds_error := e'\<rparr> = worked e p (ds\<lparr>ds_error := e'\<rparr>)" "(worked e p ds)\<lparr>ds_iter := ji\<rparr> = worked e p (ds\<lparr>ds_iter := ji\<rparr>)"
  "(worked e p ds)\<lparr>ds_doc_index := k\<rparr> = worked e p (ds\<lparr>ds_doc_index := k\<rparr>)"
  "(worked e p ds)\<lparr>ds_batch_start := b\<rparr> = worked e p (ds\<lparr>ds_batch_start := b\<rparr>)"
  by (simp_all add: worked_def next_batch_start_def)

lemma map_option_bind_case: "map_option f (Option.bind x g) = Option.bind x (\<lambda>y. map_option f (g y))"
  by (cases x) simp_all

lemma next_document_worked: "next_document (worked e p ds) = map_option (worked e p) (next_document ds)"
  by (cases "ji_skip_child (ds_iter ds) 0"; cases "ds_comma_separated ds")
    (auto simp: next_document_def Let_def map_option_bind_case case_prod_unfold)

lemma next_document_frame: "next_document ds = Some ds1 \<Longrightarrow> \<exists>e ji. ds1 = ds\<lparr>ds_error := e, ds_iter := ji\<rparr>"
  by (auto simp: next_document_def bind_eq_Some_conv Let_def split: if_splits; metis)

definition at_work :: "error_code \<Rightarrow> dom_parser_implementation \<Rightarrow> document_stream \<Rightarrow> bool" where
  "at_work e p ds \<longleftrightarrow> ds_use_thread ds \<and> (\<exists>start. ds_work ds = Some start \<and> run_stage1 ds (ds_thread_parser ds) start = Some (e, p))"

lemma at_work_frame:
  "at_work e p (ds\<lparr>ds_iter := ji\<rparr>) = at_work e p ds" "at_work e p (ds\<lparr>ds_error := e'\<rparr>) = at_work e p ds"
  "at_work e p (ds\<lparr>ds_doc_index := k\<rparr>) = at_work e p ds" "at_work e p (ds\<lparr>ds_batch_start := b\<rparr>) = at_work e p ds"
  by (simp_all add: at_work_def run_stage1_frame)

lemma at_work_step: "at_work e p ds \<Longrightarrow> worker_step ds = Some (worked e p ds)" "worker_step (worked e p ds) = Some (worked e p ds)"
  by (auto simp: at_work_def worker_step_def worked_def)

lemma load_loop_worked:
  assumes w: "at_work e p ds" and empty: "ds_error ds = EMPTY"
  shows "load_loop (worked e p ds) \<bind> worker_step = load_loop ds \<bind> worker_step"
proof (cases "next_batch_start ds")
  case None
  then show ?thesis using empty by (subst (1 2) load_loop.simps) simp
next
  case (Some b)
  let ?b = "ds\<lparr>ds_batch_start := b\<rparr>"
  have wb: "worker_step ?b = Some (worked e p ?b)" using w by (intro at_work_step) (simp add: at_work_frame)
  show ?thesis
  proof (cases "b \<ge> ds_len ds")
    case True
    then have "load_loop ds = Some ?b" "load_loop (worked e p ds) = Some (worked e p ?b)"
      using Some empty by (subst load_loop.simps, simp)+
    then show ?thesis using wb at_work_step(2) by simp
  next
    case False
    have "load_loop x = (do { ds \<leftarrow> load_from_stage1_thread (x\<lparr>ds_batch_start := b\<rparr>); let ds = anchor ds;
        load_loop (if ds_error ds \<noteq> SUCCESS then ds else ds\<lparr>ds_doc_index := ds_batch_start ds\<rparr>) })"
      if "ds_error x = EMPTY" "next_batch_start x = Some b" "\<not> ds_len x \<le> b" "ds_use_thread x" for x
      by (subst load_loop.simps) (use that in simp)
    from this [of ds] this [of "worked e p ds"] have "load_loop (worked e p ds) = load_loop ds"
      using empty Some False w load_after_worker [OF wb] by (simp add: at_work_def)
    then show ?thesis by simp
  qed
qed

lemma ds_next_worked:
  assumes w: "at_work e p ds"
  shows "ds_next (worked e p ds) \<bind> worker_step = ds_next ds \<bind> worker_step"
proof (cases "ds_error ds = SUCCESS")
  case False
  then show ?thesis using at_work_step w by (simp add: ds_next_def)
next
  case succ: True
  show ?thesis
  proof (cases "next_document ds")
    case None
    then show ?thesis using succ by (simp add: ds_next_def next_document_worked)
  next
    case (Some ds1)
    have nd: "next_document (worked e p ds) = Some (worked e p ds1)" by (simp add: next_document_worked Some)
    have w1: "at_work e p ds1" using next_document_frame [OF Some] w by (auto simp: at_work_frame)
    let ?i = "load (structural_indexes (ds_parser ds1)) (ji_root (ds_iter ds1))"
    show ?thesis
    proof (cases "ds_error ds1 = SUCCESS \<and> ?i \<noteq> None")
      case False
      then show ?thesis using succ Some nd at_work_step w1 by (auto simp: ds_next_def)
    next
      case True
      then obtain v where v: "?i = Some v" by auto
      let ?d = "ds1\<lparr>ds_doc_index := ds_batch_start ds1 + unat v\<rparr>"
      have "at_work e p ?d" "at_work e p (?d\<lparr>ds_error := EMPTY\<rparr>)" using w1 by (simp_all add: at_work_frame)
      then show ?thesis
        using succ Some nd True v at_work_step load_loop_worked [of e p "?d\<lparr>ds_error := EMPTY\<rparr>"]
        by (simp add: ds_next_def Let_def)
    qed
  qed
qed

lemma worker_early:
  assumes "ds_use_thread ds \<or> ds_work ds = None" "worker_step ds = Some ds'"
  shows "ds_next ds' \<bind> worker_step = ds_next ds \<bind> worker_step"
proof (cases "ds_work ds")
  case None
  then show ?thesis using assms(2) by (simp add: worker_step_def)
next
  case (Some start)
  then obtain e p where "at_work e p ds" "ds' = worked e p ds"
    using assms by (auto simp: worker_step_def bind_eq_Some_conv at_work_def worked_def)
  then show ?thesis using ds_next_worked by simp
qed

section \<open>A window of whitespace only\<close>

text \<open>Each of the two parsers says that the next window is further on.\<close>

definition advances :: "dom_parser_implementation \<Rightarrow> bool" where
  "advances p \<longleftrightarrow> (\<exists>i. load (structural_indexes p) (unat (n_structural_indexes p)) = Some i \<and> 0 < unat i)"

lemma idle_thread_ends:
  assumes "ds_use_thread ds" "ds_work ds = None" "ds_thread_error ds = EMPTY" "ds_error ds = EMPTY"
    "advances (ds_parser ds)" "advances (ds_thread_parser ds)"
  shows "\<exists>ds'. load_loop ds = Some ds' \<and> ds_error ds' = EMPTY"
  using assms
proof (induction "ds_len ds - ds_batch_start ds" arbitrary: ds rule: less_induct)
  case less
  obtain i where i: "load (structural_indexes (ds_parser ds)) (unat (n_structural_indexes (ds_parser ds))) = Some i" "0 < unat i"
    using less.prems(5) by (auto simp: advances_def)
  let ?b = "ds_batch_start ds + unat i"
  show ?case
  proof (cases "?b \<ge> ds_len ds")
    case True
    then show ?thesis using i less.prems(4) by (subst load_loop.simps) (simp add: next_batch_start_def)
  next
    case False
    let ?s = "ds\<lparr>ds_batch_start := ?b, ds_thread_parser := ds_parser ds, ds_parser := ds_thread_parser ds, ds_error := EMPTY\<rparr>"
    have "load_from_stage1_thread (ds\<lparr>ds_batch_start := ?b\<rparr>) = Some ?s"
      using less.prems by (simp add: load_from_stage1_thread_def worker_step_def)
    then have "load_loop ds = load_loop (anchor ?s)"
      using i less.prems(1,4) False by (subst load_loop.simps) (simp add: next_batch_start_def anchor_first [of _ "[]"])
    moreover have "ds_len (anchor ?s) - ds_batch_start (anchor ?s) < ds_len ds - ds_batch_start ds"
      using i(2) False by (simp add: anchor_def)
    then have "\<exists>ds'. load_loop (anchor ?s) = Some ds' \<and> ds_error ds' = EMPTY"
      using less.prems by (intro less.hyps) (simp_all add: anchor_def)
    ultimately show ?thesis by simp
  qed
qed

text \<open>The loop in \<open>next\<close> after the thread has found its window empty: it ends without another document, whatever follows.\<close>

lemma blank_window_done:
  assumes t: "ds_use_thread ds" "ds_error ds = EMPTY" and w: "next_batch_start ds = Some b" "ds_work ds = Some b" "advances (ds_parser ds)"
    and blank: "run_stage1 ds (ds_thread_parser ds) b = Some (EMPTY, p)" "advances p"
  shows "\<exists>ds'. load_loop ds = Some ds' \<and> ds_error ds' = EMPTY"
proof (cases "b \<ge> ds_len ds")
  case True
  then show ?thesis using t w by (subst load_loop.simps) simp
next
  case False
  let ?s = "ds\<lparr>ds_batch_start := b, ds_thread_error := EMPTY, ds_thread_parser := ds_parser ds, ds_work := None, ds_parser := p, ds_error := EMPTY\<rparr>"
  have "load_from_stage1_thread (ds\<lparr>ds_batch_start := b\<rparr>) = Some ?s"
    using w(2) blank(1) by (simp add: load_from_stage1_thread_def worker_step_def run_stage1_frame)
  then have "load_loop ds = load_loop (anchor ?s)"
    using t w False by (subst load_loop.simps) (simp add: anchor_first [of _ "[]"])
  moreover have "\<exists>ds'. load_loop (anchor ?s) = Some ds' \<and> ds_error ds' = EMPTY"
    by (rule idle_thread_ends) (use t w(3) blank(2) in \<open>simp_all add: anchor_def\<close>)
  ultimately show ?thesis by simp
qed

lemma blank_window_run:
  assumes "stream_ok ds" "fit_parser ds p" "b + ds_batch_size ds < ds_len ds" "0 < ds_batch_size ds"
    "all_ws (take (ds_batch_size ds) (drop b (ds_buf ds)))"
  shows "\<exists>p'. run_stage1 ds p b = Some (EMPTY, p') \<and> advances p'"
proof -
  let ?ws = "take (ds_batch_size ds) (drop b (ds_buf ds))"
  have l: "length ?ws = ds_batch_size ds" using assms(1,3) by (auto simp: stream_ok_def)
  then have ne: "?ws \<noteq> []" using assms(4) by auto
  have buf: "take (length ?ws) (drop b (ds_buf ds)) = ?ws" "length ?ws \<le> length (drop b (ds_buf ds))" unfolding l using l by simp_all
  have p: "parser_ready p" "length ?ws \<le> dp_capacity p" using assms(2) unfolding l by (simp_all add: fit_parser_def)
  have md: "is_streaming streaming_partial" by (simp add: is_streaming_def)
  obtain p' where w: "stage1 p (drop b (ds_buf ds)) (length ?ws) streaming_partial = Some (EMPTY, p')" "parser_ready p'"
    "dp_capacity p' = dp_capacity p" "n_structural_indexes p' = 0" "structural_indexes p' \<noteq> []"
    "structural_indexes p' ! 0 = of_nat (length ?ws)"
    by (rule window_empty [OF assms(5) ne buf p md])
  have "\<not> ds_len ds - b \<le> ds_batch_size ds" using assms(3) by linarith
  then have run: "run_stage1 ds p b = Some (EMPTY, p')" using w(1) unfolding l by (simp add: run_stage1_def)
  have "ds_batch_size ds < 2 ^ 32" using assms(1) by (simp add: stream_ok_def INT32_MAX_def)
  then have "advances p'" using w(4-6) assms(4) unfolding l by (simp add: advances_def load_def index_value)
  with run show ?thesis by blast
qed

section \<open>Properties\<close>

text \<open>C20: the thread may do its work at any time: whether it indexes the next window early or only when the stream waits for
  it makes no difference for the next document.\<close>

theorem worker_any_time:
  assumes "ds_use_thread ds \<or> ds_work ds = None" "worker_step ds = Some ds'"
  shows "ds_next ds' \<bind> worker_step = ds_next ds \<bind> worker_step"
  by (rule worker_early [OF assms])

definition blank_stream :: document_stream where
  "blank_stream = (document_stream_new True example_parser (snd (set_capacity (\<lambda>n. Some (replicate n 0)) 32 example_parser))
     (replicate 200 0x20) 100 32 False)\<lparr>ds_error := EMPTY, ds_parser := example_parser\<lparr>structural_indexes := [32]\<rparr>, ds_work := Some 32\<rparr>"

lemma blank_stream_ok: "stream_ok blank_stream" "fit_parser blank_stream (ds_thread_parser blank_stream)"
  "ds_use_thread blank_stream" "ds_error blank_stream = EMPTY" "next_batch_start blank_stream = Some 32" "ds_work blank_stream = Some 32"
  "advances (ds_parser blank_stream)" "all_ws (take (ds_batch_size blank_stream) (drop 32 (ds_buf blank_stream)))"
  "32 + ds_batch_size blank_stream < ds_len blank_stream" "0 < ds_batch_size blank_stream"
  by (simp_all add: blank_stream_def document_stream_new_def example_parser_def stream_ok_def fit_parser_def MINIMAL_BATCH_SIZE_def
    SIMDJSON_PADDING_def INT32_MAX_def parser_ready_def set_capacity_def SIMDJSON_MAXSIZE_BYTES_def SIMDJSON_ROUNDUP_64_def
    next_batch_start_def load_def advances_def is_ws_def)

lemma blank_stream_step: "\<exists>ds'. worker_step blank_stream = Some ds'"
  using blank_window_run [OF blank_stream_ok(1,2,9,10,8)] blank_stream_ok(6) by (auto simp: worker_step_def)

theorem worker_any_time_witness:
  "\<exists>ds'. worker_step blank_stream = Some ds' \<and> ds_next ds' \<bind> worker_step = ds_next blank_stream \<bind> worker_step"
  using blank_stream_step worker_any_time [of blank_stream] blank_stream_ok(3) by blast

text \<open>C39: a window of whitespace ends a stream with a thread: when the thread has been given a window without any token, the
  loop over the batches ends, and with it the loop over the documents, although the text goes on behind that window.\<close>

theorem blank_window_ends_stream:
  assumes "ds_use_thread ds" "ds_error ds = EMPTY" "stream_ok ds" "fit_parser ds (ds_thread_parser ds)" "advances (ds_parser ds)"
    "next_batch_start ds = Some b" "ds_work ds = Some b" "b + ds_batch_size ds < ds_len ds" "0 < ds_batch_size ds"
    "all_ws (take (ds_batch_size ds) (drop b (ds_buf ds)))"
  shows "\<exists>ds'. load_loop ds = Some ds' \<and> ds_error ds' = EMPTY"
proof -
  obtain p where "run_stage1 ds (ds_thread_parser ds) b = Some (EMPTY, p)" "advances p"
    using blank_window_run [OF assms(3,4,8-10)] by blast
  then show ?thesis by (rule blank_window_done [OF assms(1,2,6,7,5)])
qed

theorem blank_window_ends_stream_witness: "\<exists>ds'. load_loop blank_stream = Some ds' \<and> ds_error ds' = EMPTY"
  by (rule blank_window_ends_stream [OF blank_stream_ok(3,4,1,2,7,5,6,9,10,8)])

end
