(* ===== verification/Log_Pipeline.thy ===== *)
theory Log_Pipeline
  imports Simd_Delivery Query_Ingester Exporter
begin

text \<open>
  From the bytes of a log file to the result of a query and to the exported files: the document stream of
  \<open>Simd_Stream\<close> feeds the pipeline of \<open>Query_Ingester\<close> and the conversion of \<open>Exporter\<close>.
\<close>

section \<open>What a text of log documents says\<close>

lemma readings_map: "readings (\<lambda>off. f) b segs = map (\<lambda>(ws, kvs, d). f kvs d) segs"
  by (induction "\<lambda>off :: nat. f" b segs rule: readings.induct) simp_all

lemma length_readings [simp]: "length (readings says b segs) = length segs"
  by (induction says b segs rule: readings.induct) simp_all

lemma readings_nth:
  assumes "i < length segs" "segs ! i = (ws, kvs, d)"
  shows "readings says b segs ! i = says (b + doc_at segs i) kvs d"
proof -
  have s: "readings says b segs = readings says b (take i segs) @ readings says (b + length (body (take i segs))) (drop i segs)"
    using readings_append [of says b "take i segs" "drop i segs"] by simp
  have "length (readings says b (take i segs)) = i" using assms(1) by simp
  then show ?thesis unfolding s using readings_drop [OF assms, of says b] by (simp add: nth_append)
qed

text \<open>The documents with their places in the file.\<close>

definition logged :: "nat \<Rightarrow> segment list \<Rightarrow> log_doc list" where
  "logged skipped segs = map (\<lambda>i. case segs ! i of (ws, kvs, d) \<Rightarrow> log_doc_of (Some (of_nat (skipped + doc_at segs i))) kvs d) [0..<length segs]"

lemma logged_readings: "readings (\<lambda>off. log_doc_of (Some (of_nat (skipped + off)))) 0 segs = logged skipped segs"
proof (rule nth_equalityI)
  fix i assume "i < length (readings (\<lambda>off. log_doc_of (Some (of_nat (skipped + off)))) 0 segs)"
  then have i: "i < length segs" by simp
  obtain ws kvs d where s: "segs ! i = (ws, kvs, d)" by (metis surj_pair)
  show "readings (\<lambda>off. log_doc_of (Some (of_nat (skipped + off)))) 0 segs ! i = logged skipped segs ! i"
    using i s by (simp add: readings_nth [OF i s] logged_def)
qed (simp add: logged_def)

fun text_matches :: "u64 \<Rightarrow> u64 \<Rightarrow> segment \<Rightarrow> bool" where
  "text_matches s l (ws, kvs, d) \<longleftrightarrow>
     field_or_0 (number_field kvs d ''status'') = s \<and> field_or_0 (number_field kvs d ''latency'') > l"

lemma matches_of_text: "doc_matches s l (log_doc_of off kvs d) \<longleftrightarrow> text_matches s l (ws, kvs, d)"
  by (simp add: doc_matches_def log_doc_of_def)

lemma filter_matches: "length (filter (doc_matches s l) (map (\<lambda>(ws, kvs, d). log_doc_of None kvs d) segs)) = length (filter (text_matches s l) segs)"
  by (induction segs) (auto simp: doc_matches_def log_doc_of_def)

lemma parsed_Docs [simp]: "parsed_docs (map Doc ds) = ds" "DocThrow \<notin> set (map Doc ds)"
  by (induction ds) auto

text \<open>The document is where it is said to be.\<close>

lemma doc_in_text:
  assumes "i < length segs" "segs ! i = (ws, kvs, d)"
  shows "take (length d) (drop (doc_at segs i) (body segs @ rest)) = d"
proof -
  have "body segs = body (take i segs) @ ws @ d @ body (drop (Suc i) segs)"
    using id_take_nth_drop [OF assms(1)] assms(2) by (metis append_assoc body_simps(2,3) seg_text.simps)
  then show ?thesis using assms(2) by (simp add: doc_at_def)
qed

lemma default_batch: "MINIMAL_BATCH_SIZE \<le> DEFAULT_BATCH_SIZE" "int DEFAULT_BATCH_SIZE + 2 < INT32_MAX"
  by (simp_all add: MINIMAL_BATCH_SIZE_def DEFAULT_BATCH_SIZE_def INT32_MAX_def)

lemma streams_of_text:
  assumes t: "log_text DEFAULT_BATCH_SIZE segs trail" "mark = [] \<or> mark = bom" "SIMDJSON_PADDING \<le> length pad"
    and al: "allocates alloc" "usable DEFAULT_BATCH_SIZE parser" "usable DEFAULT_BATCH_SIZE thread_parser"
  shows "query_stream alloc threaded parser thread_parser (mark @ (body segs @ trail) @ pad) (length (mark @ body segs @ trail)) =
      Some (map Doc (map (\<lambda>(ws, kvs, d). log_doc_of None kvs d) segs))"
    "export_stream alloc threaded parser thread_parser (mark @ (body segs @ trail) @ pad) (length (mark @ body segs @ trail)) =
      Some (map Doc (logged (length mark) segs))"
  unfolding query_stream_def export_stream_def bom_skipped [OF t(1,2)]
    query_reader.stream_delivers [OF t default_batch al] export_reader.stream_delivers [OF t default_batch al]
    readings_map logged_readings
  by (rule refl)+

section \<open>Properties\<close>

text \<open>C7: the stream delivers a log whose documents fit into its batches. Take a text of JSON objects with whitespace around
  them in which each object together with the whitespace before it is at most \<open>batch_size\<close> bytes long (so that no window
  is blank) and has no key written in two ways, with or without a byte order mark. For every batch size from 32 bytes that
  the code's 32-bit positions allow, every allocator that does not fail and every pair of parsers, with or without the
  thread, the two loops get all documents in their order, with the numbers that the text says and their places in the file.\<close>

theorem log_delivered:
  fixes threaded :: bool
  assumes "log_text batch_size segs trail" "mark = [] \<or> mark = bom" "SIMDJSON_PADDING \<le> length pad"
    "MINIMAL_BATCH_SIZE \<le> batch_size" "int batch_size + 2 < INT32_MAX"
    "allocates alloc" "usable batch_size parser" "usable batch_size thread_parser"
  defines "docs \<equiv> iterate_many threaded parser thread_parser (mark @ (body segs @ trail) @ pad) (length (mark @ body segs @ trail)) batch_size False"
  shows "stream_items query_body alloc docs = Some (map (\<lambda>(ws, kvs, d). Doc (log_doc_of None kvs d)) segs) \<and>
    stream_items (export_body (length mark)) alloc docs = Some (map Doc (logged (length mark) segs))"
  unfolding docs_def query_reader.stream_delivers [OF assms(1-8)] export_reader.stream_delivers [OF assms(1-8)] readings_map logged_readings
  by (simp add: comp_def case_prod_unfold)

text \<open>A log of two lines, each of which is a batch of its own.\<close>

definition line1 :: "u8 list" where "line1 = ascii ''{\"status\":500,\"latency\":9}''"
definition line2 :: "u8 list" where "line2 = ascii ''{\"latency\":3,\"status\":200}''"
definition kvs1 :: "(u8 \<times> jval) list" where "kvs1 = [(0x22, Scalar 0x35), (0x22, Scalar 0x39)]"
definition kvs2 :: "(u8 \<times> jval) list" where "kvs2 = [(0x22, Scalar 0x33), (0x22, Scalar 0x32)]"
definition two_lines :: "segment list" where "two_lines = [([], kvs1, line1), ([0x0A], kvs2, line2)]"

lemma line_bytes:
  "line1 = [0x7B,0x22,0x73,0x74,0x61,0x74,0x75,0x73,0x22,0x3A,0x35,0x30,0x30,0x2C,0x22,0x6C,0x61,0x74,0x65,0x6E,0x63,0x79,0x22,0x3A,0x39,0x7D]"
  "line2 = [0x7B,0x22,0x6C,0x61,0x74,0x65,0x6E,0x63,0x79,0x22,0x3A,0x33,0x2C,0x22,0x73,0x74,0x61,0x74,0x75,0x73,0x22,0x3A,0x32,0x30,0x30,0x7D]"
  by (simp_all add: line1_def line2_def ascii_def of_char_def)

lemma line_docs: "doc_text kvs1 line1" "doc_text kvs2 line2"
  unfolding line_bytes by code_simp+

lemma line_fields:
  "text_fields kvs1 line1 = [(ascii ''status'', 10), (ascii ''latency'', 24)]"
  "text_fields kvs2 line2 = [(ascii ''latency'', 11), (ascii ''status'', 22)]"
  unfolding line_bytes by code_simp+

lemma two_lines_text: "log_text 32 two_lines [0x0A]"
proof -
  have "distinct (map fst (text_fields kvs1 line1))" "distinct (map fst (text_fields kvs2 line2))"
    by (simp_all add: line_fields ascii_def)
  then have "seg_clear s" if "s \<in> set two_lines" for s
    using that distinct_unambiguous by (auto simp: two_lines_def log_keys_unambiguous_def)
  then show ?thesis using line_docs by (auto simp: log_text_def two_lines_def line_bytes is_ws_def)
qed

lemma line_numbers:
  "number_field kvs1 line1 ''status'' = Some 500" "number_field kvs1 line1 ''latency'' = Some 9"
  "number_field kvs2 line2 ''status'' = Some 200" "number_field kvs2 line2 ''latency'' = Some 3"
proof -
  have "parse_unsigned line1 10 = Some (Inr 500)" "parse_unsigned line1 24 = Some (Inr 9)"
    "parse_unsigned line2 11 = Some (Inr 3)" "parse_unsigned line2 22 = Some (Inr 200)"
    unfolding line_bytes by code_simp+
  then show "number_field kvs1 line1 ''status'' = Some 500" "number_field kvs1 line1 ''latency'' = Some 9"
    "number_field kvs2 line2 ''status'' = Some 200" "number_field kvs2 line2 ''latency'' = Some 3"
    by (simp_all add: number_field_def line_fields ascii_def)
qed

lemma replicates: "allocates (\<lambda>n. Some (replicate n (0 :: u32)))" "usable 32 example_parser" "usable DEFAULT_BATCH_SIZE example_parser"
  by (simp_all add: allocates_def usable_def example_parser_def DEFAULT_BATCH_SIZE_def)

theorem log_delivered_witness:
  "stream_items query_body (\<lambda>n. Some (replicate n 0)) (iterate_many True example_parser example_parser
     (bom @ (body two_lines @ [0x0A]) @ replicate 64 0) (length (bom @ body two_lines @ [0x0A])) 32 False) =
   Some [a_doc 500 9, a_doc 200 3]"
  using log_delivered [OF two_lines_text disjI2 [OF refl], of "replicate 64 0" "\<lambda>n. Some (replicate n 0)" example_parser example_parser True]
    replicates(1,2)
  by (simp add: two_lines_def log_doc_of_def line_numbers a_doc_def SIMDJSON_PADDING_def MINIMAL_BATCH_SIZE_def INT32_MAX_def)

text \<open>C1: a query counts the log. From the bytes of the file to the result: whatever the allocator, the parser, the thread of the
  stream and the schedule of the two threads of the pipeline, \<open>run_query\<close> over the documents of the file returns the number of
  documents whose text has the status and a latency above the limit.\<close>

theorem query_counts_log:
  fixes threaded :: bool
  assumes "engine_counts_rows execute" "length (chunks ig) = 16" "filepath ig \<noteq> []"
    "log_text DEFAULT_BATCH_SIZE segs trail" "mark = [] \<or> mark = bom" "SIMDJSON_PADDING \<le> length pad"
    "allocates alloc" "usable DEFAULT_BATCH_SIZE parser" "usable DEFAULT_BATCH_SIZE thread_parser"
  defines "file \<equiv> mark @ (body segs @ trail) @ pad" and "n \<equiv> length (mark @ body segs @ trail)"
  shows "\<exists>items. query_stream alloc threaded parser thread_parser file n = Some items \<and>
    (\<forall>m. (\<exists>ig'. run_query execute (Some n) (Some items) ig s l m ig') \<longleftrightarrow> m = of_nat (length (filter (text_matches s l) segs)))"
proof -
  let ?docs = "map (\<lambda>(ws, kvs, d). log_doc_of None kvs d) segs"
  have "expected s l (map Doc ?docs) = of_nat (length (filter (doc_matches s l) ?docs))"
    unfolding expected_def delivered_def by (simp only: parsed_Docs hits_docs if_False)
  then show ?thesis
    unfolding file_def n_def streams_of_text(1) [OF assms(4-9)] run_query_expected [OF assms(1-3)] filter_matches by simp
qed

text \<open>C8: the exported files are the log. Read back as bit-sliced words, the image holds the status and the latency of every
  document of the file at its position, and the index the place in the file at which the text of that document begins.\<close>

theorem export_holds_log:
  fixes threaded :: bool
  assumes "slicer_spec sl" "log_text DEFAULT_BATCH_SIZE segs trail" "mark = [] \<or> mark = bom" "SIMDJSON_PADDING \<le> length pad"
    "allocates alloc" "usable DEFAULT_BATCH_SIZE parser" "usable DEFAULT_BATCH_SIZE thread_parser"
  defines "file \<equiv> mark @ (body segs @ trail) @ pad" and "n \<equiv> length (mark @ body segs @ trail)"
  shows "\<exists>items agb idx. export_stream alloc threaded parser thread_parser file n = Some items \<and>
    convert_json_to_agb sl True True True (Some items) files = (True, Some agb, Some idx) \<and>
    length agb = 1024 * ceil64 (length segs) \<and>
    (\<forall>i < length segs. \<forall>ws kvs d. segs ! i = (ws, kvs, d) \<longrightarrow>
       sliced_value 2 (bytes_words agb) 0 i = field_or_0 (number_field kvs d ''status'') \<and>
       sliced_value 2 (bytes_words agb) 1 i = field_or_0 (number_field kvs d ''latency'') \<and>
       (\<exists>off. bytes_words idx ! i = of_nat off \<and> take (length d) (drop off file) = d))"
proof -
  let ?docs = "logged (length mark) segs"
  have ld: "length ?docs = length segs" by (simp add: logged_def)
  let ?k = "ceil64 (length segs)"
  have conv: "convert_json_to_agb sl True True True (Some (map Doc ?docs)) files =
      (True, Some (words_bytes (agb_words sl ?docs ?k)), Some (words_bytes (idx_words ?docs ?k)))"
    using convert_files [OF parsed_Docs(2) [of ?docs], of sl files] unfolding parsed_Docs ld .
  have row: "sliced_value 2 (agb_words sl ?docs ?k) 0 i = field_or_0 (number_field kvs d ''status'') \<and>
      sliced_value 2 (agb_words sl ?docs ?k) 1 i = field_or_0 (number_field kvs d ''latency'') \<and>
      idx_words ?docs ?k ! i = of_nat (length mark + doc_at segs i) \<and> take (length d) (drop (length mark + doc_at segs i) file) = d"
    if i: "i < length segs" and si: "segs ! i = (ws, kvs, d)" for i ws kvs d
  proof -
    have b: "i < 64 * ?k" using i by linarith
    have dn: "?docs ! i = log_doc_of (Some (of_nat (length mark + doc_at segs i))) kvs d" using i si by (simp add: logged_def)
    show ?thesis using sliced_agb [OF assms(1), of i ?k ?docs] idx_words_nth [of i ?k ?docs] b i dn doc_in_text [OF i si, of "trail @ pad"]
      by (simp add: col_or_0_def ld log_doc_of_def doc_offset_def field_or_0_def file_def mult.commute)
  qed
  have st: "export_stream alloc threaded parser thread_parser file n = Some (map Doc ?docs)"
    unfolding file_def n_def by (rule streams_of_text(2) [OF assms(2-7)])
  have "\<forall>i < length segs. \<forall>ws kvs d. segs ! i = (ws, kvs, d) \<longrightarrow>
      sliced_value 2 (bytes_words (words_bytes (agb_words sl ?docs ?k))) 0 i = field_or_0 (number_field kvs d ''status'') \<and>
      sliced_value 2 (bytes_words (words_bytes (agb_words sl ?docs ?k))) 1 i = field_or_0 (number_field kvs d ''latency'') \<and>
      (\<exists>off. bytes_words (words_bytes (idx_words ?docs ?k)) ! i = of_nat off \<and> take (length d) (drop off file) = d)"
    unfolding bytes_words_bytes using row by blast
  moreover have "length (words_bytes (agb_words sl ?docs ?k)) = 1024 * ?k" by simp
  ultimately show ?thesis using st conv by blast
qed

text \<open>Concrete instances.\<close>

lemma default_text: "log_text DEFAULT_BATCH_SIZE two_lines [0x0A]"
  using two_lines_text by (auto simp: log_text_def DEFAULT_BATCH_SIZE_def)

lemma zeros: "SIMDJSON_PADDING \<le> length (replicate 64 (0 :: u8))"
  by (simp add: SIMDJSON_PADDING_def)

theorem query_counts_log_witness:
  "\<exists>items ig'. query_stream (\<lambda>n. Some (replicate n 0)) True example_parser example_parser
     ([] @ (body two_lines @ [0x0A]) @ replicate 64 0) (length ([] @ body two_lines @ [0x0A])) = Some items \<and>
     run_query ref_execute (Some (length ([] @ body two_lines @ [0x0A]))) (Some items) opened 500 5 1 ig'"
proof -
  have "length (filter (text_matches 500 5) two_lines) = 1" by (simp add: two_lines_def line_numbers field_or_0_def)
  then show ?thesis
    using query_counts_log [OF ref_engines(1) opened_ok default_text disjI1 [OF refl] zeros replicates(1,3,3), of True 500 5]
    by (metis of_nat_1)
qed

theorem export_holds_log_witness:
  "\<exists>items agb idx. export_stream (\<lambda>n. Some (replicate n 0)) True example_parser example_parser
     ([] @ (body two_lines @ [0x0A]) @ replicate 64 0) (length ([] @ body two_lines @ [0x0A])) = Some items \<and>
     convert_json_to_agb ref_slice True True True (Some items) (None, None) = (True, Some agb, Some idx) \<and>
     sliced_value 2 (bytes_words agb) 0 1 = 200"
proof -
  have l: "1 < length two_lines" "two_lines ! 1 = ([0x0A], kvs2, line2)" by (simp_all add: two_lines_def)
  have v: "field_or_0 (number_field kvs2 line2 ''status'') = 200" by (simp add: line_numbers field_or_0_def)
  show ?thesis
    using export_holds_log [OF ref_slice_spec default_text disjI1 [OF refl] zeros replicates(1,3,3), of True "(None, None)"] l v
    by metis
qed

end
