(* ===== verification/Simd_Literals.thy ===== *)
theory Simd_Literals
  imports Simd_Texts
begin

text \<open>
  String values of a document (\<open>doc[key].get_string()\<close>): a string that a document closes is unescaped to the same
  characters whatever lies behind the document, so the answer of the cursor is what the text of the document says.
\<close>

section \<open>String values\<close>

text \<open>The string that has begun is closed by a quote that no backslash escapes.\<close>

fun closes :: "bool \<Rightarrow> u8 list \<Rightarrow> bool" where
  "closes e [] = False"
| "closes e (b # bs) = (if e then closes False bs else if b = 0x5C then closes True bs else b = 0x22 \<or> closes False bs)"

lemma lexed_closes: "\<not> in_string_state (foldl lex_step (InString e) xs) \<Longrightarrow> closes e xs"
proof (induction xs arbitrary: e)
  case (Cons b bs)
  then show ?case by (cases e; cases "b = 0x5C"; cases "b = 0x22") auto
qed simp

lemma value_closes:
  assumes "starts_at d q" "d ! q = 0x22" "q < length d" "\<not> unclosed d"
  shows "closes False (drop (q + 1) d)"
proof (rule lexed_closes)
  have "lex_at Between d q = Between" using assms(1,2) by (cases "lex_at Between d q") (auto simp: starts_at_def marked_op_def is_op_def)
  then have "lex_at Between d (Suc q) = InString False" using lex_at_Suc [OF assms(3), of Between] assms(2) by simp
  moreover have "lex_at Between d (length d) = foldl lex_step (lex_at Between d (Suc q)) (drop (Suc q) d)"
    unfolding lex_at_def by (metis append_take_drop_id foldl_append take_all order_refl)
  ultimately show "\<not> in_string_state (foldl lex_step (InString False) (drop (q + 1) d))"
    using assms(4) by (simp add: unclosed_def)
qed

text \<open>The hexadecimal digits of an escape lie in front of the closing quote.\<close>

lemma hex_digit_plain: "hex_digit b = Some v \<Longrightarrow> b \<noteq> 0x22 \<and> b \<noteq> 0x5C"
  by (auto simp: hex_digit_def split: if_splits)

lemma hex4_closed:
  assumes "closes False xs"
  shows "hex4 (xs @ ys) = hex4 xs" "hex4 xs = Some u \<Longrightarrow> closes False (drop 4 xs)"
proof -
  obtain a as where a: "xs = a # as" using assms by (cases xs) auto
  have "hex4 (xs @ ys) = hex4 xs \<and> (\<forall>u. hex4 xs = Some u \<longrightarrow> closes False (drop 4 xs))"
  proof (cases "length xs < 4")
    case False
    then obtain a b c d r where x: "xs = a # b # c # d # r"
      by (cases xs; cases "tl xs"; cases "tl (tl xs)"; cases "tl (tl (tl xs))") auto
    show ?thesis using assms hex_digit_plain [of a] hex_digit_plain [of b] hex_digit_plain [of c] hex_digit_plain [of d]
      unfolding x by (auto simp: bind_eq_Some_conv split: if_splits)
  next
    case True
    have n: "\<exists>x \<in> set xs. hex_digit x = None" using assms True hex_digit_plain
    proof (induction xs)
      case (Cons x xs)
      then show ?case by (cases "hex_digit x") (auto split: if_splits)
    qed simp
    have "hex4 zs = None" if "\<exists>x \<in> set (take 4 zs). hex_digit x = None" for zs
      using that by (cases zs rule: hex4.cases) (auto split: option.splits bind_splits)
    moreover have "hex4 xs = None" using True by (cases xs rule: hex4.cases) auto
    moreover have "set xs \<subseteq> set (take 4 (xs @ ys))" using True by auto
    ultimately show ?thesis using n by (metis option.distinct(1) subsetD)
  qed
  then show "hex4 (xs @ ys) = hex4 xs" "hex4 xs = Some u \<Longrightarrow> closes False (drop 4 xs)" by blast+
qed

lemma low_half_closed:
  assumes "closes False xs"
  shows "low_half (xs @ ys) = low_half xs" "low_half xs \<noteq> None \<Longrightarrow> closes False (drop 6 xs)"
proof -
  have "low_half (xs @ ys) = low_half xs \<and> (low_half xs \<noteq> None \<longrightarrow> closes False (drop 6 xs))"
  proof (cases "take 2 xs = [0x5C, 0x75]")
    case True
    then obtain r where x: "xs = 0x5C # 0x75 # r" by (cases xs; cases "tl xs") auto
    then have c: "closes False r" using assms by simp
    have "drop 6 xs = drop 4 r" by (simp add: x)
    then show ?thesis using hex4_closed [OF c] by (auto simp: low_half_def x split: option.splits)
  next
    case False
    have "take 2 (xs @ ys) \<noteq> [0x5C, 0x75]"
    proof (cases xs)
      case (Cons a as)
      then show ?thesis using False assms by (cases as) (auto split: if_splits)
    qed (use assms in simp)
    then show ?thesis using False by (simp add: low_half_def)
  qed
  then show "low_half (xs @ ys) = low_half xs" "low_half xs \<noteq> None \<Longrightarrow> closes False (drop 6 xs)" by blast+
qed

lemma unicode_ref_closed:
  assumes "closes False r"
  shows "unicode_ref m (c # a # r @ ys) = unicode_ref m (c # a # r)"
    "unicode_ref m (c # a # r) = Some (cp, n) \<Longrightarrow> closes False (drop n (c # a # r)) \<and> n \<le> length (c # a # r)"
proof -
  note h = hex4_closed [OF assms]
  have six: "drop 6 (c # a # r) = drop 4 r" "drop 12 (c # a # r) = drop 6 (drop 4 r)" "drop 6 (c # a # r @ ys) = drop 4 (r @ ys)" by simp_all
  have nonempty: "closes False (drop k xs) \<Longrightarrow> k \<le> length xs" for k xs by (cases "k \<le> length xs") auto
  show "unicode_ref m (c # a # r @ ys) = unicode_ref m (c # a # r)"
  proof (cases "hex4 r")
    case (Some u)
    have cl: "closes False (drop 4 r)" by (rule h(2) [OF Some])
    then have "drop 4 (r @ ys) = drop 4 r @ ys" using nonempty by simp
    then show ?thesis unfolding unicode_ref_def six using h(1) [of ys] low_half_closed(1) [OF cl] Some by auto
  qed (use h(1) [of ys] in \<open>simp add: unicode_ref_def\<close>)
  show "closes False (drop n (c # a # r)) \<and> n \<le> length (c # a # r)" if ref: "unicode_ref m (c # a # r) = Some (cp, n)"
  proof -
    obtain u where u: "hex4 r = Some u" using ref by (auto simp: unicode_ref_def split: option.splits)
    have cl: "closes False (drop 4 r)" by (rule h(2) [OF u])
    have "n = 6 \<or> n = 12 \<and> low_half (drop 4 r) \<noteq> None"
      using ref unfolding unicode_ref_def six by (auto simp: u split: if_splits lone.splits)
    then have "closes False (drop n (c # a # r))" using cl low_half_closed(2) [OF cl] six by (metis (no_types))
    then show ?thesis using nonempty by blast
  qed
qed

lemma unescape_closed:
  "closes False xs \<Longrightarrow> \<exists>res n. n < length xs \<and> (\<forall>ys. unescape m (xs @ ys) = Some (res, n))"
proof (induction xs rule: length_induct)
  case (1 xs)
  obtain c r where x: "xs = c # r" using "1.prems" by (cases xs) auto
  have IH: "\<exists>res n. n < length zs \<and> (\<forall>ys. unescape m (zs @ ys) = Some (res, n))" if "length zs < length xs" "closes False zs" for zs
    using "1.IH" that by blast
  show ?case
  proof (cases "c = 0x22")
    case True
    then show ?thesis by (intro exI [of _ "Some []"] exI [of _ 0]) (simp add: x)
  next
    case nq: False
    show ?thesis
    proof (cases "c = 0x5C")
      case False
      then have "closes False r" using "1.prems" nq x by simp
      then obtain res n where "n < length r" "\<forall>ys. unescape m (r @ ys) = Some (res, n)" using IH [of r] x by auto
      then show ?thesis using nq False
        by (intro exI [of _ "map_option (\<lambda>t. [c] @ t) res"] exI [of _ "1 + n"]) (simp add: x prepend_def)
    next
      case bs: True
      then have cr: "closes True r" using "1.prems" x by simp
      then obtain a r' where r: "r = a # r'" by (cases r) auto
      then have c': "closes False r'" using cr by simp
      show ?thesis
      proof (cases "a = 0x75")
        case False
        show ?thesis
        proof (cases "escape_map ! unat a = 0")
          case True
          then show ?thesis using bs False r x by (intro exI [of _ None] exI [of _ 0]) simp
        next
          case ok: False
          obtain res n where "n < length r'" "\<forall>ys. unescape m (r' @ ys) = Some (res, n)" using IH [OF _ c'] x r by auto
          then show ?thesis using bs False ok r x
            by (intro exI [of _ "map_option (\<lambda>t. [escape_map ! unat a] @ t) res"] exI [of _ "2 + n"]) (simp add: prepend_def)
        qed
      next
        case u: True
        note uc = unicode_ref_closed [OF c', of m c a]
        show ?thesis
        proof (cases "unicode_ref m (c # a # r')")
          case None
          then show ?thesis using bs u r x uc(1) by (intro exI [of _ None] exI [of _ 0]) simp
        next
          case (Some cpn)
          obtain cp k where k: "cpn = (cp, k)" by (metis surj_pair)
          have "k = 6 \<or> k = 12" using unicode_ref_consumed Some k by blast
          then have d: "closes False (drop k xs)" "k \<le> length xs" "0 < k" using uc(2) Some k x r by auto
          then obtain res n where n: "n < length (drop k xs)" "\<forall>ys. unescape m (drop k xs @ ys) = Some (res, n)"
            using IH [of "drop k xs"] x by auto
          have "unescape m (xs @ ys) = prepend (codepoint_to_utf8 cp) k (unescape m (drop k xs @ ys))" for ys
          proof -
            have "drop k xs @ ys = drop k (xs @ ys)" using d(2) by simp
            then show ?thesis using bs u Some k uc(1) [of ys] by (simp add: x r)
          qed
          then show ?thesis using n d(2)
            by (intro exI [of _ "map_option (\<lambda>t. codepoint_to_utf8 cp @ t) res"] exI [of _ "k + n"]) (simp add: prepend_def)
        qed
      qed
    qed
  qed
qed

definition string_field :: "(u8 \<times> jval) list \<Rightarrow> u8 list \<Rightarrow> string \<Rightarrow> u8 list option" where
  "string_field kvs d key = do {
     q \<leftarrow> map_of (text_fields kvs d) (ascii key);
     if d ! q \<noteq> 0x22 then None
     else (case unescape Reject (drop (q + 1) d) of Some (Some out, n) \<Rightarrow> Some out | _ \<Rightarrow> None) }"

text \<open>A string value in the window and in the text of the document.\<close>

lemma exhibited_string:
  assumes ex: "exhibits d kvs off ji" and dt: "doc_text kvs d" and j: "j < length kvs"
  defines "q \<equiv> snd (text_fields kvs d ! j)"
  shows "load (ji_buf ji) (value_at kvs ji j) = Some (d ! q)"
    "d ! q = 0x22 \<Longrightarrow> \<exists>res n. unescape Reject (drop (q + 1) d) = Some (res, n) \<and>
      unescape Reject (drop (value_at kvs ji j + 1) (ji_buf ji)) = Some (res, n) \<and>
      n \<le> length d \<and> value_at kvs ji j + 1 + n + 32 \<le> length (ji_buf ji)"
proof -
  obtain pre post where buf: "ji_buf ji = pre @ d @ post" "length pre = off" "SIMDJSON_PADDING \<le> length post"
    by (rule exhibited_buf [OF ex])
  note f = exhibited_field(1,2) [OF ex dt j, folded q_def]
  show "load (ji_buf ji) (value_at kvs ji j) = Some (d ! q)" using f buf by (simp add: load_def nth_append)
  assume quote: "d ! q = 0x22"
  have q: "q = token_starts d (length d) ! (field_pos kvs j + 2)" using j by (simp add: q_def text_fields_def Let_def)
  have "starts_at d q" unfolding q by (rule doc_tokens(4) [OF dt field_token_bounds(1) [OF j]])
  moreover have "\<not> unclosed d" using dt by (simp add: doc_text_def)
  ultimately have "closes False (drop (q + 1) d)" using value_closes quote f(2) by blast
  from unescape_closed [OF this, of Reject] obtain res n where
    u: "n < length (drop (q + 1) d)" "\<forall>ys. unescape Reject (drop (q + 1) d @ ys) = Some (res, n)" by blast
  have "drop (value_at kvs ji j + 1) (ji_buf ji) = drop (q + 1) d @ post" using f(2) unfolding f(1) buf by (simp add: buf(2) [symmetric])
  moreover have "unescape Reject (drop (q + 1) d) = Some (res, n)" using u(2) [rule_format, of "[]"] by simp
  moreover have "value_at kvs ji j + 1 + n + 32 \<le> length (ji_buf ji)" using u(1) buf f by (simp add: SIMDJSON_PADDING_def)
  ultimately show "\<exists>res n. unescape Reject (drop (q + 1) d) = Some (res, n) \<and>
      unescape Reject (drop (value_at kvs ji j + 1) (ji_buf ji)) = Some (res, n) \<and>
      n \<le> length d \<and> value_at kvs ji j + 1 + n + 32 \<le> length (ji_buf ji)" using u by auto
qed

lemma document_string_at:
  assumes ex: "exhibits d kvs off ji" and dt: "doc_text kvs d" and key: "plain_key key" "unambiguous kvs d key" and p: "proper kvs p"
    and room: "s + length d + 32 \<le> length mem"
  shows "\<exists>res p' mem' s'. document_string (put kvs ji p) (mem, s) (ascii key) = Some (res, put kvs ji p', mem', s') \<and> proper kvs p' \<and>
    length mem' = length mem \<and> (\<forall>e. res = Inl e \<longrightarrow> s' = s) \<and>
    string_field kvs d key = (case res of Inl e \<Rightarrow> None | Inr (a, n) \<Rightarrow> Some (take n (drop a mem')))"
proof -
  let ?q = "AsString (ascii key)"
  have doc: "object_doc kvs ji" "root_complete kvs ji" using ex by (simp_all add: exhibits_def)
  note k = exhibited_key [OF ex dt key]
  have fj: "j < length kvs" if "field_of kvs ji (ascii key) = Some j" for j using find_found [of _ "[0..<length kvs]" j] that by (auto simp: field_of_def)
  have readable: "value_readable (ji_buf ji) (value_at kvs ji j) ?q" if "j < length kvs" for j
    using exhibited_string [OF ex dt that] by (auto split: option.splits)
  have ok: "request_ok kvs ji ?q" using k(1,2) readable by (simp add: request_ok_def)
  have "request_room kvs ji ?q \<le> length d"
  proof (cases "field_of kvs ji (ascii key)")
    case (Some j)
    then show ?thesis using exhibited_string [OF ex dt fj [OF Some]]
      by (auto simp: request_room_def)
  qed (simp add: request_room_def)
  then have "s + request_room kvs ji ?q + 32 \<le> length mem" using room by linarith
  from document_request_at [OF doc p ok this] obtain p' mem' s' where
    r: "document_request (put kvs ji p, mem, s) ?q = Some (answer_ref kvs ji ?q, put kvs ji p', mem', s')" "proper kvs p'"
      "length mem' = length mem" "\<forall>e. answer_ref kvs ji ?q = Inl e \<longrightarrow> s' = s" by blast
  then obtain res where res: "document_string (put kvs ji p) (mem, s) (ascii key) = Some (res, put kvs ji p', mem', s')"
    "answer_ref kvs ji ?q = map_sum id (\<lambda>(a, n). Inr (take n (drop a mem'))) res"
    by (auto simp: bind_eq_Some_conv)
  have "string_field kvs d key = (case answer_ref kvs ji ?q of Inr (Inr out) \<Rightarrow> Some out | _ \<Rightarrow> None)"
  proof (cases "field_of kvs ji (ascii key)")
    case None
    then show ?thesis by (simp add: string_field_def k(3) answer_ref_def)
  next
    case (Some j)
    note es = exhibited_string [OF ex dt fj [OF Some]]
    show ?thesis using Some es by (auto simp: string_field_def k(3) answer_ref_def split: option.splits)
  qed
  then show ?thesis using res r(2-4) by (cases res) (auto split: prod.splits)
qed

end
