(* ===== verification/Simd_Lines.thy ===== *)
theory Simd_Lines
  imports Simd_Literals
begin

text \<open>
  \<open>parser::iterate\<close> on a single document, as the loop over the lines of a block in \<^verbatim>\<open>adaptive_ingester.cpp\<close>
  uses it: padded strings, the parser with its string buffer, the five fields that are read of a line, and what a
  line with one document gives.
\<close>

section \<open>A document of its own\<close>

text \<open>A padded string has zeros behind its text.\<close>

definition padded_string :: "u8 list \<Rightarrow> u8 list" where
  "padded_string text_bytes = text_bytes @ replicate SIMDJSON_PADDING 0"

definition has_sufficient_padding :: "u8 list \<Rightarrow> nat \<Rightarrow> bool" where
  "has_sufficient_padding buf len =
    (let padding = length buf - len
     in if padding \<ge> SIMDJSON_PADDING then True
        else let missing_padding = SIMDJSON_PADDING - padding
             in if len < missing_padding then False else list_all is_ws (take missing_padding (drop (len - missing_padding) buf)))"

text \<open>The parser of the On Demand interface with its string buffer, which is missing in a new one.\<close>

record ondemand_parser =
  op_impl :: dom_parser_implementation
  op_string_buf :: "u8 list option"

definition ondemand_parser_new :: ondemand_parser where
  "ondemand_parser_new = \<lparr>op_impl = \<lparr>dp_buf = [], dp_len = 0, structural_indexes = [], n_structural_indexes = 0,
     next_structural_index = 0, dp_capacity = 0\<rparr>, op_string_buf = None\<rparr>"

definition string_capacity :: "nat \<Rightarrow> nat" where
  "string_capacity new_capacity = SIMDJSON_ROUNDUP_64 (5 * new_capacity div 3 + SIMDJSON_PADDING)"

definition ondemand_allocate ::
  "(nat \<Rightarrow> u32 list option) \<Rightarrow> (nat \<Rightarrow> u8 list option) \<Rightarrow> nat \<Rightarrow> ondemand_parser \<Rightarrow> error_code \<times> ondemand_parser" where
  "ondemand_allocate alloc alloc_bytes new_capacity p =
    (if new_capacity > SIMDJSON_MAXSIZE_BYTES then (CAPACITY, p)
     else if op_string_buf p \<noteq> None \<and> new_capacity = dp_capacity (op_impl p) then (SUCCESS, p)
     else let (e, impl) = set_capacity alloc new_capacity (op_impl p)
          in (e, \<lparr>op_impl = impl, op_string_buf = alloc_bytes (string_capacity new_capacity)\<rparr>))"

definition parser_iterate ::
  "(nat \<Rightarrow> u32 list option) \<Rightarrow> (nat \<Rightarrow> u8 list option) \<Rightarrow> ondemand_parser \<Rightarrow> u8 list \<Rightarrow> nat \<Rightarrow>
   (json_iterator simdjson_result \<times> ondemand_parser) option" where
  "parser_iterate alloc alloc_bytes p buf len =
    (if \<not> has_sufficient_padding buf len then Some (Inl INSUFFICIENT_PADDING, p)
     else let skip = bom_length buf len; buf = drop skip buf; len = len - skip;
              (e, p) = (if dp_capacity (op_impl p) < len \<or> op_string_buf p = None then ondemand_allocate alloc alloc_bytes len p else (SUCCESS, p))
          in if e \<noteq> SUCCESS then Some (Inl e, p)
             else do {
               (e, impl) \<leftarrow> stage1 (op_impl p) buf len regular;
               let p = p\<lparr>op_impl := impl\<rparr>;
               Some (if e \<noteq> SUCCESS then Inl e else Inr (json_iterator_new buf impl), p) })"

section \<open>The fields of a line\<close>

definition or_0 :: "u64 simdjson_result \<Rightarrow> u64" where
  "or_0 r = (case r of Inl e \<Rightarrow> 0 | Inr v \<Rightarrow> v)"

definition trace_of :: "(nat \<times> nat) simdjson_result \<Rightarrow> u8 list \<Rightarrow> string option" where
  "trace_of r mem = (case r of Inl e \<Rightarrow> None | Inr (a, n) \<Rightarrow> Some (map (\<lambda>b. char_of (unat b)) (take n (drop a mem))))"

text \<open>One round of the loop over the lines of a block: status, latency (under either name) and the trace (or the service); the
  parser goes from line to line.\<close>

definition parse_fields ::
  "json_iterator \<Rightarrow> u8 list \<Rightarrow> ((u64 \<times> u64 \<times> string option) \<times> u8 list) option" where
  "parse_fields ji mem = do {
     (status_res, ji) \<leftarrow> document_uint64 ji (ascii ''status'');
     (latency_res, ji) \<leftarrow> document_uint64 ji (ascii ''latency'');
     (latency_res, ji) \<leftarrow> (case latency_res of Inl e \<Rightarrow> document_uint64 ji (ascii ''latency_ms'') | Inr v \<Rightarrow> Some (latency_res, ji));
     (trace_res, ji, sb) \<leftarrow> document_string ji (mem, 0) (ascii ''trace_id'');
     (trace_res, ji, sb) \<leftarrow> (case trace_res of Inl e \<Rightarrow> document_string ji sb (ascii ''service'') | Inr v \<Rightarrow> Some (trace_res, ji, sb));
     Some ((or_0 status_res, or_0 latency_res, trace_of trace_res (fst sb)), fst sb) }"

definition parse_row ::
  "(nat \<Rightarrow> u32 list option) \<Rightarrow> (nat \<Rightarrow> u8 list option) \<Rightarrow> ondemand_parser \<Rightarrow> string \<Rightarrow>
   ((u64 \<times> u64 \<times> string option) \<times> ondemand_parser) option" where
  "parse_row alloc alloc_bytes p line = do {
     (doc, p) \<leftarrow> parser_iterate alloc alloc_bytes p (padded_string (ascii line)) (length line);
     case doc of
       Inl e \<Rightarrow> Some ((0, 0, None), p)
     | Inr ji \<Rightarrow> do {
         mem \<leftarrow> op_string_buf p;
         (r, mem) \<leftarrow> parse_fields ji mem;
         Some (r, p\<lparr>op_string_buf := Some mem\<rparr>) } }"

fun parse_rows ::
  "(nat \<Rightarrow> u32 list option) \<Rightarrow> (nat \<Rightarrow> u8 list option) \<Rightarrow> ondemand_parser \<Rightarrow> string list \<Rightarrow>
   ((u64 \<times> u64 \<times> string option) list \<times> ondemand_parser) option" where
  "parse_rows alloc alloc_bytes p [] = Some ([], p)"
| "parse_rows alloc alloc_bytes p (line # lines) = do {
     (r, p) \<leftarrow> parse_row alloc alloc_bytes p line;
     (rs, p) \<leftarrow> parse_rows alloc alloc_bytes p lines;
     Some (r # rs, p) }"

text \<open>A single question to a new parser.\<close>

definition simd_u64 :: "(nat \<Rightarrow> u32 list option) \<Rightarrow> (nat \<Rightarrow> u8 list option) \<Rightarrow> string \<Rightarrow> string \<Rightarrow> u64 option" where
  "simd_u64 alloc alloc_bytes line key =
    (case parser_iterate alloc alloc_bytes ondemand_parser_new (padded_string (ascii line)) (length line) of
       Some (Inr ji, p) \<Rightarrow> (case document_uint64 ji (ascii key) of Some (Inr v, ji) \<Rightarrow> Some v | _ \<Rightarrow> None)
     | _ \<Rightarrow> None)"

definition simd_str :: "(nat \<Rightarrow> u32 list option) \<Rightarrow> (nat \<Rightarrow> u8 list option) \<Rightarrow> string \<Rightarrow> string \<Rightarrow> string option" where
  "simd_str alloc alloc_bytes line key =
    (case parser_iterate alloc alloc_bytes ondemand_parser_new (padded_string (ascii line)) (length line) of
       Some (Inr ji, p) \<Rightarrow>
         (case op_string_buf p of
            None \<Rightarrow> None
          | Some mem \<Rightarrow> (case document_string ji (mem, 0) (ascii key) of Some (r, ji, mem, s) \<Rightarrow> trace_of r mem | None \<Rightarrow> None))
     | _ \<Rightarrow> None)"

section \<open>Iterating over a line\<close>

definition op_ok :: "ondemand_parser \<Rightarrow> bool" where
  "op_ok p \<longleftrightarrow> (\<forall>mem. op_string_buf p = Some mem \<longrightarrow> parser_ready (op_impl p) \<and> length mem = string_capacity (dp_capacity (op_impl p)))"

lemma string_capacity_room: "c + SIMDJSON_PADDING \<le> string_capacity c"
proof -
  have "c + SIMDJSON_PADDING \<le> 5 * c div 3 + SIMDJSON_PADDING" by simp
  also have "\<dots> \<le> string_capacity c" unfolding string_capacity_def by (rule roundup_ge)
  finally show ?thesis .
qed

lemma make_room:
  assumes al: "allocates alloc" "allocates alloc_bytes" and p: "op_ok p" and len: "len \<le> SIMDJSON_MAXSIZE_BYTES"
  obtains p' mem where "(if dp_capacity (op_impl p) < len \<or> op_string_buf p = None then ondemand_allocate alloc alloc_bytes len p else (SUCCESS, p)) = (SUCCESS, p')"
    "op_ok p'" "op_string_buf p' = Some mem" "len \<le> dp_capacity (op_impl p')" "parser_ready (op_impl p')" "len + SIMDJSON_PADDING \<le> length mem"
proof (cases "dp_capacity (op_impl p) < len \<or> op_string_buf p = None")
  case False
  then obtain mem where m: "op_string_buf p = Some mem" "len \<le> dp_capacity (op_impl p)" by auto
  then have "parser_ready (op_impl p)" "length mem = string_capacity (dp_capacity (op_impl p))" using p by (auto simp: op_ok_def)
  then show thesis using False m p string_capacity_room [of "dp_capacity (op_impl p)"] by (intro that [of p mem]) auto
next
  case True
  let ?c = "set_capacity alloc len (op_impl p)"
  obtain mem where mem: "alloc_bytes (string_capacity len) = Some mem" "length mem = string_capacity len"
    using al(2) unfolding allocates_def by blast
  obtain idx where "alloc (9 + SIMDJSON_ROUNDUP_64 len) = Some idx" using al(1) by (auto simp: allocates_def)
  then have s: "fst ?c = SUCCESS" using len by (simp add: set_capacity_def Let_def)
  note r = set_capacity_ready [OF allocates_length [OF al(1)] s]
  let ?p = "\<lparr>op_impl = snd ?c, op_string_buf = Some mem\<rparr>"
  have "\<not> (op_string_buf p \<noteq> None \<and> len = dp_capacity (op_impl p))" using True by auto
  moreover have "?c = (SUCCESS, snd ?c)" using s by (metis prod.collapse)
  ultimately have "ondemand_allocate alloc alloc_bytes len p = (SUCCESS, ?p)"
    unfolding ondemand_allocate_def using len mem(1) by (metis (no_types, lifting) case_prod_conv not_less)
  then show thesis using True r mem string_capacity_room [of len] by (intro that [of ?p mem]) (auto simp: op_ok_def)
qed

definition line_keys :: "string list" where
  "line_keys = [''status'', ''latency'', ''latency_ms'', ''trace_id'', ''service'']"

text \<open>The line holds the document \<open>d\<close>.\<close>

definition line_doc :: "string \<Rightarrow> (u8 \<times> jval) list \<Rightarrow> u8 list \<Rightarrow> bool" where
  "line_doc line kvs d \<longleftrightarrow> (\<exists>mark ws ws'. (mark = [] \<or> mark = bom) \<and> ascii line = mark @ ws @ d @ ws' \<and> all_ws ws \<and> all_ws ws') \<and>
     doc_text kvs d \<and> (\<forall>key \<in> set line_keys. unambiguous kvs d key) \<and> int (length line) + 2 < INT32_MAX"

lemma doc_starts:
  assumes ws: "all_ws ws" "all_ws ws'" and dt: "doc_text kvs d"
  defines "text_bytes \<equiv> ws @ d @ ws'"
  shows "token_starts text_bytes (length text_bytes) = map (\<lambda>i. length ws + i) (token_starts d (length d))"
    "stage1_verdict text_bytes = SUCCESS"
proof -
  note w = ws_text [OF ws(1)] and w' = ws_text [OF ws(2)]
  note dl = doc_last(1) [OF dt]
  have t: "token_starts (d @ ws') (length (d @ ws')) = token_starts d (length d)"
    using token_starts_after [OF dl, of ws' "length ws'"] w'(2) by simp
  show s: "token_starts text_bytes (length text_bytes) = map (\<lambda>i. length ws + i) (token_starts d (length d))"
    using token_starts_after [OF w(1), of "d @ ws'" "length (d @ ws')"] w(2) t by (simp add: text_bytes_def)
  have "length (token_starts d (length d)) = length (toks (Obj kvs))" by (rule doc_tokens(1) [OF dt])
  then have "token_starts d (length d) \<noteq> []" by auto
  moreover have "\<not> unclosed text_bytes" using w w' dl by (simp add: text_bytes_def unclosed_append)
  moreover have "\<not> has_control text_bytes" using w w' dl dt by (simp add: text_bytes_def has_control_append doc_text_def)
  moreover have "utf8_valid text_bytes"
    using utf8_valid_ascii [OF w(5)] utf8_valid_ascii [OF w'(5)] dt by (simp add: text_bytes_def utf8_valid_append doc_text_def)
  ultimately show "stage1_verdict text_bytes = SUCCESS" using s by (simp add: stage1_verdict_def)
qed

text \<open>The iterator at the beginning of an indexed document shows it.\<close>

lemma indexed_exhibits:
  assumes ws: "all_ws ws" "all_ws ws'" and dt: "doc_text kvs d"
    and ix: "indexed (ws @ d @ ws') p" "length (ws @ d @ ws') + 3 \<le> length (structural_indexes p)" and max: "int (length (ws @ d @ ws')) + 2 < INT32_MAX"
  shows "exhibits d kvs (length ws) (json_iterator_new (padded_string (ws @ d @ ws')) p)"
    "put kvs (json_iterator_new (padded_string (ws @ d @ ws')) p) AtRoot = json_iterator_new (padded_string (ws @ d @ ws')) p"
proof -
  let ?t = "ws @ d @ ws'" and ?T = "token_starts d (length d)" and ?ji = "json_iterator_new (padded_string (ws @ d @ ws')) p"
  let ?S = "map (\<lambda>i. length ws + i) ?T" and ?n = "length (toks (Obj kvs))"
  note st = doc_starts(1) [OF ws dt]
  note dk = doc_tokens [OF dt]
  have lT: "length ?T = ?n" by (rule dk(1))
  have "?n \<le> length d" using lT by (simp add: token_starts_def) (metis diff_zero length_filter_le length_upt)
  then have small: "?n < 2 ^ 32" "length ?t < 2 ^ 32" "int ?n + 2 < INT32_MAX" "?n + 3 \<le> length (structural_indexes p)"
    using max ix(2) by (simp_all add: INT32_MAX_def del: toks.simps)
  have sl: "length ?S = ?n" using lT by (simp del: toks.simps)
  have i: "n_structural_indexes p = of_nat ?n" "take (?n + 3) (structural_indexes p) = map of_nat ?S @ [of_nat (length ?t), of_nat (length ?t), 0]"
    using ix(1) unfolding indexed_def Let_def st sl by blast+
  have n: "ji_n ?ji = ?n" using i(1) small(1) by (simp add: json_iterator_new_def unat_of_nat take_bit_nat_eq_self del: toks.simps)
  have nth: "structural_indexes p ! k = (map of_nat ?S @ [of_nat (length ?t), of_nat (length ?t), 0]) ! k" if "k < ?n + 3" for k
    unfolding i(2) [symmetric] using that by simp
  have peek: "token_peek ?ji k = Some (length ws + ?T ! k)" if k: "k < ?n" for k
  proof -
    have "length ws + ?T ! k < 2 ^ 32" using dk(3) [OF k] small(2) by simp
    then show ?thesis using nth [of k] k lT small(4)
      by (simp add: token_peek_def json_iterator_new_def load_def nth_append unat_of_nat take_bit_nat_eq_self del: toks.simps of_nat_add)
  qed
  have "length (map of_nat ?S :: u32 list) = ?n" using sl by (simp only: length_map)
  moreover have "?n < ?n + 3" by simp
  ultimately have "structural_indexes p ! ?n = of_nat (length ?t)"
    using nth [of ?n] nth_append_length [of "map of_nat ?S :: u32 list" "of_nat (length ?t)" "[of_nat (length ?t), 0]"] by metis
  then have last: "token_peek ?ji ?n = Some (length ?t)"
    using small(2,4) by (simp add: token_peek_def json_iterator_new_def load_def unat_of_nat take_bit_nat_eq_self del: toks.simps of_nat_add length_append)
  have buf: "ji_buf ?ji = ?t @ replicate SIMDJSON_PADDING 0" "ji_root ?ji = 0" by (simp_all add: json_iterator_new_def padded_string_def)
  have at: "char_at ?ji k = Some (toks (Obj kvs) ! k)" if k: "k < ?n" for k
    using peek [OF k] dk(2,3) [OF k] by (simp add: char_at_def buf load_def nth_append del: toks.simps)
  have "tokens_at ?ji (ji_root ?ji) (toks (Obj kvs))" using at n by (simp add: tokens_at_def buf(2) del: toks.simps)
  moreover have "wf_jval (Obj kvs)" "\<forall>kv \<in> set kvs. fst kv = 0x22" using dt unfolding doc_text_def by blast+
  ultimately have obj: "object_doc kvs ?ji" using small(3) n unfolding object_doc_def by (simp add: json_iterator_new_def)
  have "load (x @ replicate SIMDJSON_PADDING 0) (length x) = Some 0" for x :: "u8 list"
    by (simp add: load_def nth_append SIMDJSON_PADDING_def)
  from this [of ?t] have "char_at ?ji ?n = Some 0" unfolding char_at_def last buf(1) by (simp del: length_append append_assoc)
  then have "root_complete kvs ?ji" using n by (simp add: root_complete_def object_end_def buf(2) del: toks.simps)
  moreover have "take (length d) (drop (length ws) (ji_buf ?ji)) = d" "length ws + length d + SIMDJSON_PADDING \<le> length (ji_buf ?ji)"
    by (simp_all add: buf)
  moreover have "\<exists>behind \<ge> length ws + length d. token_peek ?ji (ji_root ?ji + object_end kvs) = Some behind"
    using last by (simp add: buf(2) object_end_def del: toks.simps)
  ultimately show "exhibits d kvs (length ws) ?ji" unfolding exhibits_def using obj peek by (simp add: buf(2) del: toks.simps)
  show "put kvs ?ji AtRoot = ?ji" by (simp add: put_def json_iterator_new_def)
qed

definition line_text :: "string \<Rightarrow> u8 list" where
  "line_text line = drop (bom_length (padded_string (ascii line)) (length line)) (ascii line)"

lemma length_ascii [simp]: "length (ascii line) = length line"
  by (simp add: ascii_def)

text \<open>\<open>iterate\<close> on any line: the verdict on its text, or an iterator at the beginning of the indexed document.\<close>

lemma iterate_any:
  assumes al: "allocates alloc" "allocates alloc_bytes" and p: "op_ok p" and len: "length line \<le> SIMDJSON_MAXSIZE_BYTES"
  obtains p' mem where "parser_iterate alloc alloc_bytes p (padded_string (ascii line)) (length line) =
      Some (if stage1_verdict (line_text line) = SUCCESS then Inr (json_iterator_new (padded_string (line_text line)) (op_impl p'))
            else Inl (stage1_verdict (line_text line)), p')"
    "op_ok p'" "op_string_buf p' = Some mem" "length (line_text line) + SIMDJSON_PADDING \<le> length mem"
    "stage1_verdict (line_text line) = SUCCESS \<longrightarrow> indexed (line_text line) (op_impl p')"
    "length (line_text line) + 3 \<le> length (structural_indexes (op_impl p'))"
proof -
  let ?skip = "bom_length (padded_string (ascii line)) (length line)" and ?t = "line_text line" and ?buf = "padded_string (line_text line)"
  have sk: "?skip \<le> length line" by (simp add: bom_length_def)
  then have t: "drop ?skip (padded_string (ascii line)) = ?buf" "length line - ?skip = length ?t"
    by (simp_all add: padded_string_def line_text_def)
  have pad: "has_sufficient_padding (padded_string (ascii line)) (length line)"
    by (simp add: has_sufficient_padding_def padded_string_def)
  obtain q mem where q: "(if dp_capacity (op_impl p) < length ?t \<or> op_string_buf p = None then ondemand_allocate alloc alloc_bytes (length ?t) p else (SUCCESS, p)) = (SUCCESS, q)"
    "op_ok q" "op_string_buf q = Some mem" "length ?t \<le> dp_capacity (op_impl q)" "parser_ready (op_impl q)" "length ?t + SIMDJSON_PADDING \<le> length mem"
    by (rule make_room [OF al p, of "length ?t"]) (use len t(2) in simp)
  have it: "parser_iterate alloc alloc_bytes p (padded_string (ascii line)) (length line) = do {
      (e, impl) \<leftarrow> stage1 (op_impl q) ?buf (length ?t) regular;
      Some (if e \<noteq> SUCCESS then Inl e else Inr (json_iterator_new ?buf impl), q\<lparr>op_impl := impl\<rparr>) }"
    unfolding parser_iterate_def Let_def t q(1) using pad by simp
  have tk: "take (length ?t) ?buf = ?t" "length ?t \<le> length ?buf" by (simp_all add: padded_string_def)
  obtain impl where s: "stage1 (op_impl q) ?buf (length ?t) regular = Some (stage1_verdict ?t, impl)" "parser_ready impl"
    "dp_capacity impl = dp_capacity (op_impl q)" "stage1_verdict ?t = SUCCESS \<Longrightarrow> indexed ?t impl"
  proof (cases "length ?t = 0")
    case True
    then have "stage1_verdict ?t = EMPTY" by (simp add: stage1_verdict_def unclosed_def has_control_def token_starts_def)
    then show thesis using True q(5)
      by (intro that [of "(op_impl q)\<lparr>dp_buf := ?buf, dp_len := 0\<rparr>"]) (simp_all add: stage1_def indexer_index_def parser_ready_def)
  next
    case False
    then show thesis using stage1_whole [OF q(5) _ q(4) tk(2)] that unfolding tk(1) by auto
  qed
  let ?p = "q\<lparr>op_impl := impl\<rparr>"
  have "op_ok ?p" using q(2) s(2,3) by (simp add: op_ok_def)
  moreover have "length ?t + 3 \<le> length (structural_indexes impl)"
    using s(2,3) q(4) roundup_ge [of "dp_capacity impl"] by (simp add: parser_ready_def)
  ultimately show thesis using s(1,4) q(3,6) by (intro that [of ?p mem]) (simp_all add: it)
qed

lemma line_text_doc:
  assumes "line_doc line kvs d"
  obtains ws ws' where "line_text line = ws @ d @ ws'" "all_ws ws" "all_ws ws'"
proof -
  obtain mark ws ws' where l: "mark = [] \<or> mark = bom" "ascii line = mark @ ws @ d @ ws'" "all_ws ws" "all_ws ws'"
    and dt: "doc_text kvs d" using assms by (auto simp: line_doc_def)
  have "d \<noteq> []" "hd d = LBRACE" using dt doc_nonempty by (blast, simp add: doc_text_def)
  then have x: "hd ((ws @ d @ ws') @ replicate SIMDJSON_PADDING 0) \<noteq> 0xEF" using l(3) by (cases ws; auto simp: is_ws_def)+
  have "bom_length (padded_string (ascii line)) (length line) = length mark"
    using bom_length_mark [OF x l(1)] l(2) length_ascii [of line] by (simp add: padded_string_def)
  then have "line_text line = ws @ d @ ws'" by (simp add: line_text_def l(2))
  then show thesis using that l(3,4) by blast
qed

lemma iterate_line:
  assumes al: "allocates alloc" "allocates alloc_bytes" and p: "op_ok p" and line: "line_doc line kvs d"
  obtains ji off p' mem where "parser_iterate alloc alloc_bytes p (padded_string (ascii line)) (length line) = Some (Inr (put kvs ji AtRoot), p')"
    "exhibits d kvs off ji" "op_ok p'" "op_string_buf p' = Some mem" "length d + 32 \<le> length mem"
proof -
  obtain ws ws' where t: "line_text line = ws @ d @ ws'" "all_ws ws" "all_ws ws'" by (rule line_text_doc [OF line])
  have dt: "doc_text kvs d" and max: "int (length line) + 2 < INT32_MAX" using line by (simp_all add: line_doc_def)
  have len: "length line \<le> SIMDJSON_MAXSIZE_BYTES" using max by (simp add: INT32_MAX_def SIMDJSON_MAXSIZE_BYTES_def)
  have "length (line_text line) \<le> length line" by (simp add: line_text_def)
  then have max': "int (length (ws @ d @ ws')) + 2 < INT32_MAX" using max t(1) by simp
  have v: "stage1_verdict (line_text line) = SUCCESS" unfolding t(1) by (rule doc_starts(2) [OF t(2,3) dt])
  obtain p' mem where p': "parser_iterate alloc alloc_bytes p (padded_string (ascii line)) (length line) =
      Some (if stage1_verdict (line_text line) = SUCCESS then Inr (json_iterator_new (padded_string (line_text line)) (op_impl p'))
            else Inl (stage1_verdict (line_text line)), p')"
    "op_ok p'" "op_string_buf p' = Some mem" "length (line_text line) + SIMDJSON_PADDING \<le> length mem"
    "stage1_verdict (line_text line) = SUCCESS \<longrightarrow> indexed (line_text line) (op_impl p')"
    "length (line_text line) + 3 \<le> length (structural_indexes (op_impl p'))"
    by (rule iterate_any [OF al p len])
  note ex = indexed_exhibits [OF t(2,3) dt mp [OF p'(5) v, unfolded t(1)] p'(6) [unfolded t(1)] max', folded t(1)]
  show thesis
    by (rule that [of "json_iterator_new (padded_string (line_text line)) (op_impl p')" p' "length ws" mem])
      (use p'(1-4) v ex t(1) in \<open>simp_all add: SIMDJSON_PADDING_def\<close>)
qed

section \<open>What a line says\<close>

abbreviation chars :: "u8 list \<Rightarrow> string" where "chars bs \<equiv> map (\<lambda>b. char_of (unat b)) bs"

definition row_of :: "(u8 \<times> jval) list \<Rightarrow> u8 list \<Rightarrow> u64 \<times> u64 \<times> string option" where
  "row_of kvs d =
    (case number_field kvs d ''status'' of Some v \<Rightarrow> v | None \<Rightarrow> 0,
     case number_field kvs d ''latency'' of Some v \<Rightarrow> v | None \<Rightarrow> (case number_field kvs d ''latency_ms'' of Some v \<Rightarrow> v | None \<Rightarrow> 0),
     case string_field kvs d ''trace_id'' of Some t \<Rightarrow> Some (chars t) | None \<Rightarrow> map_option chars (string_field kvs d ''service''))"

lemma line_keys_plain: "key \<in> set line_keys \<Longrightarrow> plain_key key"
  by (auto simp: line_keys_def plain_key_def ascii_def SIMDJSON_PADDING_def)

lemma parse_fields_at:
  assumes ex: "exhibits d kvs off ji" and dt: "doc_text kvs d" and keys: "\<forall>key \<in> set line_keys. unambiguous kvs d key"
    and room: "length d + 32 \<le> length mem"
  shows "\<exists>mem'. parse_fields (put kvs ji AtRoot) mem = Some (row_of kvs d, mem') \<and> length mem' = length mem"
proof -
  have k: "plain_key key" "unambiguous kvs d key" if "key \<in> set line_keys" for key using that keys line_keys_plain by blast+
  have ks: "''status'' \<in> set line_keys" "''latency'' \<in> set line_keys" "''latency_ms'' \<in> set line_keys" "''trace_id'' \<in> set line_keys" "''service'' \<in> set line_keys"
    by (simp_all add: line_keys_def)
  have p0: "proper kvs AtRoot" by (simp add: proper_def)
  obtain s p1 where s: "document_uint64 (put kvs ji AtRoot) (ascii ''status'') = Some (s, put kvs ji p1)" "proper kvs p1"
    "number_field kvs d ''status'' = (case s of Inl e \<Rightarrow> None | Inr v \<Rightarrow> Some v)"
    using document_uint64_at [OF ex dt k [OF ks(1)] p0] by blast
  obtain l p2 where l: "document_uint64 (put kvs ji p1) (ascii ''latency'') = Some (l, put kvs ji p2)" "proper kvs p2"
    "number_field kvs d ''latency'' = (case l of Inl e \<Rightarrow> None | Inr v \<Rightarrow> Some v)"
    using document_uint64_at [OF ex dt k [OF ks(2)] s(2)] by blast
  obtain l' p3 where l': "(case l of Inl e \<Rightarrow> document_uint64 (put kvs ji p2) (ascii ''latency_ms'') | Inr v \<Rightarrow> Some (l, put kvs ji p2)) = Some (l', put kvs ji p3)"
    "proper kvs p3" "or_0 l' = (case number_field kvs d ''latency'' of Some v \<Rightarrow> v | None \<Rightarrow> (case number_field kvs d ''latency_ms'' of Some v \<Rightarrow> v | None \<Rightarrow> 0))"
  proof (cases l)
    case (Inl e)
    obtain r p where "document_uint64 (put kvs ji p2) (ascii ''latency_ms'') = Some (r, put kvs ji p)" "proper kvs p"
      "number_field kvs d ''latency_ms'' = (case r of Inl e \<Rightarrow> None | Inr v \<Rightarrow> Some v)"
      using document_uint64_at [OF ex dt k [OF ks(3)] l(2)] by blast
    then show thesis using Inl l(3) by (intro that [of r p]) (auto simp: or_0_def split: sum.splits)
  qed (use l in \<open>auto simp: or_0_def intro!: that [of l p2]\<close>)
  have room0: "0 + length d + 32 \<le> length mem" using room by simp
  obtain t p4 mem1 s1 where t: "document_string (put kvs ji p3) (mem, 0) (ascii ''trace_id'') = Some (t, put kvs ji p4, mem1, s1)" "proper kvs p4"
    "length mem1 = length mem" "\<forall>e. t = Inl e \<longrightarrow> s1 = 0"
    "string_field kvs d ''trace_id'' = (case t of Inl e \<Rightarrow> None | Inr (a, n) \<Rightarrow> Some (take n (drop a mem1)))"
    using document_string_at [OF ex dt k [OF ks(4)] l'(2) room0] by blast
  obtain t' p5 mem2 s2 where t': "(case t of Inl e \<Rightarrow> document_string (put kvs ji p4) (mem1, s1) (ascii ''service'') | Inr v \<Rightarrow> Some (t, put kvs ji p4, mem1, s1)) =
      Some (t', put kvs ji p5, mem2, s2)" "length mem2 = length mem"
    "trace_of t' mem2 = (case string_field kvs d ''trace_id'' of Some t \<Rightarrow> Some (chars t) | None \<Rightarrow> map_option chars (string_field kvs d ''service''))"
  proof (cases t)
    case (Inl e)
    then have room1: "s1 + length d + 32 \<le> length mem1" using t(3,4) room by simp
    obtain r p mem' s' where "document_string (put kvs ji p4) (mem1, s1) (ascii ''service'') = Some (r, put kvs ji p, mem', s')"
      "length mem' = length mem1" "string_field kvs d ''service'' = (case r of Inl e \<Rightarrow> None | Inr (a, n) \<Rightarrow> Some (take n (drop a mem')))"
      using document_string_at [OF ex dt k [OF ks(5)] t(2) room1] by blast
    then show thesis using Inl t(3,5) by (intro that [of r p mem' s']) (auto simp: trace_of_def split: sum.splits)
  qed (use t in \<open>auto simp: trace_of_def intro!: that [of t p4 mem1 s1]\<close>)
  have "or_0 s = (case number_field kvs d ''status'' of Some v \<Rightarrow> v | None \<Rightarrow> 0)" using s(3) by (auto simp: or_0_def split: sum.splits)
  then have "parse_fields (put kvs ji AtRoot) mem = Some (row_of kvs d, mem2)"
    unfolding parse_fields_def row_of_def using s(1) l(1) l'(1,3) t(1) t'(1,3) by simp
  then show ?thesis using t'(2) by blast
qed

end
