(* ===== verification/Line_Pipeline.thy ===== *)
theory Line_Pipeline
  imports Simd_Lines Adaptive_Ingester
begin

text \<open>
  The parser of \<^verbatim>\<open>simdjson\<close> put behind the row loop of \<^verbatim>\<open>AdaptiveIngester\<close>: the readers \<open>simd_u64\<close> and
  \<open>simd_str\<close>, which \<open>ingest_chunk\<close> takes as arguments, give what the one parser of the loop gives, and a row group
  holds what the texts of its lines say.
\<close>

section \<open>What is said about a line\<close>

text \<open>A line that stage 1 rejects: an open string, a control character in a string, ill-formed UTF-8 or nothing but
  whitespace.\<close>

definition rejected :: "string \<Rightarrow> bool" where
  "rejected line \<longleftrightarrow> length line \<le> SIMDJSON_MAXSIZE_BYTES \<and> stage1_verdict (line_text line) \<noteq> SUCCESS"

type_synonym line_content = "((u8 \<times> jval) list \<times> u8 list) option"

fun says :: "string \<Rightarrow> line_content \<Rightarrow> bool" where
  "says line None \<longleftrightarrow> rejected line"
| "says line (Some (kvs, d)) \<longleftrightarrow> line_doc line kvs d"

fun row_says :: "line_content \<Rightarrow> u64 \<times> u64 \<times> string option" where
  "row_says None = (0, 0, None)"
| "row_says (Some (kvs, d)) = row_of kvs d"

section \<open>Lemmas\<close>

lemma op_ok_new: "op_ok ondemand_parser_new"
  by (simp add: op_ok_def ondemand_parser_new_def)

lemma simd_u64_doc:
  assumes al: "allocates alloc" "allocates alloc_bytes" and line: "line_doc line kvs d" and key: "key \<in> set line_keys"
  shows "simd_u64 alloc alloc_bytes line key = number_field kvs d key"
proof -
  have dt: "doc_text kvs d" and un: "unambiguous kvs d key" using line key by (simp_all add: line_doc_def)
  have p0: "proper kvs AtRoot" by (simp add: proper_def)
  obtain ji off p' mem where
    it: "parser_iterate alloc alloc_bytes ondemand_parser_new (padded_string (ascii line)) (length line) = Some (Inr (put kvs ji AtRoot), p')"
    and ex: "exhibits d kvs off ji"
    by (rule iterate_line [OF al op_ok_new line])
  obtain res p where "document_uint64 (put kvs ji AtRoot) (ascii key) = Some (res, put kvs ji p)"
    "number_field kvs d key = (case res of Inl e \<Rightarrow> None | Inr v \<Rightarrow> Some v)"
    using document_uint64_at [OF ex dt line_keys_plain [OF key] un p0] by blast
  then show ?thesis by (cases res) (simp_all add: simd_u64_def it)
qed

lemma simd_str_doc:
  assumes al: "allocates alloc" "allocates alloc_bytes" and line: "line_doc line kvs d" and key: "key \<in> set line_keys"
  shows "simd_str alloc alloc_bytes line key = map_option chars (string_field kvs d key)"
proof -
  have dt: "doc_text kvs d" and un: "unambiguous kvs d key" using line key by (simp_all add: line_doc_def)
  have p0: "proper kvs AtRoot" by (simp add: proper_def)
  obtain ji off p' mem where
    it: "parser_iterate alloc alloc_bytes ondemand_parser_new (padded_string (ascii line)) (length line) = Some (Inr (put kvs ji AtRoot), p')"
    and ex: "exhibits d kvs off ji" and mem: "op_string_buf p' = Some mem" "length d + 32 \<le> length mem"
    by (rule iterate_line [OF al op_ok_new line])
  have room: "0 + length d + 32 \<le> length mem" using mem(2) by simp
  obtain res p mem' s where "document_string (put kvs ji AtRoot) (mem, 0) (ascii key) = Some (res, put kvs ji p, mem', s)"
    "string_field kvs d key = (case res of Inl e \<Rightarrow> None | Inr (a, n) \<Rightarrow> Some (take n (drop a mem')))"
    using document_string_at [OF ex dt line_keys_plain [OF key] un p0 room] by blast
  then show ?thesis by (cases res) (auto simp: simd_str_def it mem(1) trace_of_def)
qed

lemma simd_rejected:
  assumes al: "allocates alloc" "allocates alloc_bytes" and line: "rejected line"
  shows "simd_u64 alloc alloc_bytes line key = None" "simd_str alloc alloc_bytes line key = None"
proof -
  have len: "length line \<le> SIMDJSON_MAXSIZE_BYTES" and no: "stage1_verdict (line_text line) \<noteq> SUCCESS"
    using line by (simp_all add: rejected_def)
  obtain p' where "parser_iterate alloc alloc_bytes ondemand_parser_new (padded_string (ascii line)) (length line) =
      Some (Inl (stage1_verdict (line_text line)), p')"
    by (rule iterate_any [OF al op_ok_new len]) (use no in auto)
  then show "simd_u64 alloc alloc_bytes line key = None" "simd_str alloc alloc_bytes line key = None"
    by (simp_all add: simd_u64_def simd_str_def)
qed

lemma row_values:
  assumes al: "allocates alloc" "allocates alloc_bytes" and line: "says line content"
  shows "(parse_status (simd_u64 alloc alloc_bytes) line, parse_latency (simd_u64 alloc alloc_bytes) line,
    parse_trace (simd_str alloc alloc_bytes) line) = row_says content"
proof (cases content)
  case None
  with line simd_rejected [OF al] show ?thesis
    by (simp add: parse_status_def parse_latency_def parse_trace_def)
next
  case (Some kd)
  obtain kvs d where kd: "kd = (kvs, d)" by (cases kd)
  have l: "line_doc line kvs d" using line Some kd by simp
  have ks: "''status'' \<in> set line_keys" "''latency'' \<in> set line_keys" "''latency_ms'' \<in> set line_keys"
    "''trace_id'' \<in> set line_keys" "''service'' \<in> set line_keys"
    by (simp_all add: line_keys_def)
  show ?thesis
    using simd_u64_doc [OF al l ks(1)] simd_u64_doc [OF al l ks(2)] simd_u64_doc [OF al l ks(3)]
      simd_str_doc [OF al l ks(4)] simd_str_doc [OF al l ks(5)]
    by (auto simp: Some kd row_of_def parse_status_def parse_latency_def parse_trace_def split: option.splits)
qed




text \<open>Lines for concrete instances: two documents and a line whose string is not closed.\<close>

definition log_line1 :: string where "log_line1 = ''{\"status\":500,\"latency\":9}''"
definition log_line2 :: string where "log_line2 = '' {\"latency_ms\":3,\"status\":200,\"service\":\"api\"}''"
definition log_line3 :: string where "log_line3 = ''{\"status''"
definition log_kvs1 :: "(u8 \<times> jval) list" where "log_kvs1 = [(0x22, Scalar 0x35), (0x22, Scalar 0x39)]"
definition log_kvs2 :: "(u8 \<times> jval) list" where "log_kvs2 = [(0x22, Scalar 0x33), (0x22, Scalar 0x32), (0x22, Scalar 0x22)]"

definition log_contents :: "line_content list" where
  "log_contents = [Some (log_kvs1, ascii log_line1), Some (log_kvs2, tl (ascii log_line2)), None]"

lemma log_line_bytes:
  "ascii log_line1 = [0x7B,0x22,0x73,0x74,0x61,0x74,0x75,0x73,0x22,0x3A,0x35,0x30,0x30,0x2C,0x22,0x6C,0x61,0x74,0x65,0x6E,0x63,0x79,0x22,0x3A,0x39,0x7D]"
  "ascii log_line2 = [0x20,0x7B,0x22,0x6C,0x61,0x74,0x65,0x6E,0x63,0x79,0x5F,0x6D,0x73,0x22,0x3A,0x33,0x2C,0x22,0x73,0x74,0x61,0x74,0x75,0x73,0x22,0x3A,0x32,0x30,0x30,
    0x2C,0x22,0x73,0x65,0x72,0x76,0x69,0x63,0x65,0x22,0x3A,0x22,0x61,0x70,0x69,0x22,0x7D]"
  "ascii log_line3 = [0x7B,0x22,0x73,0x74,0x61,0x74,0x75,0x73]"
  by (simp_all add: log_line1_def log_line2_def log_line3_def ascii_def of_char_def)

lemma log_line_docs: "doc_text log_kvs1 (ascii log_line1)" "doc_text log_kvs2 (tl (ascii log_line2))"
  unfolding log_line_bytes list.sel by code_simp+

lemma log_line_fields:
  "text_fields log_kvs1 (ascii log_line1) = [(ascii ''status'', 10), (ascii ''latency'', 24)]"
  "text_fields log_kvs2 (tl (ascii log_line2)) = [(ascii ''latency_ms'', 14), (ascii ''status'', 25), (ascii ''service'', 39)]"
  unfolding log_line_bytes list.sel by code_simp+

lemma log_line3_rejected: "rejected log_line3"
proof -
  have "line_text log_line3 = ascii log_line3"
    by (simp add: line_text_def bom_length_def padded_string_def bom_def log_line_bytes)
  moreover have "stage1_verdict (ascii log_line3) = UNCLOSED_STRING" unfolding log_line_bytes by code_simp
  ultimately show ?thesis by (simp add: rejected_def log_line3_def SIMDJSON_MAXSIZE_BYTES_def)
qed

lemma log_lines_say: "list_all2 says [log_line1, log_line2, log_line3] log_contents"
proof -
  have d: "distinct (map fst (text_fields log_kvs1 (ascii log_line1)))"
    "distinct (map fst (text_fields log_kvs2 (tl (ascii log_line2))))"
    unfolding log_line_fields by (simp_all add: ascii_def)
  have "ascii log_line2 = [] @ [0x20] @ tl (ascii log_line2) @ []" by (simp add: log_line_bytes)
  then have "\<exists>mark ws ws'. (mark = [] \<or> mark = bom) \<and> ascii log_line2 = mark @ ws @ tl (ascii log_line2) @ ws' \<and> all_ws ws \<and> all_ws ws'"
    by (intro exI [of _ "[]"] exI [of _ "[0x20]"]) (simp add: is_ws_def)
  moreover have "\<exists>mark ws ws'. (mark = [] \<or> mark = bom) \<and> ascii log_line1 = mark @ ws @ ascii log_line1 @ ws' \<and> all_ws ws \<and> all_ws ws'"
    by (intro exI [of _ "[]"]) simp
  moreover have "int (length log_line1) + 2 < INT32_MAX" "int (length log_line2) + 2 < INT32_MAX"
    by (simp_all add: log_line1_def log_line2_def INT32_MAX_def)
  ultimately show ?thesis
    using log_line_docs log_line3_rejected d [THEN distinct_unambiguous] by (simp add: log_contents_def line_doc_def)
qed

lemma log_rows_say: "map row_says log_contents = [(500, 9, None), (200, 3, Some ''api''), (0, 0, None)]"
proof -
  have n: "parse_unsigned (ascii log_line1) 10 = Some (Inr 500)" "parse_unsigned (ascii log_line1) 24 = Some (Inr 9)"
    "parse_unsigned (tl (ascii log_line2)) 14 = Some (Inr 3)" "parse_unsigned (tl (ascii log_line2)) 25 = Some (Inr 200)"
    unfolding log_line_bytes list.sel by code_simp+
  have u: "unescape Reject (drop 40 (tl (ascii log_line2))) = Some (Some [0x61, 0x70, 0x69], 3)"
    unfolding log_line_bytes list.sel by code_simp
  have q: "tl (ascii log_line2) ! 39 = 0x22" by (simp add: log_line_bytes)
  define d1 where "d1 = ascii log_line1"
  define d2 where "d2 = tl (ascii log_line2)"
  note facts = log_line_fields [folded d1_def d2_def] n [folded d1_def d2_def] u [folded d2_def] q [folded d2_def]
  have "row_of log_kvs1 d1 = (500, 9, None)" "row_of log_kvs2 d2 = (200, 3, Some ''api'')"
    using facts(3-8) by (simp_all add: row_of_def number_field_def string_field_def facts(1,2) ascii_def char_of_def bit_0)
  then show ?thesis by (simp add: log_contents_def d1_def d2_def)
qed

section \<open>Properties\<close>



text \<open>C9: a row group holds what its lines say. When every line of a chunk holds one JSON object or is rejected by stage 1, the
  values read back from the bit-planes of the first 65536 rows are the status and the latency (under either name) that the
  text of the line has, and zeros for a rejected line; the warm dictionary holds the traces (or else the services) that the
  texts have, unescaped, in line order.\<close>

theorem ingest_holds_lines:
  assumes "slicer_spec slice_n" "ingester_wf ing" "allocates alloc" "allocates alloc_bytes" "list_all2 says lines contents"
  shows "\<exists>ing' rg. ingest_chunk (simd_u64 alloc alloc_bytes) (simd_str alloc alloc_bytes) slice_n ing lines = Inr (ing', rg) \<and>
    (\<forall>row < min (length lines) 65536.
       row_value (hot_data_planes rg) 0 row = fst (row_says (contents ! row)) \<and>
       row_value (hot_data_planes rg) 1 row = fst (snd (row_says (contents ! row)))) \<and>
    warm_dict_strings rg = List.map_filter (\<lambda>c. snd (snd (row_says c))) (take 65536 contents)"
proof -
  let ?ju = "simd_u64 alloc alloc_bytes" and ?js = "simd_str alloc alloc_bytes"
  obtain ing' rg where c: "ingest_chunk ?ju ?js slice_n ing lines = Inr (ing', rg)"
    and rd: "rows_done ?ju ?js lines (num_blocks_for (length lines)) rg"
    using ingest_chunk_done [OF assms(1,2), of ?ju ?js lines] by blast
  note vals = row_values [OF assms(3,4)]
  have "row_value (hot_data_planes rg) 0 row = fst (row_says (contents ! row)) \<and>
      row_value (hot_data_planes rg) 1 row = fst (snd (row_says (contents ! row)))" if "row < length lines" "row < 65536" for row
    using rows_done_values [OF rd that] vals [OF list_all2_nthD [OF assms(5) that(1)]] by (metis fst_conv snd_conv)
  moreover have "list_all2 says (take 65536 lines) (take 65536 contents)" using assms(5) by (rule list_all2_takeI)
  then have "List.map_filter (parse_trace ?js) (take 65536 lines) = List.map_filter (\<lambda>c. snd (snd (row_says c))) (take 65536 contents)"
  proof (induction rule: list_all2_induct)
    case (Cons line lines content contents)
    have "parse_trace ?js line = snd (snd (row_says content))" using vals [OF Cons.hyps(1)] by (metis snd_conv)
    with Cons.IH show ?case by (simp add: List.map_filter_simps split: option.split)
  qed (simp add: List.map_filter_simps)
  then have "warm_dict_strings rg = List.map_filter (\<lambda>c. snd (snd (row_says c))) (take 65536 contents)"
    using rd by (simp add: rows_done_def num_blocks_take traces_def)
  ultimately show ?thesis using c by auto
qed

theorem ingest_holds_lines_witness:
  "\<exists>ing' rg. ingest_chunk (simd_u64 (\<lambda>n. Some (replicate n 0)) (\<lambda>n. Some (replicate n 0)))
      (simd_str (\<lambda>n. Some (replicate n 0)) (\<lambda>n. Some (replicate n 0))) ref_slice AdaptiveIngester_new
      [log_line1, log_line2, log_line3] = Inr (ing', rg) \<and>
    row_value (hot_data_planes rg) 0 0 = 500 \<and> row_value (hot_data_planes rg) 1 1 = 3 \<and>
    row_value (hot_data_planes rg) 0 2 = 0 \<and> warm_dict_strings rg = [''api'']"
proof -
  have a: "allocates (\<lambda>n. Some (replicate n 0 :: 'a :: zero list))" by (simp add: allocates_def)
  have c: "length log_contents = 3" by (simp add: log_contents_def)
  have r: "row_says (log_contents ! k) = [(500, 9, None), (200, 3, Some ''api''), (0, 0, None)] ! k" if "k < 3" for k
    using nth_map [of k log_contents row_says] that unfolding log_rows_say c by simp
  have "List.map_filter (\<lambda>c. snd (snd (row_says c))) (take 65536 log_contents) = List.map_filter (\<lambda>r. snd (snd r)) (map row_says log_contents)"
    by (simp add: c List.map_filter_def filter_map comp_def)
  then have t: "List.map_filter (\<lambda>c. snd (snd (row_says c))) (take 65536 log_contents) = [''api'']"
    unfolding log_rows_say by (simp add: List.map_filter_simps)
  obtain ing' rg where g: "ingest_chunk (simd_u64 (\<lambda>n. Some (replicate n 0)) (\<lambda>n. Some (replicate n 0)))
      (simd_str (\<lambda>n. Some (replicate n 0)) (\<lambda>n. Some (replicate n 0))) ref_slice AdaptiveIngester_new
      [log_line1, log_line2, log_line3] = Inr (ing', rg)"
    "\<forall>row < min (length [log_line1, log_line2, log_line3]) 65536.
       row_value (hot_data_planes rg) 0 row = fst (row_says (log_contents ! row)) \<and>
       row_value (hot_data_planes rg) 1 row = fst (snd (row_says (log_contents ! row)))"
    "warm_dict_strings rg = List.map_filter (\<lambda>c. snd (snd (row_says c))) (take 65536 log_contents)"
    using ingest_holds_lines [OF ref_slice_spec ingester_wf_new a a log_lines_say] by blast
  then show ?thesis using r [of 0] r [of 1] r [of 2] unfolding t by auto
qed

end
