(* ===== verification/Spec2Isabelle.thy ===== *)
theory Spec2Isabelle
  imports Bloom_Filter Zone_Map Row_Group Plan_Cache Wal Adaptive_Ingester Staging_Pipeline Query_Planner Promotion_Daemon
    Cpp_Strings Dispatcher String_Search External_Interfaces Exporter Query_Ingester Service Cli Simd_Lookups Log_Pipeline Line_Pipeline
begin

text \<open>
  A verification development of \<^bold>\<open>AarchGate-Eureka\<close>, a log query engine in C++ for ARM64 processors. It answers
  queries on two fields of JSON log lines, \<open>status\<close> and \<open>latency\<close>, and counts occurrences of a string, on text files and on
  a bit-sliced binary format. Paths below are relative to the repository; the files of \<^verbatim>\<open>include/lex\<close> and \<^verbatim>\<open>src/lex\<close> are
  the library, \<^verbatim>\<open>bin/ag-lex.cpp\<close> and \<^verbatim>\<open>eureka-services/aarchgate-core-grpc\<close> the two executables, \<^verbatim>\<open>external/simdjson\<close> the
  JSON parser that is compiled into both.

  \<^bold>\<open>How the parts interact.\<close> A query string goes to \<open>QueryDispatcher::parse_query\<close>. A string search scans the mapped bytes
  of a file. A numerical query on a text file is answered by \<open>Ingester::run_query\<close>: a producer thread reads documents from a
  \<^verbatim>\<open>simdjson\<close> stream into chunks of 64 records, a ring buffer hands them to a consumer thread, and this thread asks the scan
  engine. A numerical query on a binary file runs the engine on the mapped words. \<open>convert_json_to_agb\<close> writes the binary
  format. The service keeps a cache of mapped binary files that background threads pin, and accepts lines that
  \<open>AdaptiveIngester\<close> logs, stages and transcodes into row groups with zone maps and a Bloom filter. The pruning planner and the
  promotion daemon read these row groups; the plan cache is their companion for compiled scans. \<^verbatim>\<open>simdjson\<close> finds the tokens of
  a text in its stage 1, and its On Demand interface looks up fields on these tokens.

  \<^bold>\<open>Theories of the query engine.\<close>
  \<^item> \<^verbatim>\<open>Eureka_Prelude\<close>: machine words, byte access, the error value of undefined behaviour, and the lemmas all others share.
  \<^item> \<^verbatim>\<open>Bloom_Filter\<close> (\<^verbatim>\<open>storage/bloom_filter.hpp\<close>): the hash and the filter. Added keys are reported; the hash is injective on
    keys of equal length of at most eight bytes.
  \<^item> \<^verbatim>\<open>Zone_Map\<close> (\<^verbatim>\<open>storage/zone_map.hpp\<close>): minimum and maximum in the three views of the union, with signed, unsigned and
    floating-point order, through the locale \<open>range_order\<close> and its extension for orders with bounds.
  \<^item> \<^verbatim>\<open>Row_Group\<close> (\<^verbatim>\<open>storage/row_group.hpp\<close>): members, copies and moves, reference count, block-presence maps and the layout of
    the bit-planes.
  \<^item> \<^verbatim>\<open>Plan_Cache\<close> (\<^verbatim>\<open>jit/plan_cache.*\<close>): the least-recently-used list with its iterators as addresses of nodes; it refines
    a list specification (locale \<open>lru_contract\<close>).
  \<^item> \<^verbatim>\<open>Wal\<close> (\<^verbatim>\<open>ingest/adaptive_ingester.cpp\<close>): the write-ahead log as a file (locale \<open>durable_log\<close>).
  \<^item> \<^verbatim>\<open>Adaptive_Ingester\<close> (\<^verbatim>\<open>ingest/adaptive_ingester.*\<close>): slots, transcoding of 64 lines at a time, staging, draining and
    recovery. \<^verbatim>\<open>Staging_Pipeline\<close>: the same two methods as the steps of producer and worker threads, in any interleaving
    (\<open>pipe_run\<close>), and what the depth counter then counts.
  \<^item> \<^verbatim>\<open>Query_Planner\<close> (\<^verbatim>\<open>jit/query_planner.*\<close>): pruning is sound on row groups that \<open>ingest_chunk\<close> has built.
  \<^item> \<^verbatim>\<open>Promotion_Daemon\<close> (\<^verbatim>\<open>ingest/promotion_daemon.*\<close>): heat and threshold in double arithmetic, compaction.
  \<^item> \<^verbatim>\<open>Cpp_Strings\<close>, \<^verbatim>\<open>Dispatcher\<close> (\<^verbatim>\<open>dispatcher.*\<close>), \<^verbatim>\<open>String_Search\<close>: the query language and the scalar search.
  \<^item> \<^verbatim>\<open>External_Interfaces\<close>: the results of a document stream and the scan engine as the program sees them.
  \<^item> \<^verbatim>\<open>Exporter\<close> (\<^verbatim>\<open>exporter.cpp\<close>): the conversion, and that an export reads back.
  \<^item> \<^verbatim>\<open>Query_Ingester\<close> (\<^verbatim>\<open>ingester.*\<close>): both threads as interleaved steps, a critical section being one step and a wait on a
    condition variable a flag. Every schedule that returns gives the exact count, some schedule does, none gets stuck and
    their length is bounded; the ring buffer is a queue (locale \<open>bounded_fifo\<close>).
  \<^item> \<^verbatim>\<open>Service\<close> (\<^verbatim>\<open>service_impl.*\<close>, \<^verbatim>\<open>main.cpp\<close>) and \<^verbatim>\<open>Cli\<close> (\<^verbatim>\<open>bin/ag-lex.cpp\<close>): queries, ingestion, the mapping cache
    with its threads, the destructor, and the command line.
  \<^item> \<^verbatim>\<open>Log_Pipeline\<close>: the document stream of \<^verbatim>\<open>simdjson\<close> put in front of the query pipeline and of the exporter: from the bytes of
    a log file to the number that a query returns, and to the words of the exported files.
  \<^item> \<^verbatim>\<open>Line_Pipeline\<close>: the parser of \<^verbatim>\<open>simdjson\<close> put behind the row loop of \<^verbatim>\<open>Adaptive_Ingester\<close>: one parser serves all
    lines of a chunk, and a row group holds what the texts of its lines say.
  \<^item> This theory: properties that compose them, above all that the text pipeline and the binary scan of an export agree.

  \<^bold>\<open>Theories of the JSON parser.\<close> The kernel is the one for ARM64; a register is the list of its lanes.
  \<^item> \<^verbatim>\<open>Simd_Bits\<close>: masks and registers, each operation read bit by bit.
  \<^item> \<^verbatim>\<open>Simd_Scanner\<close>: the block scanner marks exactly the bytes at which a sequential lexer starts a token.
  \<^item> \<^verbatim>\<open>Simd_Utf8\<close>: the validator accepts exactly the well-formed texts of RFC 3629.
  \<^item> \<^verbatim>\<open>Simd_Indexer\<close>: stage 1 as a whole, its index array and its errors.
  \<^item> \<^verbatim>\<open>Simd_Documents\<close>: the grammar of values over structural characters, and where a window of a stream is cut.
  \<^item> \<^verbatim>\<open>Simd_Strings\<close>: unescaping in steps of 32 bytes against a reference that reads one character after the other (locale
    \<open>unicode_handler\<close>, with the strict and the wobbly treatment of surrogates as interpretations).
  \<^item> \<^verbatim>\<open>Simd_Numbers\<close>: the readers of 64-bit integers, the routines on eight digits, the atoms.
  \<^item> \<^verbatim>\<open>Simd_Ondemand\<close>: the cursor over the tokens and the calls behind \<open>doc[key].get_uint64()\<close>, \<open>doc[key].get_string()\<close> and
    \<open>doc.raw_json()\<close>. \<^verbatim>\<open>Simd_Lookups\<close>: the places where these calls leave the cursor, and that any sequence of
    lookups gives what the text says.
  \<^item> \<^verbatim>\<open>Simd_Stream\<close>: \<open>document_stream\<close> with its batches and its background thread, and the two loops of the program over it.
    \<^verbatim>\<open>Simd_Windows\<close>: what stage 1 makes of a window that a text of documents is cut into, and where the next window begins.
    \<^verbatim>\<open>Simd_Texts\<close>: what a document says, and that the loop bodies read it (locale \<open>document_reader\<close>). \<^verbatim>\<open>Simd_Delivery\<close>: the
    invariant \<open>serving\<close> of the stream, that the loops get all documents, and that the time at which the thread works does not matter.
  \<^item> \<^verbatim>\<open>Simd_Literals\<close>: string values of a document are unescaped to what its text says, whatever lies behind it.
    \<^verbatim>\<open>Simd_Lines\<close>: \<open>parser::iterate\<close> on a padded string, with the parser's memory growing and used again, and the five
    fields of a line.

  \<^bold>\<open>Correspondence.\<close> Definitions keep the names of the sources where HOL has them free. A class is a record with the same members;
  a method is a function from the object to the changed object and the result. Machine integers are words and wrap around; sizes
  and positions in memory are natural numbers where the sources cannot overflow them. Undefined behaviour is a value: \<open>None\<close>,
  or \<open>Inl\<close> of a \<open>cpp_error\<close>. So a theorem that states a result also states that no access was out of bounds. Where the
  operating system decides (opening, mapping, reading a file), its answer is an argument. A method that holds a mutex across
  its body is one step; elsewhere the steps are the critical sections and the atomic operations.

  \<^bold>\<open>Bounds.\<close> Loops are recursive functions with a measure wherever their variable says how often they run. Where the code
  bounds a loop only by the contents of memory, the model counts rounds: the number is the length of the text for unescaping
  and the length of the index array for the field search. The theorems \<open>parse_string_correct\<close>, \<open>parse_wobbly_string_correct\<close>
  and \<open>document_requests_correct\<close> show that these rounds suffice, since they give a result. The cursor's depth stays below the
  32-bit maximum because the number of tokens does (\<open>object_doc\<close>). The loops of the document stream are fixed points with the
  value \<open>None\<close> where they do not end; \<open>log_delivered\<close> shows that they end on every log whose documents fit into a batch (a
  million bytes in the program), and \<open>blank_window_ends_stream\<close> what happens when a window holds no document.

  \<^bold>\<open>Hypotheses on code outside of the repository.\<close> \<open>slicer_spec\<close>: bit \<open>r\<close> of plane \<open>b\<close> is bit \<open>b\<close> of value \<open>r\<close>.
  \<open>engine_counts_rows\<close> and \<open>engine_counts_sliced\<close>: the engine counts the records on which the expression holds. Both belong to
  the \<^verbatim>\<open>AarchGate\<close> submodule, whose directory is empty; \<open>ref_slice\<close>, \<open>ref_execute\<close> and \<open>ref_native\<close> meet them and serve the
  witnesses. In the theories of the query engine a document stream is the sequence of results it delivers, which \<^verbatim>\<open>Log_Pipeline\<close>
  computes from the bytes of the file; the parser of \<^verbatim>\<open>Adaptive_Ingester\<close> is a function from lines and keys to results, for
  which \<^verbatim>\<open>Line_Pipeline\<close> puts \<open>simd_u64\<close> and \<open>simd_str\<close>, computed from the bytes of the line.
  \<open>allocates\<close>: the memory allocator never fails.

  \<^bold>\<open>Not modelled.\<close> Console output, timings and performance figures; thread placement on cores and page locking beyond its state; the
  JVM front end, tests and benchmarks. Of \<^verbatim>\<open>simdjson\<close>: the kernels for other processors, floating-point numbers, stage 2 with the
  tape and the DOM, arrays and the other accessors of the On Demand interface, which the program does not use. After an error in
  one document of a batch the abandoned iterator has no parser any more; what the sources read then is the value \<open>None\<close>. The standard library is modelled as far as the sources use it. No memory order is modelled beyond the
  interleaving of critical sections and of atomic operations.
\<close>

section \<open>Properties that span components\<close>

lemma agb_image_length: "length (words_bytes (agb_words s ds (ceil64 (length ds)))) = 1024 * ceil64 (length ds)"
  by simp

text \<open>What \<open>ExecuteQuery\<close> answers on an exported image: an image without a document is an empty file,
  which the service does not map.\<close>

definition binary_outcome :: "string \<Rightarrow> u64 \<Rightarrow> log_doc list \<Rightarrow> status_code \<times> QueryResponse" where
  "binary_outcome path n ds =
     (if ds = [] then (StatusINTERNAL, error_response (''Failed to map binary file: '' @ path))
      else (StatusOK, ok_response n (1024 * ceil64 (length ds))))"

lemma execute_agb:
  assumes "slicer_spec s" "engine_counts_sliced (e_native e)"
    and q: "parse_query query = Inr q" and path: "path = resolve (e_canon e) raw" "is_agb path" "resolve (e_canon e) path = path"
    and fresh: "mapped_files st path = None" "e_map e path = MappedAt a (1024 * ceil64 (length ds))" "a \<noteq> 0"
    and image: "e_mem e a = words_bytes (agb_words s ds (ceil64 (length ds)))"
    and size: "1024 * ceil64 (length ds) \<noteq> 1996800000"
  shows "ExecuteQuery e query raw pin st r st' \<longleftrightarrow>
    r = Inr (binary_outcome path
      (of_nat (length (filter (doc_matches (status_target q) (latency_target q)) ds))) ds) \<and>
    st' = PrewarmCache (e_canon e) (e_map e) path pin st"
    (is "_ \<longleftrightarrow> ?R")
proof (cases "ds = []")
  case True
  then have m: "PrewarmCache (e_canon e) (e_map e) path pin st = st" "\<forall>m. mapped_files st path = Some m \<longrightarrow> addr m = 0"
    using path fresh by (simp_all add: PrewarmCache_def Let_def)
  show ?thesis
  proof
    assume "ExecuteQuery e query raw pin st r st'"
    then show ?R using q path m True fresh by cases (auto simp: binary_outcome_def)
  next
    assume ?R
    then show "ExecuteQuery e query raw pin st r st'"
      using ExecuteQuery.agb_unmapped [OF q path(1,2), of st pin st] m True by (simp add: binary_outcome_def)
  qed
next
  case False
  then have pos: "ceil64 (length ds) \<noteq> 0" unfolding ceil64_eq_0 by simp
  let ?m = "\<lparr>addr = a, mf_size = 1024 * ceil64 (length ds), pinned = False, pin_in_progress = pin\<rparr>"
  have m: "mapped_files (PrewarmCache (e_canon e) (e_map e) path pin st) path = Some ?m"
    using path fresh pos by (simp add: PrewarmCache_def Let_def)
  note scan = agb_scan_exact [OF assms(1,2) size, of q]
  show ?thesis
  proof
    assume "ExecuteQuery e query raw pin st r st'"
    then show ?R using q path m scan image fresh(3) False by cases (auto simp: binary_outcome_def)
  next
    assume ?R
    then show "ExecuteQuery e query raw pin st r st'"
      using ExecuteQuery.agb_mapped [OF q path(1,2) refl m] scan image fresh(3) False by (simp add: binary_outcome_def)
  qed
qed

text \<open>C3: exported images answer like the text, with one exception. Whenever an export succeeds (so its
  stream threw no exception) and the image is not 1996800000 bytes long, the size that is read with
  three fields, the binary scan of the image returns the number that the multi-threaded text pipeline
  returns on the same documents, for every pair of targets.\<close>

theorem export_scan_agrees_with_pipeline:
  assumes "slicer_spec s" "engine_counts_sliced native" "engine_counts_rows execute"
    "length (chunks ig) = 16" "filepath ig \<noteq> []"
    "convert_json_to_agb s True True True (Some items) files = (True, Some agb, Some idx)"
    "length agb \<noteq> 1996800000"
  shows "(\<exists>ig'. run_query execute (Some n) (Some items) ig (status_target q) (latency_target q) m ig') \<longleftrightarrow>
    m = agb_scan native q (length agb) agb"
proof -
  have calm: "DocThrow \<notin> set items" using convert_success_calm [OF assms(6)] .
  have agb: "agb = words_bytes (agb_words s (parsed_docs items) (ceil64 (length (parsed_docs items))))"
    using convert_files [OF calm, of s files] assms(6) by simp
  then have len: "length agb = 1024 * ceil64 (length (parsed_docs items))" by simp
  have "agb_scan native q (length agb) agb =
      of_nat (length (filter (doc_matches (status_target q) (latency_target q)) (parsed_docs items)))"
    using agb_scan_exact [OF assms(1,2), of "parsed_docs items" q] assms(7) unfolding len by (simp add: agb)
  then show ?thesis
    using run_query_expected [OF assms(3-5), of n items "status_target q" "latency_target q" m] calm
    by (simp add: expected_def delivered_def hits_docs)
qed

theorem export_scan_agrees_with_pipeline_witness:
  "\<exists>agb idx ig'. convert_json_to_agb ref_slice True True True (Some [a_doc 500 9]) (None, None) = (True, Some agb, Some idx) \<and>
     run_query ref_execute (Some 90) (Some [a_doc 500 9]) opened 500 5
       (agb_scan ref_native (numerical_result 500 5) (length agb) agb) ig'"
proof -
  have d: "DocThrow \<notin> set [a_doc 500 9]" "length (parsed_docs [a_doc 500 9]) = 1" by (simp_all add: a_doc_def)
  obtain agb idx where f: "convert_json_to_agb ref_slice True True True (Some [a_doc 500 9]) (None, None) = (True, Some agb, Some idx)"
    "length agb = 1024"
    using convert_files [OF d(1), of ref_slice "(None, None)"] d(2) by simp
  then show ?thesis
    using export_scan_agrees_with_pipeline [OF ref_slice_spec ref_engines(2,1) opened_ok f(1), of 90 "numerical_result 500 5"]
    by (simp add: numerical_result_def)
qed

text \<open>C24: the service on a binary file. Take a numerical query on a path that resolves to an exported image
  of other than 1996800000 bytes which is not mapped yet and which the operating system opens and maps
  at an address other than null. When there are documents in the image, the service answers OK with the
  exact number of matching documents and the size of the image, and the image is mapped from then on;
  an image without documents is an empty file, which is refused with an internal error.\<close>

theorem execute_binary_query_exact:
  assumes "slicer_spec s" "engine_counts_sliced (e_native e)"
    "parse_query query = Inr q" "qtype q = BIT_SLICED_NUMERICAL_LOGIC"
    "path = resolve (e_canon e) raw" "is_agb path" "resolve (e_canon e) path = path" "mapped_files st path = None"
    "e_map e path = MappedAt a (1024 * ceil64 (length ds))" "a \<noteq> 0"
    "e_mem e a = words_bytes (agb_words s ds (ceil64 (length ds)))" "1024 * ceil64 (length ds) \<noteq> 1996800000"
  shows "ExecuteQuery e query raw pin st r st' \<longleftrightarrow>
    r = Inr (if ds = [] then (StatusINTERNAL, error_response (''Failed to map binary file: '' @ path))
      else (StatusOK, ok_response
        (of_nat (length (filter (doc_matches (status_target q) (latency_target q)) ds))) (1024 * ceil64 (length ds)))) \<and>
    st' = (if ds = [] then st
      else st\<lparr>mapped_files := (mapped_files st)(path \<mapsto>
                \<lparr>addr = a, mf_size = 1024 * ceil64 (length ds), pinned = False, pin_in_progress = pin\<rparr>),
              pin_threads := pin_threads st @ (if pin then [(path, a, 1024 * ceil64 (length ds))] else [])\<rparr>)"
proof (cases "ds = []")
  case False
  then have "ceil64 (length ds) \<noteq> 0" by (simp add: ceil64_eq_0)
  with False show ?thesis
    using execute_agb [OF assms(1-3,5-12), of pin r st'] assms(6-9)
    by (simp add: binary_outcome_def PrewarmCache_def Let_def)
qed (use execute_agb [OF assms(1-3,5-12), of pin r st'] assms(6-9) in
  \<open>simp add: binary_outcome_def PrewarmCache_def Let_def\<close>)

text \<open>A file system with one image of three documents.\<close>

definition three_docs :: "log_doc list" where
  "three_docs = [\<lparr>raw_offset = Some 0, status_field = Some 500, latency_field = Some 9\<rparr>,
     \<lparr>raw_offset = Some 40, status_field = Some 200, latency_field = Some 9\<rparr>,
     \<lparr>raw_offset = Some 80, status_field = Some 500, latency_field = Some 70\<rparr>]"

definition agb_env :: env where
  "agb_env = sample_env\<lparr>e_map := (\<lambda>_. MappedAt 4096 1024),
     e_mem := (\<lambda>_. words_bytes (agb_words ref_slice three_docs 1))\<rparr>"

lemma three_docs_facts:
  "ceil64 (length three_docs) = 1" "three_docs \<noteq> []"
  "length (filter (doc_matches 500 5) three_docs) = 2"
  by (simp_all add: three_docs_def doc_matches_def field_or_0_def)

theorem execute_binary_query_exact_witness:
  "ExecuteQuery agb_env (''status == '' @ dec 500 @ '' AND latency > '' @ dec 5) ''a.agb'' False Service_new
     (Inr (StatusOK, ok_response 2 1024))
     \<lparr>mapped_files = [''a.agb'' \<mapsto> \<lparr>addr = 4096, mf_size = 1024, pinned = False, pin_in_progress = False\<rparr>],
      pin_threads = []\<rparr>"
proof -
  have q: "parse_query (''status == '' @ dec 500 @ '' AND latency > '' @ dec 5) = Inr (numerical_result 500 5)"
    using parse_joined [of "'' ''" "'' ''" "'' ''" "'' ''" "[]" "[]" "'' ''" "'' ''" "''AND''" 500 5]
    by (simp add: layout_ok_def isspace_def status_clause_def latency_clause_def)
  show ?thesis
    using execute_binary_query_exact [OF ref_slice_spec _ q, of agb_env "''a.agb''" "''a.agb''" Service_new 4096 three_docs False
        "Inr (StatusOK, ok_response 2 1024)"
        "\<lparr>mapped_files = [''a.agb'' \<mapsto> \<lparr>addr = 4096, mf_size = 1024, pinned = False, pin_in_progress = False\<rparr>],
          pin_threads = []\<rparr>"]
    by (simp add: agb_env_def sample_env_def ref_engines resolve_def is_agb_def Service_new_def three_docs_facts
        numerical_result_def)
qed

text \<open>a text search on a binary file ignores its pattern. The service dispatches on the file name
  before the query type: a string search on an exported image with documents answers OK with the number
  of documents whose status is 0 and whose latency is not, whatever the pattern.\<close>

theorem scalar_query_on_binary_ignores_pattern:
  assumes "slicer_spec s" "engine_counts_sliced (e_native e)" "parse_query query = Inr (scalar_result p)"
    "path = resolve (e_canon e) raw" "is_agb path" "resolve (e_canon e) path = path" "mapped_files st path = None"
    "e_map e path = MappedAt a (1024 * ceil64 (length ds))" "a \<noteq> 0"
    "e_mem e a = words_bytes (agb_words s ds (ceil64 (length ds)))" "1024 * ceil64 (length ds) \<noteq> 1996800000" "ds \<noteq> []"
  shows "ExecuteQuery e query raw pin st r st' \<longrightarrow>
    r = Inr (StatusOK, ok_response (of_nat (length (filter (\<lambda>d. doc_status d = 0 \<and> doc_latency d \<noteq> 0) ds)))
          (1024 * ceil64 (length ds)))"
proof -
  have "doc_matches 0 0 = (\<lambda>d. doc_status d = 0 \<and> doc_latency d \<noteq> 0)"
    by (auto simp: fun_eq_iff doc_matches_def word_neq_0_conv)
  then show ?thesis
    using execute_agb [OF assms(1-11), of pin r st'] assms(12) by (simp add: scalar_result_def binary_outcome_def)
qed

theorem scalar_query_on_binary_ignores_pattern_witness:
  "\<forall>r st'. ExecuteQuery agb_env (quote # ''error'' @ [quote]) ''a.agb'' False Service_new r st' \<longrightarrow>
     r = Inr (StatusOK, ok_response 0 1024)"
proof -
  have "parse_query (quote # ''error'' @ [quote]) = Inr (scalar_result ''error'')"
    by (simp add: parse_query_def Let_def trim_def isspace_def is_numerical_def strip_quotes_def)
  moreover have "filter (\<lambda>d. doc_status d = 0 \<and> doc_latency d \<noteq> 0) three_docs = []"
    by (simp add: three_docs_def field_or_0_def)
  ultimately show ?thesis
    using scalar_query_on_binary_ignores_pattern [OF ref_slice_spec _, of agb_env "quote # ''error'' @ [quote]" "''error''"
        "''a.agb''" "''a.agb''" Service_new 4096 three_docs False]
    by (simp add: agb_env_def sample_env_def ref_engines resolve_def is_agb_def Service_new_def three_docs_facts)
qed

text \<open>C40: one file size is misread. An export of 1950000 blocks is exactly as long as the size for which
  the service assumes three fields per block; it then takes the latency of a document for its status,
  shown here for the documents of the second block.\<close>

theorem special_size_misread:
  assumes "slicer_spec s" "ceil64 (length ds) = 1950000" "64 \<le> row" "row < 128"
  shows "length (words_bytes (agb_words s ds (ceil64 (length ds)))) = 1996800000 \<and>
    agb_fields (length (words_bytes (agb_words s ds (ceil64 (length ds))))) = 3 \<and>
    sliced_value 3 (bytes_words (words_bytes (agb_words s ds (ceil64 (length ds))))) 0 row = col_or_0 doc_latency ds row"
proof -
  have len: "length (words_bytes (agb_words s ds (ceil64 (length ds)))) = 1996800000"
    unfolding agb_image_length assms(2) by simp
  have row: "row div 64 = 1" using assms(3,4) by simp
  have same: "row div 64 * (3 * 64) + 0 * 64 + b = row div 64 * (2 * 64) + 1 * 64 + b" for b
    unfolding row by simp
  have "sliced_value 3 (agb_words s ds (ceil64 (length ds))) 0 row = sliced_value 2 (agb_words s ds (ceil64 (length ds))) 1 row"
    unfolding sliced_value_def same ..
  moreover have "row < ceil64 (length ds) * 64" using assms(4) unfolding assms(2) by simp
  ultimately show ?thesis using len sliced_agb(2) [OF assms(1)] by (simp add: agb_fields_def)
qed

theorem special_size_misread_witness:
  "sliced_value 3 (bytes_words (words_bytes (agb_words ref_slice
     (replicate 124800000 \<lparr>raw_offset = None, status_field = Some 500, latency_field = Some 9\<rparr>) 1950000))) 0 64 = 9"
proof -
  let ?ds = "replicate 124800000 \<lparr>raw_offset = None, status_field = Some 500, latency_field = Some 9\<rparr>"
  have n: "ceil64 (length ?ds) = 1950000" by simp
  from special_size_misread [OF ref_slice_spec n, of 64] show ?thesis
    unfolding n by (simp add: col_or_0_def field_or_0_def)
qed

text \<open>a query on the status alone loses documents. It is parsed with the latency target 0 and run
  as a conjunction, so the documents with latency 0 (or without a latency) are not counted.\<close>

theorem status_query_misses_zero_latency:
  assumes "engine_counts_rows execute" "length (chunks ig) = 16" "filepath ig \<noteq> []" "DocThrow \<notin> set items"
    "layout_ok a b" "parse_query (status_clause a b v) = Inr q"
  shows "(\<exists>ig'. run_query execute (Some n) (Some items) ig (status_target q) (latency_target q) m ig') \<longleftrightarrow>
    m = of_nat (length (filter (\<lambda>d. doc_status d = v \<and> doc_latency d \<noteq> 0) (parsed_docs items)))"
proof -
  have "q = numerical_result v 0" using parse_status_only [OF assms(5), of "[]" "[]" v] assms(6) by simp
  then have "doc_matches (status_target q) (latency_target q) = (\<lambda>d. doc_status d = v \<and> doc_latency d \<noteq> 0)"
    by (auto simp: fun_eq_iff doc_matches_def word_neq_0_conv numerical_result_def)
  then show ?thesis
    using run_query_expected [OF assms(1-3), of n items "status_target q" "latency_target q" m] assms(4)
    by (simp add: expected_def delivered_def hits_docs)
qed

theorem status_query_misses_zero_latency_witness:
  "\<exists>q. parse_query (status_clause [] [] 500) = Inr q \<and>
     (\<exists>ig'. run_query ref_execute (Some 90) (Some [a_doc 500 0, a_doc 500 3]) opened (status_target q) (latency_target q) 1 ig')"
proof -
  have l: "layout_ok [] []" by (simp add: layout_ok_def)
  have p: "parse_query (status_clause [] [] 500) = Inr (numerical_result 500 0)"
    using parse_status_only [OF l, of "[]" "[]" 500] by simp
  have d: "DocThrow \<notin> set [a_doc 500 0, a_doc 500 3]" by (simp add: a_doc_def)
  from status_query_misses_zero_latency [OF ref_engines(1) opened_ok d l p, of 90 1] p
  show ?thesis by (simp add: a_doc_def field_or_0_def)
qed

end
